(* ===== verification/Kallisto_Prelude.thy ===== *)
theory Kallisto_Prelude
  imports
    Main
    "HOL-Library.Word"
    "HOL-Library.Char_ord"
    "HOL-Library.List_Lexorder"
    "HOL-Library.Sublist"
begin

unbundle bit_operations_syntax

text \<open>
  The vocabulary the component theories share.

  \<^item> Integers: \<open>u8\<close> and \<open>u64\<close> are words where the code relies on the width or on
    wrap-around; sizes and saturating counters are natural numbers with the bound written out.
  \<^item> Text: a Rust \<open>str\<close> is its UTF-8 bytes, one HOL \<open>char\<close> per byte, so \<open>length\<close> is
    \<open>str::len\<close>. \<open>valid_utf8\<close> is the type invariant every \<open>str\<close> has. Indexing a
    string at a position that is out of range or inside a character panics in Rust; the slicing
    functions return \<open>None\<close> there.
  \<^item> \<open>Result\<close> is a sum with the error on the left; a possible panic is an option.

  The section at the end proves the facts about splitting, trimming, UTF-8 and number rendering
  that more than one component needs.
\<close>

type_synonym u8 = "8 word"
type_synonym u64 = "64 word"
type_synonym bytes = "u8 list"

named_theorems rust_defs \<open>definitions of the standard-library operations\<close>

definition u64_max :: nat where
  "u64_max = 18446744073709551615"

definition sat_add :: "nat \<Rightarrow> nat \<Rightarrow> nat" where
  "sat_add a b = min (a + b) u64_max"

definition sat_mul :: "nat \<Rightarrow> nat \<Rightarrow> nat" where
  "sat_mul a b = min (a * b) u64_max"

definition div_ceil :: "nat \<Rightarrow> nat \<Rightarrow> nat" where
  "div_ceil a b = (a + b - 1) div b"

subsection \<open>Bytes and text\<close>

definition as_bytes :: "string \<Rightarrow> bytes" where
  "as_bytes s = map (\<lambda>c. word_of_nat (of_char c)) s"

definition text_of :: "bytes \<Rightarrow> string" where
  "text_of b = map (\<lambda>x. char_of (unat x)) b"

definition ord_of :: "char \<Rightarrow> nat" where
  "ord_of c = of_char c"

definition continuation :: "char \<Rightarrow> bool" where
  "continuation c \<longleftrightarrow> 128 \<le> ord_of c \<and> ord_of c < 192"

text \<open>Well-formed UTF-8 byte sequences (Unicode table 3-7), what \<open>std::str::from_utf8\<close> accepts.\<close>

fun valid_utf8 :: "string \<Rightarrow> bool" where
  "valid_utf8 [] = True"
| "valid_utf8 (a # s) =
     (let x = ord_of a in
      if x < 128 then valid_utf8 s
      else if 194 \<le> x \<and> x \<le> 223 then
        (case s of b # t \<Rightarrow> continuation b \<and> valid_utf8 t | [] \<Rightarrow> False)
      else if 224 \<le> x \<and> x \<le> 239 then
        (case s of b # c # t \<Rightarrow>
            continuation b \<and> continuation c
            \<and> (x = 224 \<longrightarrow> 160 \<le> ord_of b) \<and> (x = 237 \<longrightarrow> ord_of b < 160) \<and> valid_utf8 t
         | _ \<Rightarrow> False)
      else if 240 \<le> x \<and> x \<le> 244 then
        (case s of b # c # d # t \<Rightarrow>
            continuation b \<and> continuation c \<and> continuation d
            \<and> (x = 240 \<longrightarrow> 144 \<le> ord_of b) \<and> (x = 244 \<longrightarrow> ord_of b < 144) \<and> valid_utf8 t
         | _ \<Rightarrow> False)
      else False)"

definition is_char_boundary :: "string \<Rightarrow> nat \<Rightarrow> bool" where
  "is_char_boundary s i \<longleftrightarrow>
     i = 0 \<or> i = length s \<or> (i < length s \<and> \<not> continuation (s ! i))"

text \<open>\<open>&s[i..]\<close> and \<open>&s[..i]\<close>; \<open>None\<close> is the panic.\<close>

definition slice_from :: "string \<Rightarrow> nat \<Rightarrow> string option" where
  "slice_from s i = (if is_char_boundary s i then Some (drop i s) else None)"

definition slice_to :: "string \<Rightarrow> nat \<Rightarrow> string option" where
  "slice_to s i = (if is_char_boundary s i then Some (take i s) else None)"

subsection \<open>String searching and splitting\<close>

definition starts_with :: "string \<Rightarrow> string \<Rightarrow> bool" where
  "starts_with p s \<longleftrightarrow> take (length p) s = p"

definition strip_prefix :: "string \<Rightarrow> string \<Rightarrow> string option" where
  "strip_prefix p s = (if starts_with p s then Some (drop (length p) s) else None)"

definition ends_with :: "string \<Rightarrow> string \<Rightarrow> bool" where
  "ends_with p s \<longleftrightarrow> starts_with (rev p) (rev s)"

definition strip_suffix :: "string \<Rightarrow> string \<Rightarrow> string option" where
  "strip_suffix p s = (if ends_with p s then Some (take (length s - length p) s) else None)"

text \<open>\<open>str::split(c)\<close>: always at least one piece.\<close>

fun split_on :: "char \<Rightarrow> string \<Rightarrow> string list" where
  "split_on c [] = [[]]"
| "split_on c (x # xs) =
     (if x = c then [] # split_on c xs
      else (case split_on c xs of [] \<Rightarrow> [[x]] | p # ps \<Rightarrow> (x # p) # ps))"

text \<open>\<open>str::splitn(n, c)\<close>: at most \<open>n\<close> pieces, the last one unsplit.\<close>

fun split_once :: "char \<Rightarrow> string \<Rightarrow> (string \<times> string) option" where
  "split_once c [] = None"
| "split_once c (x # xs) =
     (if x = c then Some ([], xs)
      else map_option (\<lambda>(a, b). (x # a, b)) (split_once c xs))"

fun splitn :: "nat \<Rightarrow> char \<Rightarrow> string \<Rightarrow> string list" where
  "splitn 0 c s = []"
| "splitn (Suc 0) c s = [s]"
| "splitn (Suc (Suc n)) c s =
     (case split_once c s of None \<Rightarrow> [s] | Some (a, b) \<Rightarrow> a # splitn (Suc n) c b)"

fun find_str :: "string \<Rightarrow> string \<Rightarrow> nat option" where
  "find_str p [] = (if p = [] then Some 0 else None)"
| "find_str p (x # xs) =
     (if starts_with p (x # xs) then Some 0 else map_option Suc (find_str p xs))"

definition contains_str :: "string \<Rightarrow> string \<Rightarrow> bool" where
  "contains_str p s \<longleftrightarrow> find_str p s \<noteq> None"

definition join_with :: "string \<Rightarrow> string list \<Rightarrow> string" where
  "join_with sep xs = (case xs of [] \<Rightarrow> [] | y # ys \<Rightarrow> y @ concat (map (\<lambda>z. sep @ z) ys))"

text \<open>
  \<open>str::lines\<close>: lines end with a line feed, with an optional carriage return before it; a last line
  without a line feed is kept as it is.
\<close>

definition text_lines :: "string \<Rightarrow> string list" where
  "text_lines t =
     (let ls = split_on (CHR 0x0A) t
      in map (\<lambda>l. case strip_suffix [CHR 0x0D] l of Some l' \<Rightarrow> l' | None \<Rightarrow> l) (butlast ls)
         @ (if last ls = [] then [] else [last ls]))"

text \<open>
  \<open>str::trim\<close>: the UTF-8 encodings of the characters with the Unicode property White_Space,
  removed from both ends.
\<close>

definition white_space :: "string list" where
  "white_space =
     map (\<lambda>n. [char_of (n::nat)]) [9, 10, 11, 12, 13, 32]
     @ map (map char_of)
         [[0xC2, 0x85], [0xC2, 0xA0], [0xE1, 0x9A, 0x80],
          [0xE2, 0x80, 0x80], [0xE2, 0x80, 0x81], [0xE2, 0x80, 0x82], [0xE2, 0x80, 0x83],
          [0xE2, 0x80, 0x84], [0xE2, 0x80, 0x85], [0xE2, 0x80, 0x86], [0xE2, 0x80, 0x87],
          [0xE2, 0x80, 0x88], [0xE2, 0x80, 0x89], [0xE2, 0x80, 0x8A], [0xE2, 0x80, 0xA8],
          [0xE2, 0x80, 0xA9], [0xE2, 0x80, 0xAF], [0xE2, 0x81, 0x9F], [0xE3, 0x80, 0x80 :: nat]]"

fun strip_any :: "string list \<Rightarrow> string \<Rightarrow> string option" where
  "strip_any [] s = None"
| "strip_any (w # ws) s =
     (if w \<noteq> [] \<and> starts_with w s then Some (drop (length w) s) else strip_any ws s)"

lemma strip_any_shorter: "strip_any ws s = Some t \<Longrightarrow> length t < length s"
proof (induction ws)
  case (Cons w ws)
  show ?case
  proof (cases "w \<noteq> [] \<and> starts_with w s")
    case True
    then have "length w \<le> length s"
      by (metis starts_with_def length_take min.cobounded1)
    with True Cons.prems show ?thesis by (cases w) auto
  next
    case False
    with Cons show ?thesis by auto
  qed
qed simp

function trim_start :: "string list \<Rightarrow> string \<Rightarrow> string" where
  "trim_start ws s = (case strip_any ws s of Some t \<Rightarrow> trim_start ws t | None \<Rightarrow> s)"
  by pat_completeness auto
termination
  by (relation "measure (\<lambda>(ws, s). length s)") (auto simp: strip_any_shorter)

declare trim_start.simps [simp del]

definition trim :: "string \<Rightarrow> string" where
  "trim s = rev (trim_start (map rev white_space) (rev (trim_start white_space s)))"

text \<open>\<open>str::split_whitespace\<close>: the pieces between runs of white space, none of them empty.\<close>

function white_pieces :: "string \<Rightarrow> string \<Rightarrow> string list" where
  "white_pieces piece s =
     (case strip_any white_space s of
        Some t \<Rightarrow> (if piece = [] then white_pieces [] t else piece # white_pieces [] t)
      | None \<Rightarrow> (case s of [] \<Rightarrow> (if piece = [] then [] else [piece]) | c # t \<Rightarrow> white_pieces (piece @ [c]) t))"
  by pat_completeness auto
termination
  by (relation "measure (\<lambda>(piece, s). length s)") (auto simp: strip_any_shorter)

declare white_pieces.simps [simp del]

definition split_whitespace :: "string \<Rightarrow> string list" where
  "split_whitespace s = white_pieces [] s"

subsection \<open>Numbers as text\<close>

definition digit_char :: "nat \<Rightarrow> char" where
  "digit_char d = char_of (48 + d)"

definition digit_value :: "char \<Rightarrow> nat option" where
  "digit_value c = (if 48 \<le> ord_of c \<and> ord_of c \<le> 57 then Some (ord_of c - 48) else None)"

fun parse_digits :: "nat \<Rightarrow> nat \<Rightarrow> string \<Rightarrow> nat option" where
  "parse_digits bound acc [] = Some acc"
| "parse_digits bound acc (c # cs) =
     (case digit_value c of
        None \<Rightarrow> None
      | Some d \<Rightarrow> (if acc * 10 + d \<le> bound then parse_digits bound (acc * 10 + d) cs else None))"

text \<open>
  \<open>str::parse\<close> for an unsigned type with maximum \<open>bound\<close>: an optional leading plus sign, at
  least one digit, nothing else, and no overflow.
\<close>

definition parse_unsigned :: "nat \<Rightarrow> string \<Rightarrow> nat option" where
  "parse_unsigned bound s =
     (case s of
        [] \<Rightarrow> None
      | c # cs \<Rightarrow>
          (if c = CHR ''+'' then (if cs = [] then None else parse_digits bound 0 cs)
           else parse_digits bound 0 s))"

definition parse_u64 :: "string \<Rightarrow> nat option" where
  "parse_u64 s = parse_unsigned u64_max s"

fun show_nat :: "nat \<Rightarrow> string" where
  "show_nat n = (if n < 10 then [digit_char n] else show_nat (n div 10) @ [digit_char (n mod 10)])"

declare show_nat.simps [simp del]

text \<open>\<open>{:0w}\<close>: left-padded with zeros to at least \<open>w\<close> characters.\<close>

definition zero_pad :: "nat \<Rightarrow> string \<Rightarrow> string" where
  "zero_pad w s = replicate (w - length s) (CHR ''0'') @ s"

subsection \<open>Little-endian bytes\<close>

fun to_le :: "nat \<Rightarrow> u64 \<Rightarrow> bytes" where
  "to_le 0 w = []"
| "to_le (Suc n) w = ucast w # to_le n (drop_bit 8 w)"

definition to_le_bytes :: "u64 \<Rightarrow> bytes" where
  "to_le_bytes w = to_le 8 w"

fun from_le_bytes :: "bytes \<Rightarrow> u64" where
  "from_le_bytes [] = 0"
| "from_le_bytes (b # bs) = ucast b OR push_bit 8 (from_le_bytes bs)"

section \<open>Shared facts\<close>

named_theorems str_iffs \<open>characterisations of the string operations by append\<close>

subsection \<open>Bytes and text\<close>

lemma ord_of_less [simp]: "ord_of c < 256"
  by (simp add: ord_of_def)

lemma text_of_as_bytes [simp]: "text_of (as_bytes s) = s"
  by (simp add: text_of_def as_bytes_def unat_of_nat comp_def)

lemma as_bytes_text_of [simp]: "as_bytes (text_of b) = b"
proof -
  have "of_char (char_of (unat x)) = unat x" for x :: u8
    using unsigned_less [of x, where ?'a = nat] by simp
  then show ?thesis by (simp add: text_of_def as_bytes_def comp_def)
qed

lemma length_as_bytes [simp]: "length (as_bytes s) = length s"
  by (simp add: as_bytes_def)

lemma length_text_of [simp]: "length (text_of b) = length b"
  by (simp add: text_of_def)

lemma as_bytes_append [simp]: "as_bytes (s @ t) = as_bytes s @ as_bytes t"
  by (simp add: as_bytes_def)

lemma as_bytes_inject [simp]: "as_bytes s = as_bytes t \<longleftrightarrow> s = t"
  by (metis text_of_as_bytes)

subsection \<open>Prefixes, suffixes and splitting\<close>

lemma starts_with_iff [str_iffs]: "starts_with p s \<longleftrightarrow> (\<exists>r. s = p @ r)"
  by (metis append_eq_conv_conj append_take_drop_id starts_with_def)

lemma strip_prefix_Some [str_iffs]: "strip_prefix p s = Some r \<longleftrightarrow> s = p @ r"
  by (auto simp: strip_prefix_def str_iffs)

lemma strip_prefix_append [simp]: "strip_prefix p (p @ r) = Some r"
  by (simp add: strip_prefix_Some)

lemma ends_with_iff [str_iffs]: "ends_with p s \<longleftrightarrow> (\<exists>r. s = r @ p)"
  by (metis ends_with_def rev_append rev_rev_ident starts_with_iff)

lemma strip_suffix_Some [str_iffs]: "strip_suffix p s = Some r \<longleftrightarrow> s = r @ p"
  by (auto simp: strip_suffix_def str_iffs)

lemma strip_suffix_None: "strip_suffix p s = None \<longleftrightarrow> \<not> ends_with p s"
  by (simp add: strip_suffix_def)

lemma split_once_Some [str_iffs]:
  "split_once c s = Some (a, b) \<longleftrightarrow> s = a @ c # b \<and> c \<notin> set a"
proof (induction s arbitrary: a)
  case (Cons x xs)
  show ?case
  proof (cases "x = c")
    case True
    then show ?thesis by (cases a) auto
  next
    case False
    with Cons show ?thesis by (cases a) auto
  qed
qed simp

lemma split_once_None: "split_once c s = None \<longleftrightarrow> c \<notin> set s"
  by (induction s) auto

lemma split_on_not_Nil [simp]: "split_on c s \<noteq> []"
  by (induction s) (auto split: list.splits)

lemma join_split_on: "join_with [c] (split_on c s) = s"
proof (induction s)
  case (Cons x xs)
  then show ?case
    by (cases "split_on c xs") (auto simp: join_with_def split: list.splits)
qed (simp add: join_with_def)

lemma split_on_pieces: "p \<in> set (split_on c s) \<Longrightarrow> c \<notin> set p"
proof (induction s arbitrary: p)
  case (Cons x xs)
  then show ?case
    by (cases "split_on c xs") (auto split: if_splits)
qed simp

lemma split_on_append:
  "c \<notin> set a \<Longrightarrow> split_on c (a @ c # b) = a # split_on c b"
  by (induction a) auto

lemma split_on_none: "c \<notin> set a \<Longrightarrow> split_on c a = [a]"
  by (induction a) auto

lemma split_on_join:
  assumes "ps \<noteq> []" and "\<And>p. p \<in> set ps \<Longrightarrow> c \<notin> set p"
  shows "split_on c (join_with [c] ps) = ps"
  using assms
proof (induction ps)
  case (Cons p ps)
  show ?case
  proof (cases ps)
    case Nil
    with Cons show ?thesis by (simp add: join_with_def split_on_none)
  next
    case (Cons q qs)
    then have "join_with [c] (p # ps) = p @ c # join_with [c] ps"
      by (simp add: join_with_def)
    with Cons Cons.prems \<open>ps = q # qs\<close> show ?thesis
      using Cons.IH by (simp add: split_on_append)
  qed
qed simp

lemma find_str_Some_starts:
  "find_str p s = Some i \<Longrightarrow> \<exists>r. s = take i s @ p @ r \<and> i \<le> length s"
proof (induction s arbitrary: i)
  case (Cons x xs)
  show ?case
  proof (cases "starts_with p (x # xs)")
    case True
    with Cons.prems show ?thesis by (auto simp: str_iffs)
  next
    case False
    with Cons.prems obtain j where "i = Suc j" "find_str p xs = Some j" by auto
    with Cons.IH [of j] show ?thesis by auto
  qed
qed (auto split: if_splits)

lemma find_str_append: "find_str p (a @ p @ b) \<noteq> None"
proof (induction a)
  case Nil
  have "starts_with p (p @ b)" by (auto simp: str_iffs)
  then show ?case by (cases "p @ b") auto
qed (auto simp: str_iffs)

lemma contains_str_iff [str_iffs]: "contains_str p s \<longleftrightarrow> (\<exists>a b. s = a @ p @ b)"
proof
  assume "contains_str p s"
  then obtain i where "find_str p s = Some i" by (auto simp: contains_str_def)
  then show "\<exists>a b. s = a @ p @ b" by (blast dest: find_str_Some_starts)
next
  assume "\<exists>a b. s = a @ p @ b"
  then show "contains_str p s" using find_str_append by (auto simp: contains_str_def)
qed

subsection \<open>UTF-8\<close>

lemma valid_utf8_ascii_Cons [simp]: "ord_of a < 128 \<Longrightarrow> valid_utf8 (a # s) = valid_utf8 s"
  by simp

lemma valid_utf8_ascii: "(\<And>c. c \<in> set s \<Longrightarrow> ord_of c < 128) \<Longrightarrow> valid_utf8 s"
  by (induction s) auto

lemma valid_utf8_cases [case_names nil one two three four]:
  assumes "valid_utf8 s"
  obtains "s = []"
  | a t where "s = a # t" "ord_of a < 128" "valid_utf8 t"
  | a b t where "s = a # b # t" "194 \<le> ord_of a" "ord_of a \<le> 223" "continuation b" "valid_utf8 t"
  | a b c t where "s = a # b # c # t" "224 \<le> ord_of a" "ord_of a \<le> 239"
      "continuation b" "continuation c" "valid_utf8 t"
      "ord_of a = 224 \<longrightarrow> 160 \<le> ord_of b" "ord_of a = 237 \<longrightarrow> ord_of b < 160"
  | a b c d t where "s = a # b # c # d # t" "240 \<le> ord_of a" "ord_of a \<le> 244"
      "continuation b" "continuation c" "continuation d" "valid_utf8 t"
      "ord_of a = 240 \<longrightarrow> 144 \<le> ord_of b" "ord_of a = 244 \<longrightarrow> ord_of b < 144"
proof (cases s)
  case (Cons a u)
  consider "ord_of a < 128" | "194 \<le> ord_of a" "ord_of a \<le> 223"
    | "224 \<le> ord_of a" "ord_of a \<le> 239" | "240 \<le> ord_of a" "ord_of a \<le> 244"
    using assms unfolding Cons by (simp add: Let_def not_less not_le split: if_splits)
  then show thesis
  proof cases
    case 1
    then show thesis using that(2) assms Cons by (simp add: Let_def)
  next
    case 2
    then show thesis using that(3) assms unfolding Cons
      by (cases u) (auto simp add: Let_def)
  next
    case 3
    with assms Cons obtain b c t where "u = b # c # t" by (auto simp: Let_def split: list.splits)
    with 3 show thesis using that(4) assms Cons by (simp add: Let_def)
  next
    case 4
    with assms Cons obtain b c d t where "u = b # c # d # t"
      by (auto simp: Let_def split: list.splits)
    with 4 show thesis using that(5) assms Cons by (simp add: Let_def)
  qed
qed

lemma valid_utf8_append_iff: "valid_utf8 s \<Longrightarrow> valid_utf8 (s @ t) = valid_utf8 t"
proof (induction s rule: length_induct)
  case (1 s)
  from "1.prems" show ?case
    by (cases s rule: valid_utf8_cases) (use "1.IH" in \<open>auto simp: Let_def\<close>)
qed

lemma valid_utf8_ascii_append:
  assumes "valid_utf8 (s @ c # t)" and "ord_of c < 128"
  shows "valid_utf8 s \<and> valid_utf8 t"
  using assms(1)
proof (induction s rule: length_induct)
  case (1 s)
  have nc: "\<not> continuation c" using assms(2) by (simp add: continuation_def)
  have IH: "valid_utf8 u \<and> valid_utf8 t" if "s = p @ u" "p \<noteq> []" "valid_utf8 (u @ c # t)" for p u
    using "1.IH" [rule_format, of u] that by simp
  from "1.prems" show ?case
  proof (cases rule: valid_utf8_cases)
    case (one a u)
    with nc assms(2) IH [of "[a]"] show ?thesis by (auto simp: Let_def Cons_eq_append_conv append_eq_Cons_conv)
  next
    case (two a b u)
    with nc assms(2) IH [of "[a, b]"] show ?thesis
      by (auto simp: Let_def Cons_eq_append_conv append_eq_Cons_conv)
  next
    case (three a b d u)
    with nc assms(2) IH [of "[a, b, d]"] show ?thesis
      by (auto simp: Let_def Cons_eq_append_conv append_eq_Cons_conv)
  next
    case (four a b d e u)
    with nc assms(2) IH [of "[a, b, d, e]"] show ?thesis
      by (auto simp: Let_def Cons_eq_append_conv append_eq_Cons_conv)
  qed simp
qed

lemma valid_utf8_hd: "valid_utf8 (c # s) \<Longrightarrow> \<not> continuation c"
  by (auto simp: Let_def continuation_def split: if_splits)

lemma boundary_after_ascii:
  assumes "valid_utf8 (s @ c # t)" and "ord_of c < 128"
  shows "slice_from (s @ c # t) (Suc (length s)) = Some t"
proof (cases t)
  case Nil
  then show ?thesis by (simp add: slice_from_def is_char_boundary_def)
next
  case (Cons d u)
  with valid_utf8_ascii_append [OF assms] have "\<not> continuation d"
    by (auto dest: valid_utf8_hd simp del: valid_utf8.simps)
  with Cons show ?thesis
    by (auto simp: slice_from_def is_char_boundary_def nth_append)
qed

subsection \<open>Numbers\<close>

lemma ord_of_digit [simp]: "d < 10 \<Longrightarrow> ord_of (digit_char d) = 48 + d"
  by (simp add: ord_of_def digit_char_def)

lemma digit_value_digit [simp]: "d < 10 \<Longrightarrow> digit_value (digit_char d) = Some d"
  by (simp add: digit_value_def)

lemma show_nat_small: "n < 10 \<Longrightarrow> show_nat n = [digit_char n]"
  by (subst show_nat.simps) simp

lemma show_nat_large: "10 \<le> n \<Longrightarrow> show_nat n = show_nat (n div 10) @ [digit_char (n mod 10)]"
  by (subst show_nat.simps) simp

lemma show_nat_induct [case_names small large]:
  assumes "\<And>n. n < 10 \<Longrightarrow> P n" and "\<And>n. 10 \<le> n \<Longrightarrow> P (n div 10) \<Longrightarrow> P n"
  shows "P (n::nat)"
proof (induction n rule: less_induct)
  case (less n)
  show ?case
  proof (cases "n < 10")
    case False
    then have "n div 10 < n" by simp
    with less False assms(2) [of n] show ?thesis by simp
  qed (rule assms(1))
qed

lemma show_nat_digits: "c \<in> set (show_nat n) \<Longrightarrow> 48 \<le> ord_of c \<and> ord_of c \<le> 57"
proof (induction n rule: show_nat_induct)
  case (small n)
  then show ?case by (simp add: show_nat_small)
next
  case (large n)
  then show ?case by (auto simp: show_nat_large)
qed

lemma show_nat_not_Nil [simp]: "show_nat n \<noteq> []"
  by (cases "n < 10") (simp_all add: show_nat_small show_nat_large)

lemma length_show_nat: "n < 10 ^ Suc k \<Longrightarrow> length (show_nat n) \<le> Suc k"
proof (induction n arbitrary: k rule: show_nat_induct)
  case (small n)
  then show ?case by (simp add: show_nat_small)
next
  case (large n)
  then obtain j where j: "k = Suc j" by (cases k) auto
  with large.prems have "n div 10 < 10 ^ Suc j" by auto
  then have "length (show_nat (n div 10)) \<le> Suc j" by (rule large.IH)
  with j large show ?case by (simp add: show_nat_large)
qed

lemma parse_digits_append:
  "parse_digits bound acc (s @ t) =
     (case parse_digits bound acc s of None \<Rightarrow> None | Some n \<Rightarrow> parse_digits bound n t)"
  by (induction bound acc s rule: parse_digits.induct) (auto split: option.splits)

lemma parse_digits_show_nat: "n \<le> bound \<Longrightarrow> parse_digits bound 0 (show_nat n) = Some n"
proof (induction n rule: show_nat_induct)
  case (small n)
  then show ?case by (simp add: show_nat_small)
next
  case (large n)
  then have "parse_digits bound 0 (show_nat (n div 10)) = Some (n div 10)"
    by (metis div_le_dividend le_trans large.IH)
  with large show ?case by (simp add: show_nat_large parse_digits_append)
qed

lemma parse_unsigned_show_nat [simp]: "n \<le> bound \<Longrightarrow> parse_unsigned bound (show_nat n) = Some n"
proof -
  assume n: "n \<le> bound"
  obtain c cs where s: "show_nat n = c # cs" by (cases "show_nat n") auto
  then have "48 \<le> ord_of c" using show_nat_digits [of c n] by simp
  then have "c \<noteq> CHR ''+''" by (auto simp: ord_of_def)
  with s parse_digits_show_nat [OF n] show ?thesis by (simp add: parse_unsigned_def)
qed

lemma show_nat_inject [simp]: "show_nat m = show_nat n \<longleftrightarrow> m = n"
proof
  assume eq: "show_nat m = show_nat n"
  have "parse_unsigned (max m n) (show_nat m) = Some m"
    by (rule parse_unsigned_show_nat) (rule max.cobounded1)
  moreover have "parse_unsigned (max m n) (show_nat n) = Some n"
    by (rule parse_unsigned_show_nat) (rule max.cobounded2)
  ultimately show "m = n" using eq by (metis option.inject)
qed simp

lemma parse_digits_bound: "acc \<le> bound \<Longrightarrow> parse_digits bound acc s = Some n \<Longrightarrow> n \<le> bound"
  by (induction bound acc s rule: parse_digits.induct) (auto split: option.splits if_splits)

lemma parse_unsigned_bound: "parse_unsigned bound s = Some n \<Longrightarrow> n \<le> bound"
  using parse_digits_bound [of 0 bound]
  by (auto simp: parse_unsigned_def simp del: parse_digits.simps split: list.splits if_splits)

declare valid_utf8.simps(2) [simp del]

subsection \<open>Little-endian bytes\<close>

lemma length_to_le [simp]: "length (to_le n w) = n"
  by (induction n arbitrary: w) auto

lemma length_to_le_bytes [simp]: "length (to_le_bytes w) = 8"
  by (simp add: to_le_bytes_def)

lemma from_le_to_le: "from_le_bytes (to_le n w) = take_bit (8 * n) w"
proof (induction n arbitrary: w)
  case (Suc n)
  show ?case
    by (rule bit_word_eqI)
      (auto simp: Suc bit_simps bit_or_iff not_less simp flip: le_diff_conv2 split: nat_diff_split_asm)
qed simp

lemma from_le_to_le_bytes [simp]: "from_le_bytes (to_le_bytes w) = w"
  by (simp add: to_le_bytes_def from_le_to_le take_bit_word_eq_self)

lemma to_le_from_le: "length bs \<le> 8 \<Longrightarrow> to_le (length bs) (from_le_bytes bs) = bs"
proof (induction bs)
  case (Cons b bs)
  have low: "ucast (ucast b OR push_bit 8 (from_le_bytes bs) :: u64) = b"
    by (rule bit_word_eqI) (auto simp: bit_simps)
  have high: "to_le (length bs) (drop_bit 8 (ucast b OR push_bit 8 (from_le_bytes bs)))
      = to_le (length bs) (from_le_bytes bs)"
  proof -
    have "drop_bit 8 (ucast b OR push_bit 8 (from_le_bytes bs) :: u64)
        = take_bit 56 (from_le_bytes bs)"
      by (rule bit_word_eqI) (auto simp: bit_simps dest: bit_imp_le_length)
    moreover have "to_le n (take_bit k v) = to_le n v" if "8 * n \<le> k" for n k v
      using that
    proof (induction n arbitrary: k v)
      case (Suc n)
      have "ucast (take_bit k v) = (ucast v :: u8)"
        using Suc.prems by (intro bit_word_eqI) (auto simp: bit_simps)
      moreover have "drop_bit 8 (take_bit k v) = take_bit (k - 8) (drop_bit 8 v)"
        by (simp add: drop_bit_take_bit)
      ultimately show ?case using Suc by simp
    qed simp
    ultimately show ?thesis using Cons.prems by simp
  qed
  show ?case using Cons low high by simp
qed simp

lemma to_le_bytes_from_le [simp]: "length bs = 8 \<Longrightarrow> to_le_bytes (from_le_bytes bs) = bs"
  using to_le_from_le [of bs] by (simp add: to_le_bytes_def)

subsection \<open>Trimming\<close>

lemma trim_start_none: "strip_any ws s = None \<Longrightarrow> trim_start ws s = s"
  by (simp add: trim_start.simps)

lemma strip_any_none: "(\<And>w. w \<in> set ws \<Longrightarrow> w \<noteq> [] \<Longrightarrow> \<not> starts_with w s) \<Longrightarrow> strip_any ws s = None"
  by (induction ws) auto

text \<open>Text whose first and last byte start and end no white-space character is left alone.\<close>

definition solid :: "char \<Rightarrow> bool" where
  "solid c \<longleftrightarrow> 33 \<le> ord_of c \<and> ord_of c < 128"

lemma white_space_ends:
  "w \<in> set white_space \<Longrightarrow> w \<noteq> [] \<and> \<not> solid (hd w) \<and> \<not> solid (last w)"
proof -
  have "list_all (\<lambda>w. w \<noteq> [] \<and> \<not> solid (hd w) \<and> \<not> solid (last w)) white_space"
    by code_simp
  then show "w \<in> set white_space \<Longrightarrow> w \<noteq> [] \<and> \<not> solid (hd w) \<and> \<not> solid (last w)"
    by (simp add: list_all_iff)
qed

lemma trim_solid:
  assumes "s = [] \<or> solid (hd s) \<and> solid (last s)"
  shows "trim s = s"
proof -
  have a: "strip_any white_space s = None"
  proof (intro strip_any_none)
    fix w assume "w \<in> set white_space" and "w \<noteq> []"
    with white_space_ends [of w] assms show "\<not> starts_with w s"
      by (auto simp: str_iffs hd_append)
  qed
  have b: "strip_any (map rev white_space) (rev s) = None"
  proof (intro strip_any_none)
    fix w assume "w \<in> set (map rev white_space)" and "w \<noteq> []"
    then obtain v where v: "v \<in> set white_space" "w = rev v" by auto
    with white_space_ends [of v] assms show "\<not> starts_with w (rev s)"
      by (auto simp: str_iffs rev_eq_append_conv)
  qed
  show ?thesis by (simp add: trim_def trim_start_none a b)
qed

lemma trim_all_solid: "(\<And>c. c \<in> set s \<Longrightarrow> solid c) \<Longrightarrow> trim s = s"
  by (rule trim_solid) (cases "s = []", auto)

text \<open>No white-space character's encoding starts or ends another's.\<close>

lemma white_space_prefix_free:
  assumes "v \<in> set white_space" and "w \<in> set white_space"
  shows "starts_with v w \<Longrightarrow> v = w" and "starts_with (rev v) (rev w) \<Longrightarrow> v = w"
proof -
  have "list_all (\<lambda>v. list_all (\<lambda>w. (starts_with v w \<longrightarrow> v = w)
      \<and> (starts_with (rev v) (rev w) \<longrightarrow> v = w)) white_space) white_space"
    by code_simp
  with assms show "starts_with v w \<Longrightarrow> v = w" and "starts_with (rev v) (rev w) \<Longrightarrow> v = w"
    by (auto simp: list_all_iff)
qed

lemma strip_any_prefix_free:
  assumes "w \<in> set ws" and "w \<noteq> []"
    and free: "\<And>v. v \<in> set ws \<Longrightarrow> starts_with v w \<Longrightarrow> v = w"
      "\<And>v. v \<in> set ws \<Longrightarrow> starts_with w v \<Longrightarrow> v = w"
  shows "strip_any ws (w @ s) = Some s"
  using assms
proof (induction ws)
  case (Cons v ws)
  show ?case
  proof (cases "v \<noteq> [] \<and> starts_with v (w @ s)")
    case True
    then have "starts_with v w \<or> starts_with w v"
      by (auto simp: str_iffs append_eq_append_conv2)
    with Cons.prems have "v = w" by auto
    with True show ?thesis by simp
  next
    case False
    with Cons.prems have "v \<noteq> w" by (auto simp: str_iffs)
    with False Cons show ?thesis by auto
  qed
qed simp

lemma trim_start_concat:
  assumes "set v \<subseteq> set ws"
    and free: "\<And>v w. v \<in> set ws \<Longrightarrow> w \<in> set ws \<Longrightarrow> w \<noteq> [] \<and> (starts_with v w \<longrightarrow> v = w)"
  shows "trim_start ws (concat v @ s) = trim_start ws s"
  using assms(1)
proof (induction v)
  case (Cons w v)
  then have "strip_any ws (w @ concat v @ s) = Some (concat v @ s)"
    using free by (intro strip_any_prefix_free) auto
  with Cons show ?case by (subst trim_start.simps) simp
qed simp

lemma trim_surrounded:
  assumes "set v \<subseteq> set white_space" and "set w \<subseteq> set white_space"
    and "s \<noteq> []" and "solid (hd s)" and "solid (last s)"
  shows "trim (concat v @ s @ concat w) = s"
proof -
  have "trim_start white_space (concat v @ (s @ concat w)) = trim_start white_space (s @ concat w)"
    using white_space_prefix_free white_space_ends by (intro trim_start_concat assms(1)) auto
  also have "\<dots> = s @ concat w"
  proof (intro trim_start_none strip_any_none)
    fix u assume "u \<in> set white_space"
    with assms white_space_ends [of u] show "\<not> starts_with u (s @ concat w)"
      by (auto simp: str_iffs) (metis hd_append2)
  qed
  finally have "trim_start white_space (concat v @ s @ concat w) = s @ concat w" by simp
  moreover have "rev (s @ concat w) = concat (map rev (rev w)) @ rev s"
    by (simp add: rev_concat rev_map)
  moreover have "trim_start (map rev white_space) (concat (map rev (rev w)) @ rev s)
      = trim_start (map rev white_space) (rev s)"
  proof (rule trim_start_concat)
    show "set (map rev (rev w)) \<subseteq> set (map rev white_space)" using assms(2) by auto
    show "w \<noteq> [] \<and> (starts_with v w \<longrightarrow> v = w)"
      if "v \<in> set (map rev white_space)" "w \<in> set (map rev white_space)" for v w
      using that white_space_prefix_free(2) white_space_ends by auto
  qed
  moreover have "trim_start (map rev white_space) (rev s) = rev s"
  proof (intro trim_start_none strip_any_none)
    fix u assume "u \<in> set (map rev white_space)" and "u \<noteq> []"
    then obtain z where "z \<in> set white_space" "u = rev z" by auto
    with assms white_space_ends [of z] show "\<not> starts_with u (rev s)"
      by (auto simp: str_iffs rev_eq_append_conv)
  qed
  ultimately show ?thesis by (simp add: trim_def)
qed

section \<open>The interface of an encoding\<close>

text \<open>
  What a component that writes a value and reads it back relies on: decoding an encoded value
  gives the value. Hex, the seal key and the sealed file's header each provide it.
\<close>

locale codec =
  fixes enc :: "'a \<Rightarrow> 'b"
    and dec :: "'b \<Rightarrow> 'e + 'a"
    and ok :: "'a \<Rightarrow> bool"
  assumes dec_enc: "ok x \<Longrightarrow> dec (enc x) = Inr x"
begin

lemma enc_inject: "ok x \<Longrightarrow> ok y \<Longrightarrow> enc x = enc y \<longleftrightarrow> x = y"
  by (metis dec_enc sum.inject(2))

lemma dec_enc_unique: "ok x \<Longrightarrow> dec (enc x) = Inr y \<Longrightarrow> y = x"
  by (simp add: dec_enc)

end

end
