(* ===== verification/Sealed_File.thy ===== *)
theory Sealed_File
  imports Hex
begin

text \<open>
  \<open>components/kallisto_crypto/src/sealed_file.rs\<close>: the on-bucket file format and its two
  operations. The AEAD, the JSON codec and the system generator are other packages: the
  operations take them as arguments. What the proofs rely on is named: \<open>aead_round_trip\<close> and
  \<open>aead_authentic\<close> (a ciphertext opens exactly when it is the sealing of what it opens to),
  \<open>json_round_trip\<close> (serialised contents parse back, provided that every borrowed string can
  be borrowed, i.e. was written without escapes).

  Shown here: the header codec in both directions, seal followed by open, what a successful open
  guarantees, and the refusal on every other branch.
\<close>

section \<open>The cryptographic library\<close>

text \<open>
  The part of \<open>aws_lc_rs::aead\<close> the code calls, for AES-256-GCM. \<open>open_in_place\<close> returns the
  caller's buffer afterwards (it is overwritten also on failure) and, on success, the length of the
  plaintext at its front.
\<close>

record aead_lib =
  new_key :: "bytes \<Rightarrow> bool"
  seal_append_tag :: "bytes \<Rightarrow> bytes \<Rightarrow> bytes \<Rightarrow> bytes \<Rightarrow> bytes option"
  open_in_place :: "bytes \<Rightarrow> bytes \<Rightarrow> bytes \<Rightarrow> bytes \<Rightarrow> bytes \<times> nat option"

definition NONCE_LEN :: nat where
  "NONCE_LEN = 12"

text \<open>Opening keeps the buffer's length and never reports more plaintext than it was given.\<close>

definition aead_lengths :: "aead_lib \<Rightarrow> bool" where
  "aead_lengths lib \<longleftrightarrow>
     (\<forall>k n a buf. length (fst (open_in_place lib k n a buf)) = length buf
        \<and> (\<forall>m. snd (open_in_place lib k n a buf) = Some m \<longrightarrow> m \<le> length buf))"

text \<open>What was sealed opens, with the same key, nonce and associated data, to what it was.\<close>

definition aead_round_trip :: "aead_lib \<Rightarrow> bool" where
  "aead_round_trip lib \<longleftrightarrow>
     (\<forall>k n a p c. length n = NONCE_LEN \<longrightarrow> seal_append_tag lib k n a p = Some c \<longrightarrow>
        snd (open_in_place lib k n a c) = Some (length p)
        \<and> take (length p) (fst (open_in_place lib k n a c)) = p)"

text \<open>The tag check: only the sealing of the plaintext under the same nonce and data opens.\<close>

definition aead_authentic :: "aead_lib \<Rightarrow> bool" where
  "aead_authentic lib \<longleftrightarrow>
     (\<forall>k n a c m. snd (open_in_place lib k n a c) = Some m \<longrightarrow>
        seal_append_tag lib k n a (take m (fst (open_in_place lib k n a c))) = Some c)"

text \<open>AES-256-GCM takes every 32-byte key, and seals every message of a size this code builds.\<close>

definition aead_total :: "aead_lib \<Rightarrow> bool" where
  "aead_total lib \<longleftrightarrow>
     (\<forall>k. length k = KEY_LEN \<longrightarrow> new_key lib k)
     \<and> (\<forall>k n a p. length k = KEY_LEN \<longrightarrow> length n = NONCE_LEN \<longrightarrow> seal_append_tag lib k n a p \<noteq> None)"

section \<open>Data\<close>

definition MAGIC :: bytes where
  "MAGIC = as_bytes ''KALLISTO''"

definition FORMAT_VERSION :: u8 where
  "FORMAT_VERSION = 1"

definition HEADER_LEN :: nat where
  "HEADER_LEN = length MAGIC + 1 + 8 + NONCE_LEN"

definition VERSION_AT :: nat where
  "VERSION_AT = length MAGIC + 1"

definition NONCE_AT :: nat where
  "NONCE_AT = VERSION_AT + 8"

datatype seal_error =
    BadMagic
  | UnsupportedFormat u8
  | Truncated nat nat \<comment> \<open>\<open>got\<close>, \<open>need\<close>\<close>
  | Rollback u64 u64 \<comment> \<open>\<open>held\<close>, \<open>offered\<close>\<close>
  | AuthFailed
  | MalformedBody
  | VersionMismatch u64 u64 \<comment> \<open>\<open>header\<close>, \<open>body\<close>\<close>
  | SealRandomUnavailable

record policy_rule =
  rule_path :: string
  capabilities :: "string list"

text \<open>A \<open>BTreeMap\<close> is the list of its entries in key order.\<close>

type_synonym 'v btree = "(string \<times> 'v) list"

definition btree_ok :: "'v btree \<Rightarrow> bool" where
  "btree_ok m \<longleftrightarrow> sorted (map fst m) \<and> distinct (map fst m)"

text \<open>\<open>'j\<close> is \<open>serde_json::Value\<close>.\<close>

record 'j contents =
  c_version :: u64
  c_secrets :: "'j btree"
  c_policies :: "policy_rule list btree"
  c_tokens :: "string list btree"
  c_token_key :: "string option"

text \<open>The borrowed body: a secret is the JSON text that stands in the file.\<close>

record view =
  v_version :: u64
  v_secrets :: "string btree"
  v_policies :: "policy_rule list btree"
  v_tokens :: "string list btree"
  v_token_key :: "string option"

record header =
  content_version :: u64
  nonce :: bytes

record opened =
  plaintext :: bytes
  opened_version :: u64

definition contents_debug :: "'j contents \<Rightarrow> string" where
  "contents_debug c =
     ''Contents { version: '' @ show_nat (unat (c_version c))
     @ '', secrets: <'' @ show_nat (length (c_secrets c)) @ '' REDACTED>''
     @ '', policies: <'' @ show_nat (length (c_policies c)) @ '' names>''
     @ '', tokens: <'' @ show_nat (length (c_tokens c)) @ '' entries>''
     @ '', token_key: \"<REDACTED>\" }''"

definition opened_debug :: "opened \<Rightarrow> string" where
  "opened_debug d =
     ''Opened { content_version: '' @ show_nat (unat (opened_version d))
     @ '', plaintext: <'' @ show_nat (length (plaintext d)) @ '' REDACTED> }''"

section \<open>Operations\<close>

definition header_parse :: "bytes \<Rightarrow> seal_error + header" where
  "header_parse bs =
     (if length bs < HEADER_LEN then Inl (Truncated (length bs) HEADER_LEN)
      else if take (length MAGIC) bs \<noteq> MAGIC then Inl BadMagic
      else
        (let got = bs ! length MAGIC in
         if got \<noteq> FORMAT_VERSION then Inl (UnsupportedFormat got)
         else Inr \<lparr>content_version =
                      from_le_bytes (take (NONCE_AT - VERSION_AT) (drop VERSION_AT bs)),
                    nonce = take (HEADER_LEN - NONCE_AT) (drop NONCE_AT bs)\<rparr>))"

definition header_write :: "u64 \<Rightarrow> bytes \<Rightarrow> bytes" where
  "header_write v n = MAGIC @ [FORMAT_VERSION] @ to_le_bytes v @ n"

definition peek_version :: "bytes \<Rightarrow> seal_error + u64" where
  "peek_version bs =
     (case header_parse bs of Inl e \<Rightarrow> Inl e | Inr h \<Rightarrow> Inr (content_version h))"

text \<open>\<open>aead\<close> builds the cipher from the key; the cipher is used through its key bytes.\<close>

definition aead :: "aead_lib \<Rightarrow> seal_key \<Rightarrow> seal_error + bytes" where
  "aead lib key = (if new_key lib (expose key) then Inr (expose key) else Inl AuthFailed)"

text \<open>
  \<open>to_vec\<close> is \<open>serde_json::to_vec\<close> and \<open>fill\<close> what the system generator put into the
  nonce, \<open>None\<close> when it failed.
\<close>

definition seal ::
  "aead_lib \<Rightarrow> ('j contents \<Rightarrow> bytes option) \<Rightarrow> bytes option \<Rightarrow> 'j contents \<Rightarrow> seal_key
     \<Rightarrow> seal_error + bytes" where
  "seal lib to_vec fill contents key =
     (case to_vec contents of
        None \<Rightarrow> Inl MalformedBody
      | Some body \<Rightarrow>
          (case fill of
             None \<Rightarrow> Inl SealRandomUnavailable
           | Some n \<Rightarrow>
               (let hdr = header_write (c_version contents) n in
                case aead lib key of
                  Inl e \<Rightarrow> Inl e
                | Inr k \<Rightarrow>
                    (case seal_append_tag lib k n hdr body of
                       None \<Rightarrow> Inl AuthFailed
                     | Some sealed \<Rightarrow> Inr (hdr @ sealed)))))"

text \<open>\<open>from_slice\<close> is \<open>serde_json::from_slice\<close> at the type \<open>View\<close>.\<close>

definition opened_view :: "(bytes \<Rightarrow> view option) \<Rightarrow> opened \<Rightarrow> seal_error + view" where
  "opened_view from_slice d =
     (case from_slice (plaintext d) of None \<Rightarrow> Inl MalformedBody | Some v \<Rightarrow> Inr v)"

definition open_body ::
  "aead_lib \<Rightarrow> (bytes \<Rightarrow> view option) \<Rightarrow> bytes \<Rightarrow> seal_key \<Rightarrow> header \<Rightarrow> seal_error + opened" where
  "open_body lib from_slice bs key h =
     (let in_out = drop HEADER_LEN bs;
          aad = header_write (content_version h) (nonce h)
      in case aead lib key of
           Inl e \<Rightarrow> Inl e
         | Inr k \<Rightarrow>
             (case open_in_place lib k (nonce h) aad in_out of
                (_, None) \<Rightarrow> Inl AuthFailed
              | (in_out, Some plain_len) \<Rightarrow>
                  (let d = \<lparr>plaintext = take plain_len in_out,
                            opened_version = content_version h\<rparr>
                   in case opened_view from_slice d of
                        Inl e \<Rightarrow> Inl e
                      | Inr v \<Rightarrow>
                          if v_version v \<noteq> content_version h
                          then Inl (VersionMismatch (content_version h) (v_version v))
                          else Inr d)))"

definition open_file ::
  "aead_lib \<Rightarrow> (bytes \<Rightarrow> view option) \<Rightarrow> bytes \<Rightarrow> seal_key \<Rightarrow> u64 option
     \<Rightarrow> seal_error + opened" where
  "open_file lib from_slice bs key held =
     (case header_parse bs of
        Inl e \<Rightarrow> Inl e
      | Inr h \<Rightarrow>
          (case held of
             Some v \<Rightarrow> if content_version h < v then Inl (Rollback v (content_version h))
                       else open_body lib from_slice bs key h
           | None \<Rightarrow> open_body lib from_slice bs key h))"

section \<open>The header codec\<close>

lemma sealed_file_offsets [simp]:
  "length MAGIC = 8" "HEADER_LEN = 29" "VERSION_AT = 9" "NONCE_AT = 17" "NONCE_LEN = 12"
  by (simp_all add: MAGIC_def HEADER_LEN_def VERSION_AT_def NONCE_AT_def NONCE_LEN_def)

lemma length_header_write [simp]: "length n = 12 \<Longrightarrow> length (header_write v n) = 29"
  by (simp add: header_write_def)

lemma header_parse_write:
  assumes "length n = 12"
  shows "header_parse (header_write v n @ rest) = Inr \<lparr>content_version = v, nonce = n\<rparr>"
proof -
  have "take 8 (drop 9 (header_write v n @ rest)) = to_le_bytes v"
    by (simp add: header_write_def)
  moreover have "take 12 (drop 17 (header_write v n @ rest)) = n"
    using assms by (simp add: header_write_def)
  moreover have "take 8 (header_write v n @ rest) = MAGIC"
    by (simp add: header_write_def)
  moreover have "(header_write v n @ rest) ! 8 = FORMAT_VERSION"
    by (simp add: header_write_def nth_append)
  ultimately show ?thesis using assms by (simp add: header_parse_def)
qed

text \<open>Only what \<open>header_write\<close> produces is accepted, and it is a prefix of the file.\<close>

lemma header_parse_accepts:
  assumes "header_parse bs = Inr h"
  shows "take 29 bs = header_write (content_version h) (nonce h)"
    and "length (nonce h) = 12" and "29 \<le> length bs"
proof -
  have len: "29 \<le> length bs" and magic: "take 8 bs = MAGIC" and fmt: "bs ! 8 = FORMAT_VERSION"
    and v: "content_version h = from_le_bytes (take 8 (drop 9 bs))"
    and n: "nonce h = take 12 (drop 17 bs)"
    using assms by (auto simp: header_parse_def Let_def split: if_splits)
  have "to_le_bytes (content_version h) = take 8 (drop 9 bs)"
    using len v by simp
  moreover have "take 29 bs = take 8 bs @ [bs ! 8] @ take 8 (drop 9 bs) @ take 12 (drop 17 bs)"
  proof -
    have "take 29 bs = take (8 + 1 + 8 + 12) bs" by simp
    also have "\<dots> = take 8 bs @ take 1 (drop 8 bs) @ take 8 (drop 9 bs) @ take 12 (drop 17 bs)"
      by (simp only: take_add append_assoc) simp
    also have "take 1 (drop 8 bs) = [bs ! 8]"
      using len by (simp add: take_Suc_conv_app_nth)
    finally show ?thesis .
  qed
  ultimately show "take 29 bs = header_write (content_version h) (nonce h)"
    using magic fmt n by (simp add: header_write_def)
  show "length (nonce h) = 12" and "29 \<le> length bs" using n len by simp_all
qed

interpretation header_codec: codec
  "\<lambda>h. header_write (content_version h) (nonce h)" header_parse "\<lambda>h. length (nonce h) = 12"
  using header_parse_write [where rest = "[]"] by unfold_locales simp

lemma peek_open_agree:
  "open_file lib from_slice bs key held = Inr d \<Longrightarrow> peek_version bs = Inr (opened_version d)"
  by (auto simp: open_file_def open_body_def peek_version_def Let_def
      split: sum.splits option.splits if_splits prod.splits)

text \<open>
  The header codec. Bytes are accepted as a header exactly when they begin with a header that
  \<open>Header::write\<close> produces; the parsed version and nonce are the written ones, whatever follows.
\<close>

theorem header_exact:
  "header_parse bs = Inr h \<longleftrightarrow>
     length (nonce h) = NONCE_LEN \<and>
     (\<exists>rest. bs = header_write (content_version h) (nonce h) @ rest)"
proof
  assume h: "header_parse bs = Inr h"
  have "bs = take 29 bs @ drop 29 bs" by simp
  then show "length (nonce h) = NONCE_LEN \<and>
     (\<exists>rest. bs = header_write (content_version h) (nonce h) @ rest)"
    using header_parse_accepts [OF h] by (metis sealed_file_offsets(5))
next
  assume "length (nonce h) = NONCE_LEN \<and>
     (\<exists>rest. bs = header_write (content_version h) (nonce h) @ rest)"
  then show "header_parse bs = Inr h" using header_parse_write by auto
qed

section \<open>Opening and sealing\<close>

text \<open>The body the writer serialised, as the reader sees it; \<open>raw\<close> renders a JSON value.\<close>

definition view_of :: "('j \<Rightarrow> string) \<Rightarrow> 'j contents \<Rightarrow> view" where
  "view_of raw c =
     \<lparr>v_version = c_version c, v_secrets = map (\<lambda>(p, j). (p, raw j)) (c_secrets c),
      v_policies = c_policies c, v_tokens = c_tokens c, v_token_key = c_token_key c\<rparr>"

text \<open>
  \<open>&'a str\<close> fields of \<open>View\<close> borrow from the input, which serde_json refuses for a string
  that was written with an escape.
\<close>

definition borrowable :: "string \<Rightarrow> bool" where
  "borrowable s \<longleftrightarrow> (\<forall>c \<in> set s. 32 \<le> ord_of c \<and> c \<noteq> CHR 34 \<and> c \<noteq> CHR 92)"

definition contents_borrowable :: "'j contents \<Rightarrow> bool" where
  "contents_borrowable c \<longleftrightarrow>
     (\<forall>p \<in> set (map fst (c_secrets c)). borrowable p)
     \<and> (case c_token_key c of None \<Rightarrow> True | Some k \<Rightarrow> borrowable k)"

definition json_round_trip ::
  "('j contents \<Rightarrow> bytes option) \<Rightarrow> (bytes \<Rightarrow> view option) \<Rightarrow> ('j \<Rightarrow> string) \<Rightarrow> bool" where
  "json_round_trip to_vec from_slice raw \<longleftrightarrow>
     (\<forall>c body. to_vec c = Some body \<longrightarrow> contents_borrowable c \<longrightarrow>
        from_slice body = Some (view_of raw c))"

lemma seal_Inr:
  assumes "seal lib to_vec fill c key = Inr file"
  obtains body n sealed where "to_vec c = Some body" "fill = Some n" "new_key lib (expose key)"
    "seal_append_tag lib (expose key) n (header_write (c_version c) n) body = Some sealed"
    "file = header_write (c_version c) n @ sealed"
  using assms by (auto simp: seal_def aead_def Let_def split: option.splits sum.splits if_splits)

lemma open_file_Inr:
  assumes "open_file lib from_slice bs key held = Inr d"
  obtains h buf m v where "header_parse bs = Inr h" "\<And>u. held = Some u \<Longrightarrow> u \<le> content_version h"
    "new_key lib (expose key)"
    "open_in_place lib (expose key) (nonce h) (header_write (content_version h) (nonce h))
       (drop HEADER_LEN bs) = (buf, Some m)"
    "d = \<lparr>plaintext = take m buf, opened_version = content_version h\<rparr>"
    "from_slice (take m buf) = Some v" "v_version v = content_version h"
  using assms
  by (auto simp: open_file_def open_body_def opened_view_def aead_def Let_def not_less
      split: option.splits sum.splits if_splits prod.splits)

lemma sealed_opens:
  assumes "aead_round_trip lib" and "json_round_trip to_vec from_slice raw"
    and "contents_borrowable c" and "\<And>n. fill = Some n \<Longrightarrow> length n = NONCE_LEN"
    and sealed: "seal lib to_vec fill c key = Inr file"
    and "\<And>v. held = Some v \<Longrightarrow> v \<le> c_version c"
  shows "\<exists>body. to_vec c = Some body
     \<and> open_file lib from_slice file key held = Inr \<lparr>plaintext = body, opened_version = c_version c\<rparr>
     \<and> opened_view from_slice \<lparr>plaintext = body, opened_version = c_version c\<rparr>
         = Inr (view_of raw c)"
proof -
  obtain body n ct where b: "to_vec c = Some body" and n: "fill = Some n"
    and k: "new_key lib (expose key)"
    and ct: "seal_append_tag lib (expose key) n (header_write (c_version c) n) body = Some ct"
    and written: "file = header_write (c_version c) n @ ct"
    using sealed by (rule seal_Inr)
  have len: "length n = 12" using assms(4) n by simp
  have view: "from_slice body = Some (view_of raw c)"
    using assms(2,3) b by (auto simp: json_round_trip_def)
  obtain buf where "open_in_place lib (expose key) n (header_write (c_version c) n) ct
      = (buf, Some (length body))" and "take (length body) buf = body"
    using assms(1) ct len by (metis aead_round_trip_def prod.collapse sealed_file_offsets(5))
  then have "open_body lib from_slice file key \<lparr>content_version = c_version c, nonce = n\<rparr>
      = Inr \<lparr>plaintext = body, opened_version = c_version c\<rparr>"
    using len k view by (simp add: open_body_def aead_def written opened_view_def view_of_def)
  then show ?thesis
    using len b view assms(6)
    by (auto simp: open_file_def written header_parse_write opened_view_def not_less[symmetric]
        split: option.splits)
qed

text \<open>
  C5. What \<open>seal\<close> writes, \<open>open\<close> returns: with the same key the opened body is the serialised
  contents and its view is the contents field by field, for every process that holds no newer
  version; one that does refuses the file as a rollback. The version is read from the file without
  the key.
\<close>

theorem seal_open_round_trip:
  assumes "aead_round_trip lib" and "json_round_trip to_vec from_slice raw"
    and "contents_borrowable c" and "\<And>n. fill = Some n \<Longrightarrow> length n = NONCE_LEN"
    and sealed: "seal lib to_vec fill c key = Inr file"
  shows "\<exists>body. to_vec c = Some body \<and> peek_version file = Inr (c_version c)
     \<and> open_file lib from_slice file key held =
         (case held of
            Some v \<Rightarrow> if c_version c < v then Inl (Rollback v (c_version c))
                      else Inr \<lparr>plaintext = body, opened_version = c_version c\<rparr>
          | None \<Rightarrow> Inr \<lparr>plaintext = body, opened_version = c_version c\<rparr>)
     \<and> opened_view from_slice \<lparr>plaintext = body, opened_version = c_version c\<rparr>
         = Inr (view_of raw c)"
proof -
  obtain n ct where n: "fill = Some n" "file = header_write (c_version c) n @ ct"
    using sealed by (rule seal_Inr)
  then have h: "header_parse file = Inr \<lparr>content_version = c_version c, nonce = n\<rparr>"
    using assms(4) by (simp add: header_parse_write)
  then have older: "open_file lib from_slice file key (Some v) = Inl (Rollback v (c_version c))" if "c_version c < v" for v
    using that by (simp add: open_file_def)
  show ?thesis
  proof (cases "\<exists>v. held = Some v \<and> c_version c < v")
    case True
    with older h sealed_opens [OF assms, of None] show ?thesis by (auto simp: peek_version_def)
  next
    case False
    then have "v \<le> c_version c" if "held = Some v" for v using that by (simp add: not_less)
    from sealed_opens [OF assms this] False h show ?thesis
      by (auto simp: peek_version_def split: option.splits)
  qed
qed

lemma open_authentic:
  assumes "aead_authentic lib" and opened: "open_file lib from_slice bs key held = Inr d"
  shows "(\<exists>n ct. length n = NONCE_LEN
       \<and> bs = header_write (opened_version d) n @ ct
       \<and> seal_append_tag lib (expose key) n (header_write (opened_version d) n) (plaintext d) = Some ct)
     \<and> (\<forall>v. held = Some v \<longrightarrow> v \<le> opened_version d)
     \<and> (\<exists>v. opened_view from_slice d = Inr v \<and> v_version v = opened_version d)"
proof -
  obtain h buf m v where h: "header_parse bs = Inr h"
    and held: "\<And>u. held = Some u \<Longrightarrow> u \<le> content_version h"
    and op: "open_in_place lib (expose key) (nonce h) (header_write (content_version h) (nonce h))
        (drop HEADER_LEN bs) = (buf, Some m)"
    and d: "d = \<lparr>plaintext = take m buf, opened_version = content_version h\<rparr>"
    and v: "from_slice (take m buf) = Some v" "v_version v = content_version h"
    using opened by (rule open_file_Inr) blast
  have "seal_append_tag lib (expose key) (nonce h) (header_write (content_version h) (nonce h))
      (take m buf) = Some (drop 29 bs)"
    using assms(1) op unfolding aead_authentic_def by (metis fst_conv snd_conv sealed_file_offsets(2))
  moreover have "bs = header_write (content_version h) (nonce h) @ drop 29 bs"
    using header_parse_accepts(1) [OF h] by (metis append_take_drop_id)
  ultimately show ?thesis
    using held d v header_parse_accepts(2) [OF h] by (auto simp: opened_view_def)
qed

text \<open>
  C6. A successful \<open>open\<close> is authenticated and no rollback: the file is the header of the
  reported version followed by the sealing, under this key and with that header as associated
  data, of the returned plaintext; the version is not older than the one held, and the body itself
  states the same version.
\<close>

theorem open_sound:
  assumes "aead_authentic lib" and opened: "open_file lib from_slice bs key held = Inr d"
  shows "(\<exists>n ct. length n = NONCE_LEN
       \<and> bs = header_write (opened_version d) n @ ct
       \<and> seal_append_tag lib (expose key) n (header_write (opened_version d) n) (plaintext d) = Some ct)
     \<and> (\<forall>v. held = Some v \<longrightarrow> v \<le> opened_version d)
     \<and> (\<exists>v. opened_view from_slice d = Inr v \<and> v_version v = opened_version d)"
  using assms by (rule open_authentic)

text \<open>
  The refusals of \<open>open\<close>, branch by branch: a file below 29 bytes, a wrong magic, a foreign
  format byte, and an older version than the one held are refused before any decryption, with the
  numbers the message prints; a failed tag check gives \<open>AuthFailed\<close> and nothing of the body.
\<close>

theorem open_refusals:
  "(length bs < HEADER_LEN \<longrightarrow>
      open_file lib from_slice bs key held = Inl (Truncated (length bs) HEADER_LEN))
   \<and> (HEADER_LEN \<le> length bs \<longrightarrow> take 8 bs \<noteq> MAGIC \<longrightarrow>
      open_file lib from_slice bs key held = Inl BadMagic)
   \<and> (HEADER_LEN \<le> length bs \<longrightarrow> take 8 bs = MAGIC \<longrightarrow> bs ! 8 \<noteq> FORMAT_VERSION \<longrightarrow>
      open_file lib from_slice bs key held = Inl (UnsupportedFormat (bs ! 8)))
   \<and> (\<forall>h v. header_parse bs = Inr h \<longrightarrow> held = Some v \<longrightarrow> content_version h < v \<longrightarrow>
      open_file lib from_slice bs key held = Inl (Rollback v (content_version h)))
   \<and> (\<forall>h. header_parse bs = Inr h \<longrightarrow> (\<forall>v. held = Some v \<longrightarrow> v \<le> content_version h) \<longrightarrow>
      snd (open_in_place lib (expose key) (nonce h)
             (header_write (content_version h) (nonce h)) (drop HEADER_LEN bs)) = None \<longrightarrow>
      open_file lib from_slice bs key held = Inl AuthFailed)"
  by (auto simp: open_file_def header_parse_def open_body_def aead_def not_less [symmetric]
      split: option.splits prod.splits)

section \<open>A concrete cipher for the witnesses\<close>

text \<open>
  A transparent AEAD that meets the named conditions: the ciphertext is the message followed by
  the key, nonce and associated data as its tag.
\<close>

definition clear_seal :: "bytes \<Rightarrow> bytes \<Rightarrow> bytes \<Rightarrow> bytes \<Rightarrow> bytes option" where
  "clear_seal k n a p = Some (p @ k @ n @ a)"

definition clear_open :: "bytes \<Rightarrow> bytes \<Rightarrow> bytes \<Rightarrow> bytes \<Rightarrow> bytes \<times> nat option" where
  "clear_open k n a c =
     (let m = length c - length (k @ n @ a) in
      (c, if length (k @ n @ a) \<le> length c \<and> drop m c = k @ n @ a then Some m else None))"

definition clear_aead :: aead_lib where
  "clear_aead = \<lparr>new_key = (\<lambda>k. length k = KEY_LEN), seal_append_tag = clear_seal,
                 open_in_place = clear_open\<rparr>"

lemma clear_aead_ok:
  "aead_lengths clear_aead" "aead_round_trip clear_aead" "aead_authentic clear_aead"
  "aead_total clear_aead"
  by (auto simp: clear_aead_def aead_lengths_def aead_round_trip_def aead_authentic_def
      aead_total_def clear_seal_def clear_open_def Let_def split: if_splits)
    (metis append_take_drop_id)

definition sample_contents :: "string contents" where
  "sample_contents = \<lparr>c_version = 7, c_secrets = [(''app/db'', ''1'')], c_policies = [],
     c_tokens = [], c_token_key = None\<rparr>"

text \<open>A codec of which only the sample contents are a value.\<close>

definition sample_to_vec :: "string contents \<Rightarrow> bytes option" where
  "sample_to_vec c = (if c = sample_contents then Some [1, 2, 3] else None)"

definition sample_from_slice :: "bytes \<Rightarrow> view option" where
  "sample_from_slice b = (if b = [1, 2, 3] then Some (view_of id sample_contents) else None)"

lemma sample_json: "json_round_trip sample_to_vec sample_from_slice id"
  by (simp add: json_round_trip_def sample_to_vec_def sample_from_slice_def)

definition sample_file :: bytes where
  "sample_file = header_write 7 (replicate 12 5) @ [1, 2, 3] @ replicate 32 9 @ replicate 12 5
     @ header_write 7 (replicate 12 5)"

lemma sample_sealed:
  "seal clear_aead sample_to_vec (Some (replicate 12 5)) sample_contents (SealKey (replicate 32 9))
     = Inr sample_file"
  by (simp add: seal_def sample_to_vec_def aead_def clear_aead_def clear_seal_def KEY_LEN_def
      sample_file_def sample_contents_def Let_def)

theorem seal_open_round_trip_witness:
  "\<exists>body. sample_to_vec sample_contents = Some body
     \<and> open_file clear_aead sample_from_slice sample_file (SealKey (replicate 32 9)) (Some 6)
         = Inr \<lparr>plaintext = body, opened_version = 7\<rparr>"
proof -
  have "contents_borrowable sample_contents"
    by (simp add: contents_borrowable_def sample_contents_def borrowable_def ord_of_def)
  moreover have "c_version sample_contents = 7" by (simp add: sample_contents_def)
  ultimately show ?thesis
    using seal_open_round_trip [OF clear_aead_ok(2) sample_json _ _ sample_sealed, of "Some 6"]
    by fastforce
qed

lemma sample_opens:
  "open_file clear_aead sample_from_slice sample_file (SealKey (replicate 32 9)) (Some 6)
     = Inr \<lparr>plaintext = [1, 2, 3], opened_version = 7\<rparr>"
  by (simp add: open_file_def sample_file_def header_parse_write open_body_def aead_def
      clear_aead_def clear_open_def KEY_LEN_def opened_view_def sample_from_slice_def view_of_def
      sample_contents_def)

theorem open_sound_witness:
  "\<exists>n ct. length n = NONCE_LEN \<and> sample_file = header_write 7 n @ ct"
  using open_sound [OF clear_aead_ok(3) sample_opens] by auto

theorem open_refusals_witness:
  "open_file clear_aead sample_from_slice [1, 2] (SealKey []) None = Inl (Truncated 2 29)
   \<and> open_file clear_aead sample_from_slice sample_file (SealKey (replicate 32 9)) (Some 8)
       = Inl (Rollback 8 7)"
proof -
  have "header_parse sample_file = Inr \<lparr>content_version = 7, nonce = replicate 12 5\<rparr>"
    by (simp add: sample_file_def header_parse_write)
  then show ?thesis
    using open_refusals [of "[1, 2]" clear_aead sample_from_slice "SealKey []" None]
      open_refusals [of sample_file clear_aead sample_from_slice "SealKey (replicate 32 9)" "Some 8"]
    by simp
qed

end
