(* ===== verification/Barrier.thy ===== *)
theory Barrier
  imports Sealed_File
begin

text \<open>
  \<open>components/kallisto_crypto/src/barrier.rs\<close> and \<open>hardening.rs\<close>: the in-memory half of the
  encryption barrier. The state is the barrier (its key and its nonce counter) and the worker's
  scratch buffer, both passed explicitly. Shown here: no nonce repeats within the life of a barrier
  (up to the 64-bit counter's range), a sealed secret opens to itself, and the scratch buffer is
  all zeroes after every call, whichever way the call ends.
\<close>

section \<open>hardening.rs\<close>

text \<open>The compilation target decides which of the system calls exist.\<close>

datatype platform = Linux | Other_Unix | Not_Unix

record hardening =
  core_dumps_disabled :: bool
  not_dumpable :: bool

definition hardening_complete :: "hardening \<Rightarrow> bool" where
  "hardening_complete h \<longleftrightarrow> core_dumps_disabled h \<and> not_dumpable h"

record locked_pages =
  addr :: nat
  len :: nat

definition locked_pages_debug :: "locked_pages \<Rightarrow> string" where
  "locked_pages_debug p = ''LockedPages { len: '' @ show_nat (len p) @ '' }''"

text \<open>\<open>setrlimit\<close> and \<open>prctl\<close> are the return values of the two calls.\<close>

definition harden_process :: "platform \<Rightarrow> int \<Rightarrow> int \<Rightarrow> hardening" where
  "harden_process plat setrlimit prctl =
     (case plat of
        Not_Unix \<Rightarrow> \<lparr>core_dumps_disabled = False, not_dumpable = False\<rparr>
      | Other_Unix \<Rightarrow> \<lparr>core_dumps_disabled = (setrlimit = 0), not_dumpable = False\<rparr>
      | Linux \<Rightarrow> \<lparr>core_dumps_disabled = (setrlimit = 0), not_dumpable = (prctl = 0)\<rparr>)"

text \<open>\<open>mlock\<close> gives the return value of the system call on an address and a length.\<close>

definition lock_pages :: "platform \<Rightarrow> (nat \<Rightarrow> nat \<Rightarrow> int) \<Rightarrow> nat \<Rightarrow> nat \<Rightarrow> locked_pages option" where
  "lock_pages plat mlock a n =
     (if plat = Not_Unix then None
      else if n = 0 then None
      else if mlock a n = 0 then Some \<lparr>addr = a, len = n\<rparr>
      else None)"

text \<open>Dropping the value: the arguments of the \<open>munlock\<close> call, if one is made.\<close>

definition unlock_pages :: "platform \<Rightarrow> locked_pages \<Rightarrow> (nat \<times> nat) option" where
  "unlock_pages plat p = (if plat = Not_Unix then None else Some (addr p, len p))"

section \<open>barrier.rs\<close>

record sealed =
  s_nonce :: bytes
  s_bytes :: bytes

definition sealed_debug :: "sealed \<Rightarrow> string" where
  "sealed_debug s = ''Sealed(<ENCRYPTED>)''"

definition ciphertext :: "sealed \<Rightarrow> bytes" where
  "ciphertext s = s_bytes s"

record barrier =
  b_key :: bytes
  b_nonce :: u64
  b_locked :: "locked_pages option"

definition MINIMUM_SCRATCH :: nat where
  "MINIMUM_SCRATCH = 1024"

text \<open>
  \<open>fill\<close> is the outcome of the generator, \<open>at\<close> and \<open>bytes_of\<close> where the box landed and how large a
  barrier is.
\<close>

definition barrier_new ::
  "aead_lib \<Rightarrow> platform \<Rightarrow> (nat \<Rightarrow> nat \<Rightarrow> int) \<Rightarrow> bytes option \<Rightarrow> nat \<Rightarrow> nat
     \<Rightarrow> seal_error + barrier" where
  "barrier_new lib plat mlock fill at bytes_of =
     (case key_random fill of
        Inl _ \<Rightarrow> Inl SealRandomUnavailable
      | Inr seed \<Rightarrow>
          (if \<not> new_key lib (expose seed) then Inl SealRandomUnavailable
           else Inr \<lparr>b_key = expose seed, b_nonce = 0, b_locked = lock_pages plat mlock at bytes_of\<rparr>))"

definition counter_nonce :: "u64 \<Rightarrow> bytes" where
  "counter_nonce c = to_le_bytes c @ replicate (NONCE_LEN - 8) 0"

text \<open>\<open>fetch_add\<close> wraps at the width of the counter; the counter is spent on failure too.\<close>

definition barrier_seal :: "aead_lib \<Rightarrow> barrier \<Rightarrow> bytes \<Rightarrow> barrier \<times> (seal_error + sealed)" where
  "barrier_seal lib b pt =
     (let n = counter_nonce (b_nonce b) in
      (b\<lparr>b_nonce := b_nonce b + 1\<rparr>,
       case seal_append_tag lib (b_key b) n [] pt of
         None \<Rightarrow> Inl AuthFailed
       | Some c \<Rightarrow> Inr \<lparr>s_nonce = n, s_bytes = c\<rparr>))"

text \<open>\<open>Vec::resize\<close> when growing, then \<open>copy_from_slice\<close> into the front.\<close>

definition scratch_load :: "bytes \<Rightarrow> bytes \<Rightarrow> bytes" where
  "scratch_load buffer bs =
     (let needed = length bs;
          grown = (if length buffer < needed
                   then buffer @ replicate (max needed MINIMUM_SCRATCH - length buffer) 0
                   else buffer)
      in bs @ drop needed grown)"

definition zeroize_front :: "nat \<Rightarrow> bytes \<Rightarrow> bytes" where
  "zeroize_front n buffer = replicate (min n (length buffer)) 0 @ drop n buffer"

text \<open>
  \<open>with_plaintext\<close>: the thread's scratch buffer afterwards, and the outcome. \<open>during\<close> is the
  buffer while the closure runs.
\<close>

definition during_plaintext :: "aead_lib \<Rightarrow> barrier \<Rightarrow> sealed \<Rightarrow> bytes \<Rightarrow> bytes \<times> nat option" where
  "during_plaintext lib b s scratch =
     (let needed = length (s_bytes s);
          buffer = scratch_load scratch (s_bytes s)
      in case open_in_place lib (b_key b) (s_nonce s) [] (take needed buffer) of
           (front, outcome) \<Rightarrow> (front @ drop needed buffer, outcome))"

definition with_plaintext ::
  "aead_lib \<Rightarrow> barrier \<Rightarrow> sealed \<Rightarrow> (string \<Rightarrow> 'r) \<Rightarrow> bytes \<Rightarrow> bytes \<times> (seal_error + 'r)" where
  "with_plaintext lib b s f scratch =
     (case during_plaintext lib b s scratch of
        (buffer, opened) \<Rightarrow>
          (zeroize_front (length (s_bytes s)) buffer,
           case opened of
             None \<Rightarrow> Inl AuthFailed
           | Some m \<Rightarrow>
               (let text = text_of (take m buffer) in
                if valid_utf8 text then Inr (f text) else Inl MalformedBody)))"

text \<open>\<open>borrowed\<close>: a closure of \<open>with_plaintext\<close> is running on this thread.\<close>

definition scratch_is_wiped :: "bool \<Rightarrow> bytes \<Rightarrow> bool" where
  "scratch_is_wiped borrowed buffer \<longleftrightarrow> \<not> borrowed \<and> list_all (\<lambda>x. x = 0) buffer"

section \<open>Sealing many secrets\<close>

text \<open>The refresh loop seals one secret after another; requests in between seal nothing.\<close>

fun seal_run :: "aead_lib \<Rightarrow> barrier \<Rightarrow> bytes list \<Rightarrow> barrier \<times> (seal_error + sealed) list" where
  "seal_run lib b [] = (b, [])"
| "seal_run lib b (p # ps) =
     (case barrier_seal lib b p of
        (b', r) \<Rightarrow> (case seal_run lib b' ps of (b'', rs) \<Rightarrow> (b'', r # rs)))"

lemma barrier_seal_state [simp]:
  "b_key (fst (barrier_seal lib b p)) = b_key b"
  "b_nonce (fst (barrier_seal lib b p)) = b_nonce b + 1"
  by (simp_all add: barrier_seal_def Let_def)

lemma barrier_seal_nonce:
  "snd (barrier_seal lib b p) = Inr s \<Longrightarrow> s_nonce s = counter_nonce (b_nonce b)"
  by (auto simp: barrier_seal_def Let_def split: option.splits)

lemma counter_nonce_inject [simp]: "counter_nonce a = counter_nonce b \<longleftrightarrow> a = b"
  by (metis append_same_eq counter_nonce_def from_le_to_le_bytes)

lemma length_counter_nonce [simp]: "length (counter_nonce c) = 12"
  by (simp add: counter_nonce_def)

lemma seal_run_length [simp]: "length (snd (seal_run lib b ps)) = length ps"
  by (induction ps arbitrary: b) (auto split: prod.splits, metis snd_conv)

lemma seal_run_nonce:
  assumes "i < length ps" and "snd (seal_run lib b ps) ! i = Inr s"
  shows "s_nonce s = counter_nonce (b_nonce b + word_of_nat i)"
  using assms
proof (induction ps arbitrary: b i)
  case (Cons p ps)
  obtain b' r where br: "barrier_seal lib b p = (b', r)" by fastforce
  obtain b'' rs where rest: "seal_run lib b' ps = (b'', rs)" by fastforce
  have b': "b_nonce b' = b_nonce b + 1" using br by (metis barrier_seal_state(2) fst_conv)
  show ?case
  proof (cases i)
    case 0
    with Cons.prems br rest show ?thesis
      using barrier_seal_nonce [of lib b p s] by simp
  next
    case (Suc j)
    with Cons.prems br rest have "s_nonce s = counter_nonce (b_nonce b' + word_of_nat j)"
      using Cons.IH [of j b'] by simp
    with b' Suc show ?thesis by (simp add: algebra_simps)
  qed
qed simp

text \<open>
  C13. No nonce repeats under one barrier key: of any sequence of at most 2^64 seals, successful or
  not, from any counter value, two different successes carry different nonces.
\<close>

theorem nonces_never_repeat:
  assumes "length ps \<le> 2 ^ 64"
    and "i < length ps" and "j < length ps" and "i \<noteq> j"
    and "snd (seal_run lib b ps) ! i = Inr s" and "snd (seal_run lib b ps) ! j = Inr t"
  shows "s_nonce s \<noteq> s_nonce t"
proof
  assume "s_nonce s = s_nonce t"
  then have "word_of_nat i = (word_of_nat j :: u64)"
    using assms(2,3,5,6) seal_run_nonce by (metis add_left_cancel counter_nonce_inject)
  then have "i mod 2 ^ 64 = j mod 2 ^ 64"
    by (simp add: word_of_nat_eq_iff take_bit_eq_mod)
  with assms(1-4) show False by simp
qed

theorem nonces_never_repeat_witness:
  "\<exists>s t. snd (seal_run clear_aead \<lparr>b_key = [7], b_nonce = 2 ^ 64 - 1, b_locked = None\<rparr> [[1], [1]])
       = [Inr s, Inr t] \<and> s_nonce s \<noteq> s_nonce t"
proof -
  let ?b = "\<lparr>b_key = [7], b_nonce = 2 ^ 64 - 1, b_locked = None\<rparr> :: barrier"
  obtain s t where st: "snd (seal_run clear_aead ?b [[1], [1]]) = [Inr s, Inr t]"
    by (auto simp: barrier_seal_def clear_aead_def clear_seal_def Let_def)
  then have "s_nonce s \<noteq> s_nonce t"
    using nonces_never_repeat [of "[[1], [1]]" 0 1 clear_aead ?b s t] by simp
  with st show ?thesis by blast
qed

section \<open>The scratch buffer\<close>

lemma take_scratch_load [simp]: "take (length bs) (scratch_load buffer bs) = bs"
  by (simp add: scratch_load_def Let_def)

lemma scratch_load_rest:
  assumes "list_all (\<lambda>x. x = 0) buffer"
  shows "list_all (\<lambda>x. x = 0) (drop (length bs) (scratch_load buffer bs))"
  using assms by (auto simp: scratch_load_def Let_def list_all_iff dest!: in_set_dropD)

lemma during_plaintext_length:
  "aead_lengths lib \<Longrightarrow>
     length (fst (during_plaintext lib b s scratch)) = length (scratch_load scratch (s_bytes s))"
  by (auto simp: during_plaintext_def Let_def aead_lengths_def split: prod.splits)
    (metis add_diff_inverse_nat fst_conv length_append length_drop length_take min.cobounded2
      min.strict_order_iff not_less take_scratch_load)

lemma during_plaintext_rest:
  assumes "aead_lengths lib"
  shows "drop (length (s_bytes s)) (fst (during_plaintext lib b s scratch))
    = drop (length (s_bytes s)) (scratch_load scratch (s_bytes s))"
proof -
  obtain front r where
    op: "open_in_place lib (b_key b) (s_nonce s) [] (s_bytes s) = (front, r)" by fastforce
  then have "length front = length (s_bytes s)"
    using assms by (metis aead_lengths_def fst_conv)
  then show ?thesis by (simp add: during_plaintext_def op)
qed

lemma zeroize_front_wiped:
  "list_all (\<lambda>x. x = 0) (drop n buffer) \<Longrightarrow> list_all (\<lambda>x. x = 0) (zeroize_front n buffer)"
  by (auto simp: zeroize_front_def list_all_iff)

lemma with_plaintext_wipes:
  assumes "aead_lengths lib" and "scratch_is_wiped False scratch"
  shows "scratch_is_wiped False (fst (with_plaintext lib b s f scratch))"
proof -
  have "list_all (\<lambda>x. x = 0) (drop (length (s_bytes s)) (fst (during_plaintext lib b s scratch)))"
    using assms scratch_load_rest by (simp add: during_plaintext_rest scratch_is_wiped_def)
  then show ?thesis
    by (auto simp: with_plaintext_def scratch_is_wiped_def intro: zeroize_front_wiped
        split: prod.splits)
qed

text \<open>
  C14. The scratch buffer is wiped after every use. Whatever the sealed bytes, also when the tag
  check fails, when the plaintext is not text, and when the buffer had to grow, a buffer that held
  only zeroes before a call of \<open>with_plaintext\<close> holds only zeroes after it, and never shrinks.
\<close>

theorem scratch_wiped:
  assumes "aead_lengths lib" and "scratch_is_wiped False scratch"
  shows "scratch_is_wiped False (fst (with_plaintext lib b s f scratch))
    \<and> length scratch \<le> length (fst (with_plaintext lib b s f scratch))"
proof
  show "scratch_is_wiped False (fst (with_plaintext lib b s f scratch))"
    using assms by (rule with_plaintext_wipes)
  obtain buffer r where d: "during_plaintext lib b s scratch = (buffer, r)" by fastforce
  then have "length buffer = length (scratch_load scratch (s_bytes s))"
    using during_plaintext_length [OF assms(1)] by (metis fst_conv)
  then have "length scratch \<le> length buffer" and "length (s_bytes s) \<le> length buffer"
    by (auto simp: scratch_load_def Let_def)
  then show "length scratch \<le> length (fst (with_plaintext lib b s f scratch))"
    by (simp add: with_plaintext_def d zeroize_front_def)
qed

lemma with_plaintext_seal:
  assumes "aead_round_trip lib" and "valid_utf8 text"
    and sealed: "snd (barrier_seal lib b (as_bytes text)) = Inr s" and key: "b_key b' = b_key b"
  shows "snd (with_plaintext lib b' s f scratch) = Inr (f text)"
proof -
  have c: "seal_append_tag lib (b_key b) (s_nonce s) [] (as_bytes text) = Some (s_bytes s)"
    and n: "length (s_nonce s) = NONCE_LEN"
    using sealed by (auto simp: barrier_seal_def Let_def split: option.splits)
  obtain front where "open_in_place lib (b_key b) (s_nonce s) [] (s_bytes s)
      = (front, Some (length text))" and front: "take (length text) front = as_bytes text"
    using assms(1) c n by (metis aead_round_trip_def length_as_bytes prod.collapse)
  moreover have "length text \<le> length front"
    using front by (metis length_as_bytes length_take min.cobounded1)
  ultimately show ?thesis
    using assms(2) key by (simp add: with_plaintext_def during_plaintext_def)
qed

text \<open>
  A secret sealed by a barrier opens, under any later state of the same barrier and with any
  content of the worker's buffer, to exactly the text that was sealed.
\<close>

theorem barrier_round_trip:
  assumes "aead_round_trip lib" and "valid_utf8 text"
    and "snd (barrier_seal lib b (as_bytes text)) = Inr s"
    and "b' = fst (seal_run lib b later)"
  shows "snd (with_plaintext lib b' s f scratch) = Inr (f text)"
proof -
  have "b_key (fst (seal_run lib b later)) = b_key b"
    by (induction later arbitrary: b) (auto split: prod.splits, metis barrier_seal_state(1) fst_conv)
  then show ?thesis using with_plaintext_seal assms by blast
qed

definition sample_barrier :: barrier where
  "sample_barrier = \<lparr>b_key = [7], b_nonce = 0, b_locked = None\<rparr>"

theorem scratch_wiped_witness:
  "scratch_is_wiped False
     (fst (with_plaintext clear_aead sample_barrier \<lparr>s_nonce = [], s_bytes = [9, 9]\<rparr> id [0, 0]))"
  using scratch_wiped [OF clear_aead_ok(1), of "[0, 0]" sample_barrier
      "\<lparr>s_nonce = [], s_bytes = [9, 9]\<rparr>" id]
  by (simp add: scratch_is_wiped_def)

theorem barrier_round_trip_witness:
  "\<exists>s. snd (barrier_seal clear_aead sample_barrier (as_bytes ''ab'')) = Inr s
     \<and> snd (with_plaintext clear_aead (fst (seal_run clear_aead sample_barrier [[1], [2]])) s id [3])
        = Inr ''ab''"
proof -
  obtain s where s: "snd (barrier_seal clear_aead sample_barrier (as_bytes ''ab'')) = Inr s"
    by (auto simp: barrier_seal_def clear_aead_def clear_seal_def Let_def)
  have "valid_utf8 ''ab''" by (simp add: ord_of_def)
  from barrier_round_trip [OF clear_aead_ok(2) this s refl, of "[[1], [2]]" id "[3]"]
  show ?thesis using s by (metis id_apply)
qed

end
