(* ===== verification/Policy_Matcher.thy ===== *)
theory Policy_Matcher
  imports Sealed_File
begin

text \<open>
  \<open>components/kallisto_policy/src/matcher.rs\<close>: policy path patterns and rule sets. A candidate is
  sliced at a computed byte offset, which panics when the offset is inside a character, so matching
  returns an option (\<open>None\<close> is the panic) and so does the decision of a rule set.

  The reference semantics \<open>covers\<close> describes a pattern by the text it stands for; the main lemma
  \<open>pattern_matches_covers\<close> shows that on valid text the offset arithmetic of \<open>matches\<close> decides
  exactly that and never panics. On top of it: deny takes precedence over every grant, whatever the
  order of the rules, and what no rule mentions is refused.
\<close>

section \<open>Capabilities, rules and patterns\<close>

datatype capability = Read | List

datatype segment = Literal string | Any_Segment

record pattern =
  segments :: "segment list"
  glob :: "string option"

record compiled_rule =
  rule_pattern :: pattern
  rule_read :: bool
  rule_list :: bool
  rule_deny :: bool

definition segment_of :: "string \<Rightarrow> segment" where
  "segment_of s = (if s = ''+'' then Any_Segment else Literal s)"

definition pattern_compile :: "string \<Rightarrow> pattern" where
  "pattern_compile path =
     (let (body, globbed) =
            (case strip_suffix ''*'' path of Some rest \<Rightarrow> (rest, True) | None \<Rightarrow> (path, False));
          segs = map segment_of (split_on (CHR ''/'') body)
      in if globbed
         then \<lparr>segments = butlast segs,
               glob = Some (case last segs of Literal text \<Rightarrow> text | Any_Segment \<Rightarrow> [])\<rparr>
         else \<lparr>segments = segs, glob = None\<rparr>)"

fun compile_capabilities :: "string list \<Rightarrow> compiled_rule \<Rightarrow> compiled_rule" where
  "compile_capabilities [] r = r"
| "compile_capabilities (c # cs) r =
     compile_capabilities cs
       (if c = ''read'' then r\<lparr>rule_read := True\<rparr>
        else if c = ''list'' then r\<lparr>rule_list := True\<rparr>
        else if c = ''deny'' then r\<lparr>rule_deny := True\<rparr>
        else r)"

definition compile_rule :: "policy_rule \<Rightarrow> compiled_rule" where
  "compile_rule rule =
     compile_capabilities (capabilities rule)
       \<lparr>rule_pattern = pattern_compile (rule_path rule),
        rule_read = False, rule_list = False, rule_deny = False\<rparr>"

definition grants :: "compiled_rule \<Rightarrow> capability \<Rightarrow> bool" where
  "grants r cap = (case cap of Read \<Rightarrow> rule_read r | List \<Rightarrow> rule_list r)"

text \<open>The loop over the zipped segments: the bytes consumed, or \<open>None\<close> at a mismatch.\<close>

fun match_segments :: "segment list \<Rightarrow> string list \<Rightarrow> nat \<Rightarrow> nat option" where
  "match_segments (s # ss) (p # ps) consumed =
     (case s of
        Literal text \<Rightarrow> if text \<noteq> p then None else match_segments ss ps (consumed + (length p + 1))
      | Any_Segment \<Rightarrow> match_segments ss ps (consumed + (length p + 1)))"
| "match_segments _ _ consumed = Some consumed"

definition pattern_matches :: "pattern \<Rightarrow> string \<Rightarrow> bool option" where
  "pattern_matches p candidate =
     (let parts = split_on (CHR ''/'') candidate in
      if length parts < length (segments p) then Some False
      else
        (case match_segments (segments p) parts 0 of
           None \<Rightarrow> Some False
         | Some consumed \<Rightarrow>
             (case glob p of
                None \<Rightarrow> Some (length parts = length (segments p))
              | Some pre \<Rightarrow>
                  if length parts = length (segments p) then Some False
                  else map_option (starts_with pre) (slice_from candidate consumed))))"

type_synonym rule_set = "compiled_rule list"

definition from_rules :: "policy_rule list \<Rightarrow> rule_set" where
  "from_rules rules = map compile_rule rules"

fun allows_loop :: "rule_set \<Rightarrow> bool \<Rightarrow> string \<Rightarrow> capability \<Rightarrow> bool option" where
  "allows_loop [] granted path cap = Some granted"
| "allows_loop (r # rs) granted path cap =
     (case pattern_matches (rule_pattern r) path of
        None \<Rightarrow> None
      | Some False \<Rightarrow> allows_loop rs granted path cap
      | Some True \<Rightarrow>
          if rule_deny r then Some False
          else allows_loop rs (granted \<or> grants r cap) path cap)"

definition allows :: "rule_set \<Rightarrow> string \<Rightarrow> capability \<Rightarrow> bool option" where
  "allows rules path cap = allows_loop rules False path cap"

section \<open>What a pattern stands for\<close>

fun segment_ok :: "segment \<Rightarrow> string \<Rightarrow> bool" where
  "segment_ok (Literal t) p = (t = p)"
| "segment_ok Any_Segment p = True"

text \<open>
  Without a glob: as many segments as the pattern, each one agreeing. With a glob: the agreeing
  segments, each followed by its slash, then the partial text, then anything.
\<close>

definition covers :: "pattern \<Rightarrow> string \<Rightarrow> bool" where
  "covers p s \<longleftrightarrow>
     (case glob p of
        None \<Rightarrow> list_all2 segment_ok (segments p) (split_on (CHR ''/'') s)
      | Some pre \<Rightarrow>
          (\<exists>ps rest. list_all2 segment_ok (segments p) ps \<and> (\<forall>q \<in> set ps. CHR ''/'' \<notin> set q)
             \<and> s = concat (map (\<lambda>q. q @ ''/'') ps) @ pre @ rest))"

lemma match_segments_eq:
  "length ss \<le> length ps \<Longrightarrow>
     match_segments ss ps n =
       (if list_all2 segment_ok ss (take (length ss) ps)
        then Some (n + length (concat (map (\<lambda>q. q @ ''/'') (take (length ss) ps)))) else None)"
  by (induction ss ps n rule: match_segments.induct) (auto split: segment.splits)

lemma join_with_append:
  "qs \<noteq> [] \<Longrightarrow> join_with [c] (ps @ qs) = concat (map (\<lambda>q. q @ [c]) ps) @ join_with [c] qs"
proof (induction ps)
  case (Cons p ps)
  then show ?case by (cases "ps @ qs") (auto simp: join_with_def)
qed simp

lemma slice_after_segments:
  assumes "valid_utf8 s" and "s = concat (map (\<lambda>q. q @ ''/'') ps) @ t"
  shows "slice_from s (length (concat (map (\<lambda>q. q @ ''/'') ps))) = Some t"
proof (cases ps rule: rev_cases)
  case Nil
  with assms show ?thesis by (simp add: slice_from_def is_char_boundary_def)
next
  case (snoc qs q)
  let ?u = "concat (map (\<lambda>q. q @ ''/'') qs) @ q"
  have "s = ?u @ CHR ''/'' # t" and "length (concat (map (\<lambda>q. q @ ''/'') ps)) = Suc (length ?u)"
    using snoc assms(2) by simp_all
  then show ?thesis using boundary_after_ascii [of ?u "CHR ''/''" t] assms(1)
    by (simp add: ord_of_def)
qed

lemma split_on_segments:
  assumes "\<forall>q \<in> set ps. c \<notin> set q"
  shows "split_on c (concat (map (\<lambda>q. q @ [c]) ps) @ t) = ps @ split_on c t"
  using assms by (induction ps) (auto simp: split_on_append)

lemma covers_glob:
  assumes "glob p = Some pre"
  shows "covers p s \<longleftrightarrow>
    (let parts = split_on (CHR ''/'') s; n = length (segments p) in
       n < length parts \<and> list_all2 segment_ok (segments p) (take n parts)
       \<and> starts_with pre (join_with ''/'' (drop n parts)))"
proof
  assume "covers p s"
  then obtain ps rest where ps: "list_all2 segment_ok (segments p) ps"
    "\<forall>q \<in> set ps. CHR ''/'' \<notin> set q" and s: "s = concat (map (\<lambda>q. q @ ''/'') ps) @ pre @ rest"
    using assms by (auto simp: covers_def)
  have "split_on (CHR ''/'') s = ps @ split_on (CHR ''/'') (pre @ rest)"
    unfolding s by (rule split_on_segments [OF ps(2)])
  then show "let parts = split_on (CHR ''/'') s; n = length (segments p) in
       n < length parts \<and> list_all2 segment_ok (segments p) (take n parts)
       \<and> starts_with pre (join_with ''/'' (drop n parts))"
    using ps(1) list_all2_lengthD [OF ps(1)]
    by (auto simp: join_split_on str_iffs Let_def)
next
  let ?parts = "split_on (CHR ''/'') s" and ?n = "length (segments p)"
  assume "let parts = split_on (CHR ''/'') s; n = length (segments p) in
       n < length parts \<and> list_all2 segment_ok (segments p) (take n parts)
       \<and> starts_with pre (join_with ''/'' (drop n parts))"
  then have n: "?n < length ?parts" and ok: "list_all2 segment_ok (segments p) (take ?n ?parts)"
    and pre: "starts_with pre (join_with ''/'' (drop ?n ?parts))" by (auto simp: Let_def)
  obtain rest where rest: "join_with ''/'' (drop ?n ?parts) = pre @ rest"
    using pre by (auto simp: str_iffs)
  have "s = join_with ''/'' (take ?n ?parts @ drop ?n ?parts)" by (simp add: join_split_on)
  also have "\<dots> = concat (map (\<lambda>q. q @ ''/'') (take ?n ?parts)) @ pre @ rest"
    using n by (simp only: join_with_append drop_eq_Nil not_le rest)
  finally show "covers p s"
    using assms ok split_on_pieces [of _ "CHR ''/''" s]
    by (auto simp: covers_def intro!: exI [of _ "take ?n ?parts"] dest: in_set_takeD)
qed

lemma pattern_matches_covers:
  assumes "valid_utf8 s"
  shows "pattern_matches p s = Some (covers p s)"
proof -
  let ?parts = "split_on (CHR ''/'') s" and ?n = "length (segments p)"
  let ?pre = "concat (map (\<lambda>q. q @ ''/'') (take ?n ?parts))"
  have slice: "slice_from s (length ?pre) = Some (join_with ''/'' (drop ?n ?parts))"
    if "?n < length ?parts"
  proof (rule slice_after_segments [OF assms])
    have "s = join_with ''/'' (take ?n ?parts @ drop ?n ?parts)" by (simp add: join_split_on)
    also have "\<dots> = ?pre @ join_with ''/'' (drop ?n ?parts)"
      using that by (simp only: join_with_append drop_eq_Nil not_le)
    finally show "s = ?pre @ join_with ''/'' (drop ?n ?parts)" .
  qed
  show ?thesis
  proof (cases "glob p")
    case None
    then show ?thesis
      by (cases "length ?parts = ?n")
        (auto simp: pattern_matches_def covers_def match_segments_eq Let_def
          dest: list_all2_lengthD)
  next
    case (Some pre)
    then show ?thesis
      using slice
      by (auto simp: pattern_matches_def covers_glob match_segments_eq Let_def)
  qed
qed

text \<open>
  C18. Pattern matching is exact and cannot panic: on every valid string, the offset arithmetic of
  \<open>Pattern::matches\<close> returns, and returns true precisely when the string is one the pattern stands
  for, multi-byte characters included.
\<close>

theorem matches_exact:
  "valid_utf8 s \<Longrightarrow> pattern_matches (pattern_compile path) s = Some (covers (pattern_compile path) s)"
  by (rule pattern_matches_covers)

theorem matches_exact_witness:
  "pattern_matches (pattern_compile ''secret/+/app*'') ''secret/data/app/db'' = Some True"
proof -
  have "valid_utf8 ''secret/data/app/db''" by (simp add: ord_of_def)
  from matches_exact [OF this, of "''secret/+/app*''"]
  show ?thesis
    by (simp add: pattern_compile_def strip_suffix_def ends_with_def starts_with_def
        segment_of_def covers_glob Let_def join_with_def)
qed

lemma split_on_snoc: "split_on c (s @ [c]) = split_on c s @ [[]]"
  by (induction s) (auto split: list.splits)

lemma concat_split_on: "concat (map (\<lambda>q. q @ [c]) (split_on c s)) = s @ [c]"
  by (induction s) (auto split: list.splits)

section \<open>Patterns as operators write them\<close>

lemma plain_segments: 
  "list_all2 segment_ok (map segment_of ps) qs \<longleftrightarrow>
     list_all2 (\<lambda>p q. p = ''+'' \<or> p = q) ps qs"
  by (auto simp: list_all2_conv_all_nth segment_of_def)

lemma list_all2_wild: "x \<notin> set ps \<Longrightarrow> list_all2 (\<lambda>p q. p = x \<or> p = q) ps qs \<longleftrightarrow> qs = ps"
  by (induction ps arbitrary: qs) (auto simp: list_all2_Cons1)

lemma compile_plain:
  "\<not> ends_with ''*'' path \<Longrightarrow>
     pattern_compile path = \<lparr>segments = map segment_of (split_on (CHR ''/'') path), glob = None\<rparr>"
  by (simp add: pattern_compile_def strip_suffix_def)

lemma compile_glob:
  "pattern_compile (path @ ''*'') =
     \<lparr>segments = butlast (map segment_of (split_on (CHR ''/'') path)),
      glob = Some (if last (split_on (CHR ''/'') path) = ''+'' then []
                   else last (split_on (CHR ''/'') path))\<rparr>"
proof -
  have "strip_suffix ''*'' (path @ ''*'') = Some path" by (simp add: strip_suffix_Some)
  then show ?thesis by (simp add: pattern_compile_def last_map segment_of_def)
qed

text \<open>
  The two patterns everybody writes. A path with no wildcard covers exactly itself; a
  path followed by \<open>/*\<close> covers exactly what is under it, at any depth, and so not the path itself.
\<close>

theorem written_patterns:
  assumes "''+'' \<notin> set (split_on (CHR ''/'') path)" and "\<not> ends_with ''*'' path" and "valid_utf8 s"
  shows "(pattern_matches (pattern_compile path) s = Some True \<longleftrightarrow> s = path)
    \<and> (pattern_matches (pattern_compile (path @ ''/*'')) s = Some True \<longleftrightarrow>
         (\<exists>below. s = path @ ''/'' @ below))"
proof
  let ?ps = "split_on (CHR ''/'') path"
  have same: "list_all2 (\<lambda>p q. p = ''+'' \<or> p = q) ?ps qs \<longleftrightarrow> qs = ?ps" for qs
    using assms(1) by (rule list_all2_wild)
  have "s = path" if "split_on (CHR ''/'') s = ?ps"
    using that join_split_on by metis
  then show "pattern_matches (pattern_compile path) s = Some True \<longleftrightarrow> s = path"
    using assms(2,3) same
    by (auto simp: pattern_matches_covers compile_plain covers_def plain_segments)
  have split: "split_on (CHR ''/'') (path @ ''/'') = ?ps @ [[]]" by (rule split_on_snoc)
  have "path @ ''/*'' = (path @ ''/'') @ ''*''" by simp
  then have "pattern_compile (path @ ''/*'') = \<lparr>segments = map segment_of ?ps, glob = Some []\<rparr>"
    using compile_glob [of "path @ ''/''"] split by (simp add: map_butlast)
  moreover have "concat (map (\<lambda>q. q @ ''/'') ?ps) = path @ ''/''"
    by (rule concat_split_on)
  ultimately show "pattern_matches (pattern_compile (path @ ''/*'')) s = Some True \<longleftrightarrow>
         (\<exists>below. s = path @ ''/'' @ below)"
    using assms(3) same split_on_pieces [of _ "CHR ''/''" path]
    by (auto simp: pattern_matches_covers covers_def plain_segments)
qed

theorem written_patterns_witness:
  "pattern_matches (pattern_compile ''secret/data/app'') ''secret/data/app'' = Some True
   \<and> pattern_matches (pattern_compile ''secret/data/app/*'') ''secret/data/app'' \<noteq> Some True"
proof -
  have "valid_utf8 ''secret/data/app''" by (simp add: ord_of_def)
  then show ?thesis
    using written_patterns [of "''secret/data/app''" "''secret/data/app''"]
    by (simp add: ends_with_def starts_with_def)
qed

section \<open>Rule sets\<close>

lemma compile_capabilities_eq:
  "compile_capabilities cs r =
     r\<lparr>rule_read := rule_read r \<or> ''read'' \<in> set cs, rule_list := rule_list r \<or> ''list'' \<in> set cs,
       rule_deny := rule_deny r \<or> ''deny'' \<in> set cs\<rparr>"
  by (induction cs arbitrary: r) auto

lemma compile_rule_fields [simp]:
  "rule_pattern (compile_rule r) = pattern_compile (rule_path r)"
  "rule_deny (compile_rule r) \<longleftrightarrow> ''deny'' \<in> set (capabilities r)"
  "grants (compile_rule r) Read \<longleftrightarrow> ''read'' \<in> set (capabilities r)"
  "grants (compile_rule r) List \<longleftrightarrow> ''list'' \<in> set (capabilities r)"
  by (simp_all add: compile_rule_def compile_capabilities_eq grants_def)

lemma allows_loop_eq:
  assumes "valid_utf8 path"
  shows "allows_loop rs g path cap =
    Some ((g \<or> (\<exists>r \<in> set rs. covers (rule_pattern r) path \<and> grants r cap))
          \<and> (\<forall>r \<in> set rs. covers (rule_pattern r) path \<longrightarrow> \<not> rule_deny r))"
proof (induction rs arbitrary: g)
  case (Cons r rs)
  then show ?case
    using assms by (cases "covers (rule_pattern r) path") (auto simp: pattern_matches_covers)
qed simp

lemma allows_eq:
  assumes "valid_utf8 path"
  shows "allows rs path cap =
    Some ((\<exists>r \<in> set rs. covers (rule_pattern r) path \<and> grants r cap)
          \<and> (\<forall>r \<in> set rs. covers (rule_pattern r) path \<longrightarrow> \<not> rule_deny r))"
  unfolding allows_def using allows_loop_eq [OF assms, of rs False cap] by simp

text \<open>The word a policy uses for a capability.\<close>

definition capability_word :: "capability \<Rightarrow> string" where
  "capability_word cap = (case cap of Read \<Rightarrow> ''read'' | List \<Rightarrow> ''list'')"

lemma allows_from_rules:
  assumes "valid_utf8 path"
  shows "allows (from_rules rules) path cap = Some True \<longleftrightarrow>
    (\<exists>r \<in> set rules. covers (pattern_compile (rule_path r)) path
        \<and> capability_word cap \<in> set (capabilities r))
    \<and> (\<forall>r \<in> set rules. covers (pattern_compile (rule_path r)) path
        \<longrightarrow> ''deny'' \<notin> set (capabilities r))"
  using assms by (cases cap) (auto simp: allows_eq from_rules_def capability_word_def)

text \<open>
  C19. The decision of a rule set. For every valid path it returns; it grants a capability exactly
  when some rule covering the path names the capability and no rule covering the path says deny.
  Hence deny wins over any grant, unknown capabilities grant nothing, a path no rule covers is
  refused, and neither the order nor the repetition of rules matters.
\<close>

theorem allows_exact:
  assumes "valid_utf8 path"
  shows "allows (from_rules rules) path cap =
    Some ((\<exists>r \<in> set rules. covers (pattern_compile (rule_path r)) path
              \<and> capability_word cap \<in> set (capabilities r))
          \<and> (\<forall>r \<in> set rules. covers (pattern_compile (rule_path r)) path
              \<longrightarrow> ''deny'' \<notin> set (capabilities r)))"
  using allows_from_rules [OF assms, of rules cap] allows_eq [OF assms, of "from_rules rules" cap]
  by auto

theorem allows_exact_witness:
  "allows (from_rules [\<lparr>rule_path = ''a/b'', capabilities = [''read'']\<rparr>,
                        \<lparr>rule_path = ''a/*'', capabilities = [''deny'']\<rparr>]) ''a/b'' Read = Some False"
proof -
  have "valid_utf8 ''a/b''" by (simp add: ord_of_def)
  from allows_exact [OF this] show ?thesis
    by (simp add: pattern_compile_def strip_suffix_def ends_with_def starts_with_def
        segment_of_def covers_glob Let_def join_with_def)
qed

text \<open>The contract the request path relies on, whatever the representation of the rules.\<close>

locale decision =
  fixes decide :: "'rs \<Rightarrow> string \<Rightarrow> capability \<Rightarrow> bool option"
    and denies :: "'rs \<Rightarrow> string \<Rightarrow> bool"
    and granted :: "'rs \<Rightarrow> string \<Rightarrow> capability \<Rightarrow> bool"
  assumes decide_iff:
    "valid_utf8 path \<Longrightarrow> decide rs path cap = Some (granted rs path cap \<and> \<not> denies rs path)"
begin

lemma decide_total: "valid_utf8 path \<Longrightarrow> \<exists>b. decide rs path cap = Some b"
  by (simp add: decide_iff)

lemma deny_wins: "valid_utf8 path \<Longrightarrow> denies rs path \<Longrightarrow> decide rs path cap = Some False"
  by (simp add: decide_iff)

lemma default_deny: "valid_utf8 path \<Longrightarrow> \<not> granted rs path cap \<Longrightarrow> decide rs path cap = Some False"
  by (simp add: decide_iff)

end

interpretation rules: decision allows
  "\<lambda>rs path. \<exists>r \<in> set rs. covers (rule_pattern r) path \<and> rule_deny r"
  "\<lambda>rs path cap. \<exists>r \<in> set rs. covers (rule_pattern r) path \<and> grants r cap"
  by unfold_locales (auto simp: allows_eq)

end
