(* ===== verification/Policy_Token.thy ===== *)
theory Policy_Token
  imports Policy_Matcher
begin

text \<open>
  \<open>components/kallisto_policy/src/token.rs\<close> and
  \<open>components/kallisto_telemetry/src/redact.rs\<close>: the keyed token table and the keyed identifiers
  of the log. HMAC-SHA-256 is an argument \<open>hmac key message\<close>; what is relied on is that its
  output has 32 bytes (\<open>hmac_width\<close>).

  Shown here: when a table is built and which error it gives otherwise, that a lookup finds exactly
  the last table entry whose hash is the presented token's, that only rules of policies the entry
  names and the file defines ever grant anything, that a minted token is recognised, and that the
  messages authenticated for tokens and for the log key never coincide.
\<close>

section \<open>token.rs\<close>

definition TOKEN_KEY_LEN :: nat where
  "TOKEN_KEY_LEN = 32"

definition HASH_LEN :: nat where
  "HASH_LEN = 32"

definition LABEL :: bytes where
  "LABEL = as_bytes ''kallisto/token/v1'' @ [0]"

definition LOG_LABEL :: bytes where
  "LOG_LABEL = as_bytes ''kallisto/log/v1'' @ [0]"

datatype token_error =
    KeyMissing nat
  | KeyMalformed hex_error
  | HashMalformed nat

text \<open>
  The prepared \<open>hmac::Key\<close> is a function of the raw bytes, so the raw bytes are the key.
\<close>

datatype token_key = TokenKey (tk_raw: bytes)

type_synonym hmac_fun = "bytes \<Rightarrow> bytes \<Rightarrow> bytes"

definition hmac_width :: "hmac_fun \<Rightarrow> bool" where
  "hmac_width hmac \<longleftrightarrow> (\<forall>k m. length (hmac k m) = 32)"

definition token_key_from_bytes :: "bytes \<Rightarrow> token_key" where
  "token_key_from_bytes bs = TokenKey bs"

definition token_key_from_hex :: "string \<Rightarrow> hex_error + token_key" where
  "token_key_from_hex text =
     (case decode_into text TOKEN_KEY_LEN of
        Inl e \<Rightarrow> Inl e
      | Inr bs \<Rightarrow> Inr (token_key_from_bytes bs))"

definition token_key_expose_as_hex :: "token_key \<Rightarrow> string" where
  "token_key_expose_as_hex k = encode (tk_raw k)"

text \<open>Two updates of one context authenticate the concatenation.\<close>

definition tagged :: "hmac_fun \<Rightarrow> token_key \<Rightarrow> bytes \<Rightarrow> bytes \<Rightarrow> bytes" where
  "tagged hmac k label message = hmac (tk_raw k) (label @ message)"

definition token_hash :: "hmac_fun \<Rightarrow> token_key \<Rightarrow> string \<Rightarrow> bytes" where
  "token_hash hmac k token = tagged hmac k LABEL (as_bytes token)"

definition hash_hex :: "hmac_fun \<Rightarrow> token_key \<Rightarrow> string \<Rightarrow> string" where
  "hash_hex hmac k token = encode (token_hash hmac k token)"

definition derive_key :: "hmac_fun \<Rightarrow> token_key \<Rightarrow> bytes \<Rightarrow> bytes" where
  "derive_key hmac k label = tagged hmac k label []"

definition token_key_debug :: "token_key \<Rightarrow> string" where
  "token_key_debug k = ''TokenKey(<REDACTED>)''"

record entry =
  e_hash :: bytes
  e_rules :: rule_set
  e_policies :: "string list"

record grant =
  g_rules :: rule_set
  g_policies :: "string list"
  g_token_id :: bytes

record token_table =
  t_key :: token_key
  t_entries :: "entry list"
  t_unknown :: "string list"

text \<open>The inner loop: the rules of the defined policies, and the names that are not defined.\<close>

fun flatten_policies ::
  "policy_rule list btree \<Rightarrow> string list \<Rightarrow> policy_rule list \<times> string list" where
  "flatten_policies policies [] = ([], [])"
| "flatten_policies policies (name # names) =
     (case flatten_policies policies names of
        (rules, unknown) \<Rightarrow>
          (case map_of policies name of
             Some policy \<Rightarrow> (policy @ rules, unknown)
           | None \<Rightarrow> (rules, name # unknown)))"

fun build_entries ::
  "policy_rule list btree \<Rightarrow> nat \<Rightarrow> string list btree \<Rightarrow> token_error + (entry list \<times> string list)" where
  "build_entries policies index [] = Inr ([], [])"
| "build_entries policies index ((hash_text, policy_names) # rest) =
     (case decode_into hash_text HASH_LEN of
        Inl _ \<Rightarrow> Inl (HashMalformed index)
      | Inr hash \<Rightarrow>
          (case flatten_policies policies policy_names of
             (rules, unknown) \<Rightarrow>
               (case build_entries policies (Suc index) rest of
                  Inl e \<Rightarrow> Inl e
                | Inr (entries, unknowns) \<Rightarrow>
                    Inr (\<lparr>e_hash = hash, e_rules = from_rules rules, e_policies = policy_names\<rparr>
                           # entries,
                         unknown @ unknowns))))"

definition table_build ::
  "string \<Rightarrow> string list btree \<Rightarrow> policy_rule list btree \<Rightarrow> token_error + token_table" where
  "table_build key_hex tokens policies =
     (case token_key_from_hex key_hex of
        Inl e \<Rightarrow> Inl (KeyMalformed e)
      | Inr key \<Rightarrow>
          (case build_entries policies 0 tokens of
             Inl e \<Rightarrow> Inl e
           | Inr (entries, unknown) \<Rightarrow>
               Inr \<lparr>t_key = key, t_entries = entries, t_unknown = unknown\<rparr>))"

definition table_len :: "token_table \<Rightarrow> nat" where
  "table_len t = length (t_entries t)"

definition table_derive :: "hmac_fun \<Rightarrow> token_table \<Rightarrow> bytes \<Rightarrow> bytes" where
  "table_derive hmac t label = derive_key hmac (t_key t) label"

text \<open>Every entry is examined; a later match replaces an earlier one.\<close>

fun lookup_loop :: "entry list \<Rightarrow> bytes \<Rightarrow> grant option \<Rightarrow> grant option" where
  "lookup_loop [] computed found = found"
| "lookup_loop (e # es) computed found =
     lookup_loop es computed
       (if e_hash e = computed
        then Some \<lparr>g_rules = e_rules e, g_policies = e_policies e, g_token_id = computed\<rparr>
        else found)"

definition table_lookup :: "hmac_fun \<Rightarrow> token_table \<Rightarrow> string \<Rightarrow> grant option" where
  "table_lookup hmac t presented =
     (let computed = token_hash hmac (t_key t) presented
      in lookup_loop (t_entries t) computed None)"

definition table_token_id :: "hmac_fun \<Rightarrow> token_table \<Rightarrow> string \<Rightarrow> bytes" where
  "table_token_id hmac t presented = token_hash hmac (t_key t) presented"

definition token_table_debug :: "token_table \<Rightarrow> string" where
  "token_table_debug t =
     ''TokenTable { entries: '' @ show_nat (length (t_entries t)) @ '', key: \"<REDACTED>\" }''"

section \<open>redact.rs\<close>

definition LOG_KEY_LEN :: nat where
  "LOG_KEY_LEN = 32"

definition ID_LEN :: nat where
  "ID_LEN = 16"

datatype log_key = LogKey (lk_raw: bytes)

definition log_key_from_bytes :: "bytes \<Rightarrow> log_key" where
  "log_key_from_bytes bs = LogKey bs"

definition derived_from :: "hmac_fun \<Rightarrow> token_key \<Rightarrow> log_key" where
  "derived_from hmac k = log_key_from_bytes (derive_key hmac k LOG_LABEL)"

text \<open>A failing generator aborts the process: \<open>None\<close>.\<close>

definition log_key_random :: "bytes option \<Rightarrow> log_key option" where
  "log_key_random fill = map_option log_key_from_bytes fill"

definition id_from_bytes :: "bytes \<Rightarrow> string" where
  "id_from_bytes bs = encode_into (take (ID_LEN div 2) bs) (replicate ID_LEN (CHR ''0''))"

definition id_NONE :: string where
  "id_NONE = replicate ID_LEN (CHR ''-'')"

definition log_id :: "hmac_fun \<Rightarrow> log_key \<Rightarrow> string \<Rightarrow> string" where
  "log_id hmac k v = id_from_bytes (hmac (lk_raw k) (as_bytes v))"

definition id_as_str :: "string \<Rightarrow> string" where
  "id_as_str i = (if valid_utf8 i then i else ''?'')"

definition log_key_debug :: "log_key \<Rightarrow> string" where
  "log_key_debug k = ''LogKey(<REDACTED>)''"

section \<open>Building and looking up\<close>

lemma flatten_policies_eq:
  "flatten_policies policies names =
     (concat (map (\<lambda>n. case map_of policies n of Some p \<Rightarrow> p | None \<Rightarrow> []) names),
      filter (\<lambda>n. map_of policies n = None) names)"
  by (induction names) (auto split: option.splits)

text \<open>The entry the file's line stands for.\<close>

definition entry_of :: "policy_rule list btree \<Rightarrow> bytes \<Rightarrow> string list \<Rightarrow> entry" where
  "entry_of policies hash names =
     \<lparr>e_hash = hash,
      e_rules = from_rules (concat (map (\<lambda>n. case map_of policies n of Some p \<Rightarrow> p | None \<Rightarrow> []) names)),
      e_policies = names\<rparr>"

lemma build_entries_Inr:
  "build_entries policies i tokens = Inr (es, unk) \<Longrightarrow>
     list_all2 (\<lambda>(h, names) e. \<exists>hash. decode_into h HASH_LEN = Inr hash \<and> e = entry_of policies hash names)
       tokens es
     \<and> unk = concat (map (\<lambda>(h, names). filter (\<lambda>n. map_of policies n = None) names) tokens)"
proof (induction tokens arbitrary: i es unk)
  case (Cons t tokens)
  obtain h names where t: "t = (h, names)" by fastforce
  obtain hash es' unk' where "decode_into h HASH_LEN = Inr hash"
    and rest: "build_entries policies (Suc i) tokens = Inr (es', unk')"
    and "es = entry_of policies hash names # es'"
    and "unk = filter (\<lambda>n. map_of policies n = None) names @ unk'"
    using Cons.prems
    by (auto simp: t flatten_policies_eq entry_of_def split: sum.splits prod.splits)
  with Cons.IH [OF rest] show ?case by (simp add: t)
qed simp

lemma build_entries_Inl:
  "build_entries policies i tokens = Inl e \<Longrightarrow>
     \<exists>k < length tokens. e = HashMalformed (i + k)
       \<and> (\<exists>x. decode_into (fst (tokens ! k)) HASH_LEN = Inl x)
       \<and> (\<forall>j < k. \<exists>x. decode_into (fst (tokens ! j)) HASH_LEN = Inr x)"
proof (induction tokens arbitrary: i)
  case (Cons t tokens)
  obtain h names where t: "t = (h, names)" by fastforce
  show ?case
  proof (cases "decode_into h HASH_LEN")
    case (Inl x)
    with Cons.prems show ?thesis by (intro exI [of _ 0]) (auto simp: t)
  next
    case (Inr hash)
    with Cons.prems have "build_entries policies (Suc i) tokens = Inl e"
      by (auto simp: t split: prod.splits sum.splits)
    then obtain k where k: "k < length tokens" "e = HashMalformed (Suc i + k)"
      "\<exists>x. decode_into (fst (tokens ! k)) HASH_LEN = Inl x"
      "\<forall>j < k. \<exists>x. decode_into (fst (tokens ! j)) HASH_LEN = Inr x"
      using Cons.IH by blast
    have "\<exists>x. decode_into (fst ((t # tokens) ! j)) HASH_LEN = Inr x" if "j < Suc k" for j
      using that k(4) Inr by (cases j) (auto simp: t)
    with k show ?thesis by (intro exI [of _ "Suc k"]) auto
  qed
qed simp

lemma lookup_loop_append:
  "lookup_loop (es @ [e]) c f =
     (if e_hash e = c then Some \<lparr>g_rules = e_rules e, g_policies = e_policies e, g_token_id = c\<rparr>
      else lookup_loop es c f)"
  by (induction es arbitrary: f) auto

lemma lookup_loop_None: "lookup_loop es c None = None \<longleftrightarrow> (\<forall>e \<in> set es. e_hash e \<noteq> c)"
  by (induction es rule: rev_induct) (auto simp: lookup_loop_append)

lemma lookup_loop_Some:
  assumes "lookup_loop es c None = Some g"
  shows "\<exists>pre e post. es = pre @ e # post \<and> e_hash e = c \<and> (\<forall>x \<in> set post. e_hash x \<noteq> c)
    \<and> g = \<lparr>g_rules = e_rules e, g_policies = e_policies e, g_token_id = c\<rparr>"
  using assms
proof (induction es rule: rev_induct)
  case (snoc e es)
  show ?case
  proof (cases "e_hash e = c")
    case True
    with snoc.prems show ?thesis
      by (intro exI [of _ es] exI [of _ e] exI [of _ "[]"]) (simp add: lookup_loop_append)
  next
    case False
    with snoc obtain pre x post where "es = pre @ x # post" "e_hash x = c"
      "\<forall>x \<in> set post. e_hash x \<noteq> c"
      "g = \<lparr>g_rules = e_rules x, g_policies = e_policies x, g_token_id = c\<rparr>"
      by (auto simp: lookup_loop_append)
    with False show ?thesis by (intro exI [of _ pre] exI [of _ x] exI [of _ "post @ [e]"]) auto
  qed
qed simp

lemma table_build_Inr:
  assumes "table_build key_hex tokens policies = Inr t"
  shows "token_key_from_hex key_hex = Inr (t_key t)"
    and "list_all2 (\<lambda>(h, names) e. \<exists>hash. decode_into h HASH_LEN = Inr hash
            \<and> e = entry_of policies hash names) tokens (t_entries t)"
    and "t_unknown t =
      concat (map (\<lambda>(h, names). filter (\<lambda>n. map_of policies n = None) names) tokens)"
proof -
  obtain es unk where k: "token_key_from_hex key_hex = Inr (t_key t)"
    and b: "build_entries policies 0 tokens = Inr (es, unk)"
    and t: "t_entries t = es" "t_unknown t = unk"
    using assms by (auto simp: table_build_def split: sum.splits prod.splits)
  from k build_entries_Inr [OF b] t
  show "token_key_from_hex key_hex = Inr (t_key t)"
    and "list_all2 (\<lambda>(h, names) e. \<exists>hash. decode_into h HASH_LEN = Inr hash
            \<and> e = entry_of policies hash names) tokens (t_entries t)"
    and "t_unknown t =
      concat (map (\<lambda>(h, names). filter (\<lambda>n. map_of policies n = None) names) tokens)"
    by simp_all
qed

lemma table_build_Inl:
  "table_build key_hex tokens policies = Inl e \<Longrightarrow>
     (\<exists>x. decode_into key_hex TOKEN_KEY_LEN = Inl x \<and> e = KeyMalformed x)
     \<or> (\<exists>i < length tokens. e = HashMalformed i
         \<and> (\<exists>x. decode_into (fst (tokens ! i)) HASH_LEN = Inl x)
         \<and> (\<forall>j < i. \<exists>x. decode_into (fst (tokens ! j)) HASH_LEN = Inr x))"
  using build_entries_Inl [of policies 0 tokens e]
  by (auto simp: table_build_def token_key_from_hex_def split: sum.splits prod.splits)

lemma list_all2_source: "list_all2 P xs ys \<Longrightarrow> y \<in> set ys \<Longrightarrow> \<exists>x \<in> set xs. P x y"
  by (induction rule: list_all2_induct) auto

lemma entries_hashes:
  "list_all2 (\<lambda>(h, names) e. \<exists>hash. decode_into h HASH_LEN = Inr hash
       \<and> e = entry_of policies hash names) tokens es \<Longrightarrow>
     (\<exists>e \<in> set es. e_hash e = c) \<longleftrightarrow> (\<exists>t \<in> set tokens. decode_into (fst t) HASH_LEN = Inr c)"
  by (induction rule: list_all2_induct) (auto simp: entry_of_def)

lemma concat_filter_names:
  "set (concat (map (\<lambda>(h, y). filter P y) ts)) = {n. P n \<and> n \<in> set (concat (map snd ts))}"
  by (induction ts) auto

text \<open>The lines of the table that a token's hash selects.\<close>

definition selects :: "string list btree \<Rightarrow> bytes \<Rightarrow> string list \<Rightarrow> bool" where
  "selects tokens hash names \<longleftrightarrow> (\<exists>h. (h, names) \<in> set tokens \<and> decode_into h HASH_LEN = Inr hash)"

lemma lookup_selects:
  assumes t: "table_build key_hex tokens policies = Inr t"
    and g: "table_lookup hmac t presented = Some g"
  shows "selects tokens (token_hash hmac (t_key t) presented) (g_policies g)
    \<and> g_token_id g = token_hash hmac (t_key t) presented
    \<and> g_rules g = e_rules (entry_of policies (g_token_id g) (g_policies g))"
proof -
  obtain e where e: "e \<in> set (t_entries t)" "e_hash e = token_hash hmac (t_key t) presented"
    "g = \<lparr>g_rules = e_rules e, g_policies = e_policies e, g_token_id = e_hash e\<rparr>"
  proof -
    from g have "lookup_loop (t_entries t) (token_hash hmac (t_key t) presented) None = Some g"
      by (simp add: table_lookup_def Let_def)
    from lookup_loop_Some [OF this] obtain pre e post where "t_entries t = pre @ e # post"
      "e_hash e = token_hash hmac (t_key t) presented"
      "g = \<lparr>g_rules = e_rules e, g_policies = e_policies e, g_token_id = e_hash e\<rparr>" by metis
    then show thesis by (intro that [of e]) auto
  qed
  obtain h names hash where "(h, names) \<in> set tokens" "decode_into h HASH_LEN = Inr hash"
    "e = entry_of policies hash names"
    using list_all2_source [OF table_build_Inr(2) [OF t] e(1)] by auto
  with e show ?thesis by (auto simp: selects_def entry_of_def)
qed

lemma lookup_misses:
  assumes t: "table_build key_hex tokens policies = Inr t"
  shows "table_lookup hmac t presented = None \<longleftrightarrow>
    (\<forall>names. \<not> selects tokens (token_hash hmac (t_key t) presented) names)"
proof -
  let ?c = "token_hash hmac (t_key t) presented"
  have "(\<exists>e \<in> set (t_entries t). e_hash e = ?c) \<longleftrightarrow> (\<exists>names. selects tokens ?c names)"
    using entries_hashes [OF table_build_Inr(2) [OF t], of ?c] by (force simp: selects_def)
  then show ?thesis by (auto simp: table_lookup_def lookup_loop_None)
qed

text \<open>
  Building the token table. It succeeds exactly when the key is 64 hex digits and every table
  key decodes to a hash; otherwise the error is the key's, or names the first line that does not
  decode. It reports exactly the policy names that tokens mention and the file does not define.
\<close>

theorem table_build_exact:
  "(case table_build key_hex tokens policies of
      Inr t \<Rightarrow>
        (\<exists>k. decode_into key_hex TOKEN_KEY_LEN = Inr k \<and> t_key t = TokenKey k)
        \<and> list_all (\<lambda>(h, _). \<exists>hash. decode_into h HASH_LEN = Inr hash) tokens
        \<and> map e_policies (t_entries t) = map snd tokens
        \<and> set (t_unknown t) =
            {n. map_of policies n = None \<and> n \<in> set (concat (map snd tokens))}
    | Inl (KeyMalformed x) \<Rightarrow> decode_into key_hex TOKEN_KEY_LEN = Inl x
    | Inl (HashMalformed i) \<Rightarrow>
        i < length tokens \<and> (\<exists>x. decode_into (fst (tokens ! i)) HASH_LEN = Inl x)
        \<and> list_all (\<lambda>(h, _). \<exists>hash. decode_into h HASH_LEN = Inr hash) (take i tokens)
    | Inl (KeyMissing _) \<Rightarrow> False)"
proof (cases "table_build key_hex tokens policies")
  case (Inl e)
  from table_build_Inl [OF Inl] Inl show ?thesis
    by (auto simp: list_all_length split_beta)
next
  case (Inr t)
  have "list_all (\<lambda>(h, _). \<exists>hash. decode_into h HASH_LEN = Inr hash) tokens
      \<and> map e_policies (t_entries t) = map snd tokens"
    using table_build_Inr(2) [OF Inr]
    by (induction rule: list_all2_induct) (auto simp: entry_of_def)
  moreover have "set (t_unknown t) =
      {n. map_of policies n = None \<and> n \<in> set (concat (map snd tokens))}"
    unfolding table_build_Inr(3) [OF Inr] by (rule concat_filter_names)
  moreover have "\<exists>k. decode_into key_hex TOKEN_KEY_LEN = Inr k \<and> t_key t = TokenKey k"
    using table_build_Inr(1) [OF Inr]
    by (auto simp: token_key_from_hex_def token_key_from_bytes_def split: sum.splits)
  ultimately show ?thesis using Inr by simp
qed

lemma lookup_reach:
  assumes t: "table_build key_hex tokens policies = Inr t"
  shows "(table_lookup hmac t presented \<noteq> None \<longleftrightarrow>
       (\<exists>names. selects tokens (token_hash hmac (t_key t) presented) names))
   \<and> (\<forall>g path cap. table_lookup hmac t presented = Some g \<longrightarrow> valid_utf8 path \<longrightarrow>
        selects tokens (token_hash hmac (t_key t) presented) (g_policies g)
        \<and> (allows (g_rules g) path cap = Some True \<longrightarrow>
             (\<exists>name policy r. name \<in> set (g_policies g) \<and> map_of policies name = Some policy
                \<and> r \<in> set policy \<and> covers (pattern_compile (rule_path r)) path
                \<and> capability_word cap \<in> set (capabilities r))
             \<and> (\<forall>name policy r. name \<in> set (g_policies g) \<longrightarrow> map_of policies name = Some policy \<longrightarrow>
                r \<in> set policy \<longrightarrow> covers (pattern_compile (rule_path r)) path \<longrightarrow>
                ''deny'' \<notin> set (capabilities r))))"
proof (intro conjI allI impI)
  show "table_lookup hmac t presented \<noteq> None \<longleftrightarrow>
       (\<exists>names. selects tokens (token_hash hmac (t_key t) presented) names)"
    using lookup_misses [OF t, of hmac presented] by simp
next
  fix g and path :: string and cap
  assume g: "table_lookup hmac t presented = Some g" and path: "valid_utf8 path"
  show "selects tokens (token_hash hmac (t_key t) presented) (g_policies g)"
    using lookup_selects [OF t g] by blast
  assume allowed: "allows (g_rules g) path cap = Some True"
  let ?rules = "concat (map (\<lambda>n. case map_of policies n of Some p \<Rightarrow> p | None \<Rightarrow> []) (g_policies g))"
  have rules: "g_rules g = from_rules ?rules"
    using lookup_selects [OF t g] by (simp add: entry_of_def)
  have mem: "r \<in> set ?rules \<longleftrightarrow>
      (\<exists>name policy. name \<in> set (g_policies g) \<and> map_of policies name = Some policy \<and> r \<in> set policy)" for r
    by (auto split: option.splits) metis+
  have ex: "\<exists>r \<in> set ?rules. covers (pattern_compile (rule_path r)) path
        \<and> capability_word cap \<in> set (capabilities r)"
    and all: "\<forall>r \<in> set ?rules. covers (pattern_compile (rule_path r)) path
        \<longrightarrow> ''deny'' \<notin> set (capabilities r)"
    using allowed allows_from_rules [OF path] unfolding rules by blast+
  from ex show "\<exists>name policy r. name \<in> set (g_policies g) \<and> map_of policies name = Some policy
      \<and> r \<in> set policy \<and> covers (pattern_compile (rule_path r)) path
      \<and> capability_word cap \<in> set (capabilities r)"
    unfolding Bex_def mem by blast
  fix name policy r
  assume "name \<in> set (g_policies g)" and "map_of policies name = Some policy" and "r \<in> set policy"
    and "covers (pattern_compile (rule_path r)) path"
  with all mem show "''deny'' \<notin> set (capabilities r)" by blast
qed

text \<open>
  C20. What a token can reach. A lookup succeeds exactly when some line of the file decodes to the
  presented token's keyed hash; the grant carries the names of such a line, and grants a capability
  on a path only through a rule, naming that capability and covering that path, of a policy the line
  names and the file defines, and only if no such rule denies the path.
\<close>

theorem token_reach:
  assumes t: "table_build key_hex tokens policies = Inr t"
  shows "(table_lookup hmac t presented \<noteq> None \<longleftrightarrow>
       (\<exists>names. selects tokens (token_hash hmac (t_key t) presented) names))
   \<and> (\<forall>g path cap. table_lookup hmac t presented = Some g \<longrightarrow> valid_utf8 path \<longrightarrow>
        selects tokens (token_hash hmac (t_key t) presented) (g_policies g)
        \<and> (allows (g_rules g) path cap = Some True \<longrightarrow>
             (\<exists>name policy r. name \<in> set (g_policies g) \<and> map_of policies name = Some policy
                \<and> r \<in> set policy \<and> covers (pattern_compile (rule_path r)) path
                \<and> capability_word cap \<in> set (capabilities r))
             \<and> (\<forall>name policy r. name \<in> set (g_policies g) \<longrightarrow> map_of policies name = Some policy \<longrightarrow>
                r \<in> set policy \<longrightarrow> covers (pattern_compile (rule_path r)) path \<longrightarrow>
                ''deny'' \<notin> set (capabilities r))))"
  using assms by (rule lookup_reach)

lemma decode_into_encode_any: "decode_into (encode bs) n = Inr x \<Longrightarrow> x = bs"
proof -
  assume d: "decode_into (encode bs) n = Inr x"
  have "trim (encode bs) = encode bs" using encode_solid by (rule trim_all_solid)
  with d have "n = length bs" by (auto simp: decode_into_def Let_def split: if_splits)
  with d show ?thesis using decode_encode [of bs] by simp
qed

text \<open>
  A minted token works. If the file's table, with keys written by the hex encoder, has a line
  for the keyed hash of a token, presenting the token finds that line's policies and no other's;
  and what the grant reports as token identifier is the hash in the file.
\<close>

theorem minted_token_recognised:
  assumes width: "hmac_width hmac" and t: "table_build key_hex tokens policies = Inr t"
    and keys: "btree_ok tokens" "\<And>h names. (h, names) \<in> set tokens \<Longrightarrow> \<exists>bs. h = encode bs"
    and line: "(hash_hex hmac (t_key t) token, names) \<in> set tokens"
  shows "\<exists>g. table_lookup hmac t token = Some g \<and> g_policies g = names
    \<and> encode (g_token_id g) = hash_hex hmac (t_key t) token"
proof -
  let ?c = "token_hash hmac (t_key t) token"
  have len: "length ?c = HASH_LEN"
    using width by (simp add: hmac_width_def token_hash_def tagged_def HASH_LEN_def)
  have "selects tokens ?c names"
    using line decode_encode [of ?c] len by (auto simp: selects_def hash_hex_def)
  then obtain g where g: "table_lookup hmac t token = Some g"
    using lookup_misses [OF t, of hmac token] by auto
  have "selects tokens ?c (g_policies g)" and id: "g_token_id g = ?c"
    using lookup_selects [OF t g] by simp_all
  then obtain h where h: "(h, g_policies g) \<in> set tokens" "decode_into h HASH_LEN = Inr ?c"
    by (auto simp: selects_def)
  then obtain bs where "h = encode bs" using keys(2) by blast
  with h have "h = hash_hex hmac (t_key t) token"
    using decode_into_encode_any [of bs] by (auto simp: hash_hex_def)
  then have "g_policies g = names"
    using h(1) line keys(1) by (simp add: btree_ok_def) (metis eq_key_imp_eq_value)
  with g id show ?thesis by (simp add: hash_hex_def)
qed

text \<open>No token is authenticated with a message that is also a log-key derivation.\<close>

lemma labels_separate: "LABEL @ a \<noteq> LOG_LABEL @ b"
proof
  assume "LABEL @ a = LOG_LABEL @ b"
  then have "(LABEL @ a) ! 9 = (LOG_LABEL @ b) ! 9" by simp
  then show False by (simp add: LABEL_def LOG_LABEL_def as_bytes_def)
qed

section \<open>Log identifiers\<close>

lemma id_from_bytes_eq: "8 \<le> length bs \<Longrightarrow> id_from_bytes bs = encode (take 8 bs)"
  by (simp add: id_from_bytes_def encode_into_def encode_eq ID_LEN_def)

lemma log_id_shape:
  assumes "hmac_width hmac"
  shows "length (log_id hmac k v) = 16" and "c \<in> set (log_id hmac k v) \<Longrightarrow> solid c"
    and "id_as_str (log_id hmac k v) = log_id hmac k v"
proof -
  have 8: "8 \<le> length (hmac (lk_raw k) (as_bytes v))" using assms by (simp add: hmac_width_def)
  then have e: "log_id hmac k v = encode (take 8 (hmac (lk_raw k) (as_bytes v)))"
    by (simp add: log_id_def id_from_bytes_eq)
  show "length (log_id hmac k v) = 16" using 8 by (simp add: e)
  show "c \<in> set (log_id hmac k v) \<Longrightarrow> solid c" unfolding e by (rule encode_solid)
  have "valid_utf8 (log_id hmac k v)"
    unfolding e by (rule valid_utf8_ascii) (use encode_solid in \<open>fastforce simp: solid_def\<close>)
  then show "id_as_str (log_id hmac k v) = log_id hmac k v" by (simp add: id_as_str_def)
qed

section \<open>Witnesses\<close>

text \<open>A transparent keyed hash of the right width: the first bytes of the message.\<close>

definition clear_hmac :: hmac_fun where
  "clear_hmac k m = take 32 (m @ replicate 32 0)"

lemma clear_hmac_width: "hmac_width clear_hmac"
  by (auto simp: clear_hmac_def hmac_width_def min_def)

lemma sample_hash_decodes:
  "decode_into (encode (token_hash clear_hmac k token)) HASH_LEN = Inr (token_hash clear_hmac k token)"
  using decode_encode [of "token_hash clear_hmac k token"] clear_hmac_width
  by (simp add: hmac_width_def token_hash_def tagged_def HASH_LEN_def)

definition sample_token_table :: token_table where
  "sample_token_table =
     \<lparr>t_key = TokenKey (replicate 32 3),
      t_entries = [entry_of [(''p'', [\<lparr>rule_path = ''a/*'', capabilities = [''read'']\<rparr>])]
                     (token_hash clear_hmac (TokenKey (replicate 32 3)) ''tok'') [''p'', ''q'']],
      t_unknown = [''q'']\<rparr>"

lemma sample_table_built:
  "table_build (encode (replicate 32 3))
     [(encode (token_hash clear_hmac (TokenKey (replicate 32 3)) ''tok''), [''p'', ''q''])]
     [(''p'', [\<lparr>rule_path = ''a/*'', capabilities = [''read'']\<rparr>])] = Inr sample_token_table"
proof -
  have k: "decode_into (encode (replicate 32 3)) TOKEN_KEY_LEN = Inr (replicate 32 3)"
    using decode_encode [of "replicate 32 3"] by (simp add: TOKEN_KEY_LEN_def)
  show ?thesis
    by (simp add: table_build_def token_key_from_hex_def token_key_from_bytes_def k sample_hash_decodes
        flatten_policies_eq sample_token_table_def entry_of_def)
qed

theorem token_reach_witness:
  "table_lookup clear_hmac sample_token_table ''tok'' \<noteq> None"
proof -
  have "t_key sample_token_table = TokenKey (replicate 32 3)" by (simp add: sample_token_table_def)
  with token_reach [OF sample_table_built, of clear_hmac "''tok''"] sample_hash_decodes
  show ?thesis by (simp only: selects_def) fastforce
qed

theorem minted_token_recognised_witness:
  "\<exists>g. table_lookup clear_hmac sample_token_table ''tok'' = Some g \<and> g_policies g = [''p'', ''q'']"
proof -
  have "btree_ok [(encode (token_hash clear_hmac (TokenKey (replicate 32 3)) ''tok''), [''p'', ''q''])]"
    by (simp add: btree_ok_def)
  from minted_token_recognised [OF clear_hmac_width sample_table_built this, of "''tok''" "[''p'', ''q'']"]
  show ?thesis by (auto simp: hash_hex_def sample_token_table_def)
qed

end
