(* ===== verification/Time_Format.thy ===== *)
theory Time_Format
  imports Kallisto_Prelude
begin

text \<open>
  \<open>src/server/time_format.rs\<close>: epoch seconds to a UTC date and its RFC 3339 rendering. The signed
  and the 32-bit intermediate values are integers; \<open>civil_ranges\<close> shows that none of them leaves
  its type, so no cast truncates and no subtraction underflows. The calendar itself is specified by
  \<open>next_day\<close> from 1970-01-01, and the era/year/month arithmetic is shown to follow it for every
  day.
\<close>

section \<open>time\_format.rs\<close>

record civil_time =
  year :: int
  month :: int
  day :: int
  hour :: nat
  minute :: nat
  second :: nat

text \<open>The day-of-era arithmetic, one name per variable of the code.\<close>

definition yoe_of :: "int \<Rightarrow> int" where
  "yoe_of doe = (doe - doe div 1460 + doe div 36524 - doe div 146096) div 365"

definition doy_of :: "int \<Rightarrow> int" where
  "doy_of doe = (let yoe = yoe_of doe in doe - (365 * yoe + yoe div 4 - yoe div 100))"

definition month_day :: "int \<Rightarrow> int \<times> int" where
  "month_day doy =
     (let mp = (5 * doy + 2) div 153;
          d = doy - (153 * mp + 2) div 5 + 1
      in (mp + (if mp < 10 then 3 else - 9), d))"

definition civil_from_days :: "nat \<Rightarrow> int \<times> int \<times> int" where
  "civil_from_days days =
     (let z = int days + 719468;
          era = (if z \<ge> 0 then z else z - 146096) div 146097;
          doe = z - era * 146097;
          y = yoe_of doe + era * 400;
          (m, d) = month_day (doy_of doe)
      in (y + (if m \<le> 2 then 1 else 0), m, d))"

definition civil_from_epoch_secs :: "nat \<Rightarrow> civil_time" where
  "civil_from_epoch_secs total_secs =
     (let days = total_secs div 86400;
          rem_secs = total_secs mod 86400;
          (y, m, d) = civil_from_days days
      in \<lparr>year = y, month = m, day = d, hour = rem_secs div 3600,
          minute = (rem_secs mod 3600) div 60, second = rem_secs mod 60\<rparr>)"

text \<open>\<open>{:0w}\<close> of a number that is not negative.\<close>

definition padded :: "nat \<Rightarrow> int \<Rightarrow> string" where
  "padded w n = zero_pad w (show_nat (nat n))"

definition epoch_ms_to_rfc3339 :: "nat \<Rightarrow> string" where
  "epoch_ms_to_rfc3339 ms =
     (if ms = 0 then ''1970-01-01T00:00:00Z''
      else
        (let t = civil_from_epoch_secs (ms div 1000);
             fraction_ms = ms mod 1000;
             stamp = padded 4 (year t) @ ''-'' @ padded 2 (month t) @ ''-'' @ padded 2 (day t)
               @ ''T'' @ padded 2 (int (hour t)) @ '':'' @ padded 2 (int (minute t)) @ '':''
               @ padded 2 (int (second t))
         in if fraction_ms > 0 then stamp @ ''.'' @ padded 3 (int fraction_ms) @ ''Z''
            else stamp @ ''Z''))"

text \<open>
  A \<open>SystemTime\<close> is its distance from the epoch in milliseconds, negative before it; the cast
  to \<open>u64\<close> keeps the low 64 bits.
\<close>

definition rfc3339_from_system_time :: "int \<Rightarrow> string" where
  "rfc3339_from_system_time t =
     epoch_ms_to_rfc3339 (if t < 0 then 0 else nat t mod 2 ^ 64)"

section \<open>The calendar\<close>

definition leap :: "int \<Rightarrow> bool" where
  "leap y \<longleftrightarrow> y mod 4 = 0 \<and> (y mod 100 \<noteq> 0 \<or> y mod 400 = 0)"

definition days_in_month :: "int \<Rightarrow> int \<Rightarrow> int" where
  "days_in_month y m =
     (if m = 2 then (if leap y then 29 else 28)
      else if m \<in> {4, 6, 9, 11} then 30 else 31)"

definition next_day :: "int \<times> int \<times> int \<Rightarrow> int \<times> int \<times> int" where
  "next_day c =
     (case c of (y, m, d) \<Rightarrow>
        if d < days_in_month y m then (y, m, d + 1)
        else if m < 12 then (y, m + 1, 1)
        else (y + 1, 1, 1))"

section \<open>Years of an era\<close>

text \<open>Years run from March, so the leap day ends the year before the one it is named in.\<close>

definition year_start :: "int \<Rightarrow> int" where
  "year_start yoe = 365 * yoe + yoe div 4 - yoe div 100"

definition year_len :: "int \<Rightarrow> int" where
  "year_len yoe = (if leap (yoe + 1) then 366 else 365)"

lemma div_lag_mono: "0 < k \<Longrightarrow> (a::nat) \<le> b \<Longrightarrow> a - a div k \<le> b - b div k"
  by (rule lift_Suc_mono_le [of "\<lambda>n. n - n div k"]) (auto simp: div_Suc)

lemma yoe_mono:
  assumes "0 \<le> a" and "a \<le> b" and "b < 146096"
  shows "yoe_of a \<le> yoe_of b"
proof -
  obtain m n where mn: "a = int m" "b = int n" "m \<le> n"
    using assms by (metis nat_0_le nat_mono order_trans)
  have lag: "int k - int k div 1460 = int (k - k div 1460)" for k :: nat
    by (simp add: of_nat_diff zdiv_int)
  have "int m - int m div 1460 \<le> int n - int n div 1460"
    unfolding lag using div_lag_mono [of 1460 m n] mn(3) by simp
  moreover have "int m div 36524 \<le> int n div 36524" using mn(3) by (simp add: zdiv_mono1)
  moreover have "int m div 146096 = 0" "int n div 146096 = 0" using assms mn by simp_all
  ultimately show ?thesis unfolding yoe_of_def mn by (intro zdiv_mono1) auto
qed

lemma year_ends_check:
  "list_all (\<lambda>y. yoe_of (year_start y) = y \<and> yoe_of (year_start y + year_len y - 1) = y
     \<and> year_start (y + 1) = year_start y + (if y = 399 then 365 else year_len y)
     \<and> year_start y + year_len y \<le> (if y = 399 then 146097 else 145731)) [0..399]"
  by code_simp

lemma year_facts:
  assumes "0 \<le> y" and "y \<le> 399"
  shows "yoe_of (year_start y) = y" and "yoe_of (year_start y + year_len y - 1) = y"
    and "y < 399 \<Longrightarrow> year_start (y + 1) = year_start y + year_len y"
    and "y < 399 \<Longrightarrow> year_start y + year_len y \<le> 145731"
proof -
  have "y \<in> set [0..399]" using assms by simp
  with year_ends_check show "yoe_of (year_start y) = y" "yoe_of (year_start y + year_len y - 1) = y"
    "y < 399 \<Longrightarrow> year_start (y + 1) = year_start y + year_len y"
    "y < 399 \<Longrightarrow> year_start y + year_len y \<le> 145731"
    unfolding list_all_iff by fastforce+
qed

lemma year_nonneg: "0 \<le> y \<Longrightarrow> 0 \<le> year_start y"
  unfolding year_start_def by linarith

lemma last_days [simp]: "yoe_of 146095 = 399" "yoe_of 146096 = 399" "year_start 399 = 145731"
  "year_len 399 = 366" "year_start 0 = 0" "yoe_of 0 = 0"
  by (simp_all add: yoe_of_def year_start_def year_len_def leap_def)

lemma year_containing:
  assumes "0 \<le> doe" and "doe < year_start (int n) + year_len (int n)" and "n \<le> 399"
  shows "\<exists>y. 0 \<le> y \<and> y \<le> int n \<and> year_start y \<le> doe \<and> doe < year_start y + year_len y"
  using assms
proof (induction n)
  case (Suc n)
  show ?case
  proof (cases "doe < year_start (int (Suc n))")
    case True
    moreover have "year_start (int n + 1) = year_start (int n) + year_len (int n)"
      using Suc.prems(3) by (intro year_facts(3)) auto
    ultimately show ?thesis using Suc by (fastforce simp: add.commute)
  next
    case False
    with Suc.prems show ?thesis by (intro exI [of _ "int (Suc n)"]) auto
  qed
qed auto

lemma yoe_exact:
  assumes "0 \<le> y" and "y \<le> 399" and "year_start y \<le> doe" and "doe < year_start y + year_len y"
  shows "yoe_of doe = y"
proof -
  have pos: "0 \<le> year_start y" using assms(1) by (rule year_nonneg)
  show ?thesis
  proof (cases "y = 399")
    case True
    with assms have "doe = 146096 \<or> doe \<le> 146095" by auto
    then show ?thesis
      using True assms pos yoe_mono [of "year_start 399" doe] yoe_mono [of doe 146095]
        year_facts(1) [of 399]
      by auto
  next
    case False
    then have "year_start y + year_len y - 1 < 146096"
      using assms year_facts(4) [of y] by auto
    then show ?thesis
      using assms pos yoe_mono [of "year_start y" doe] yoe_mono [of doe "year_start y + year_len y - 1"]
        year_facts(1,2) [OF assms(1,2)]
      by auto
  qed
qed

lemma year_of_era:
  assumes "0 \<le> doe" and "doe < 146097"
  obtains y where "0 \<le> y" "y \<le> 399" "yoe_of doe = y" "doy_of doe = doe - year_start y"
    "0 \<le> doy_of doe" "doy_of doe < year_len y"
proof -
  obtain y where y: "0 \<le> y" "y \<le> 399" "year_start y \<le> doe" "doe < year_start y + year_len y"
    using year_containing [of doe 399] assms by auto
  then have "yoe_of doe = y" by (rule yoe_exact)
  with y show thesis by (intro that) (auto simp: doy_of_def year_start_def Let_def)
qed

section \<open>Months of a year\<close>

definition plain_month_len :: "int \<Rightarrow> int" where
  "plain_month_len m = (if m = 2 then 28 else if m \<in> {4, 6, 9, 11} then 30 else 31)"

lemma month_day_check:
  "list_all (\<lambda>doy. case month_day doy of (m, d) \<Rightarrow> case month_day (doy + 1) of (m', d') \<Rightarrow>
     (if d < plain_month_len m then m' = m \<and> d' = d + 1
      else m \<noteq> 2 \<and> d = plain_month_len m \<and> d' = 1 \<and> (if m < 12 then m' = m + 1 \<and> m' \<noteq> 3 else m' = 1))
     \<and> 1 \<le> m \<and> m \<le> 12 \<and> 1 \<le> d \<and> d \<le> 31) [0..363]"
  by code_simp

lemma month_day_ends [simp]: "month_day 0 = (3, 1)" "month_day 364 = (2, 28)" "month_day 365 = (2, 29)"
  by (simp_all add: month_day_def)

text \<open>The civil date of a day within a March year \<open>y\<close>.\<close>

definition date_in :: "int \<Rightarrow> int \<Rightarrow> int \<times> int \<times> int" where
  "date_in y doy = (case month_day doy of (m, d) \<Rightarrow> (y + (if m \<le> 2 then 1 else 0), m, d))"

lemma next_within_year:
  assumes "0 \<le> doy" and "doy < 364 \<or> doy = 364 \<and> leap (y + 1)"
  shows "next_day (date_in y doy) = date_in y (doy + 1)"
proof (cases "doy = 364")
  case True
  with assms show ?thesis by (simp add: date_in_def next_day_def days_in_month_def)
next
  case False
  obtain m d m' d' where md: "month_day doy = (m, d)" "month_day (doy + 1) = (m', d')" by fastforce
  have "doy \<in> set [0..363]" using False assms by auto
  then have "(if d < plain_month_len m then m' = m \<and> d' = d + 1
      else m \<noteq> 2 \<and> d = plain_month_len m \<and> d' = 1 \<and> (if m < 12 then m' = m + 1 \<and> m' \<noteq> 3 else m' = 1))
      \<and> 1 \<le> m \<and> m \<le> 12"
    using month_day_check md unfolding list_all_iff by fastforce
  then show ?thesis
    by (auto simp: date_in_def md next_day_def days_in_month_def plain_month_len_def
        split: if_splits)
qed

lemma next_year:
  "next_day (date_in y (year_len y' - 1)) = date_in (y + 1) 0" if "leap (y' + 1) = leap (y + 1)"
  using that by (auto simp: year_len_def date_in_def next_day_def days_in_month_def)

section \<open>Days since the epoch\<close>

lemma leap_era: "leap (y + era * 400) = leap y"
proof -
  have "(y + era * 100 * 4) mod 4 = y mod 4" "(y + era * 4 * 100) mod 100 = y mod 100"
    "(y + era * 400) mod 400 = y mod 400"
    by (rule mod_mult_self1)+
  then show ?thesis by (simp add: leap_def mult.assoc)
qed

definition date_at :: "int \<Rightarrow> int \<times> int \<times> int" where
  "date_at z = date_in (yoe_of (z mod 146097) + z div 146097 * 400) (doy_of (z mod 146097))"

lemma civil_from_days_eq: "civil_from_days n = date_at (int n + 719468)"
proof -
  have "z - z div 146097 * 146097 = z mod 146097" for z :: int
    by (simp add: minus_div_mult_eq_mod)
  then show ?thesis
    by (simp add: civil_from_days_def date_at_def date_in_def Let_def split: prod.splits)
qed

lemma succ_div_mod:
  fixes z :: int
  assumes "0 < k"
  shows "z mod k = k - 1 \<Longrightarrow> (z + 1) mod k = 0 \<and> (z + 1) div k = z div k + 1"
    and "z mod k < k - 1 \<Longrightarrow> (z + 1) mod k = z mod k + 1 \<and> (z + 1) div k = z div k"
proof -
  have z: "z = k * (z div k) + z mod k" by simp
  show "z mod k = k - 1 \<Longrightarrow> (z + 1) mod k = 0 \<and> (z + 1) div k = z div k + 1"
  proof -
    assume "z mod k = k - 1"
    with z have "z + 1 = k * (z div k + 1) + 0" by (simp add: distrib_left)
    with assms show ?thesis
      using int_div_pos_eq [of "z + 1" k "z div k + 1" 0] int_mod_pos_eq [of "z + 1" k "z div k + 1" 0]
      by simp
  qed
  show "z mod k < k - 1 \<Longrightarrow> (z + 1) mod k = z mod k + 1 \<and> (z + 1) div k = z div k"
    using assms z int_div_pos_eq [of "z + 1" k "z div k" "z mod k + 1"]
      int_mod_pos_eq [of "z + 1" k "z div k" "z mod k + 1"]
    by simp
qed

lemma date_at_step: "date_at (z + 1) = next_day (date_at z)"
proof -
  define era where "era = z div 146097"
  define doe where "doe = z mod 146097"
  have "0 \<le> doe" "doe < 146097" by (auto simp: doe_def)
  then obtain y where y: "0 \<le> y" "y \<le> 399" "yoe_of doe = y" "doy_of doe = doe - year_start y"
    "0 \<le> doy_of doe" "doy_of doe < year_len y" by (rule year_of_era)
  have now: "date_at z = date_in (y + era * 400) (doe - year_start y)"
    using y by (simp add: date_at_def era_def doe_def)
  have leap: "leap (y + era * 400 + 1) = leap (y + 1)"
    using leap_era [of "y + 1" era] by (simp add: algebra_simps)
  have len: "year_len y \<in> {365, 366}" by (simp add: year_len_def)
  consider (last) "doe = 146096" | (wrap) "doe < 146096" "doe - year_start y = year_len y - 1"
    | (inner) "doe < 146096" "doe - year_start y < year_len y - 1"
    using y \<open>doe < 146097\<close> by linarith
  then show ?thesis
  proof cases
    case last
    then have "(z + 1) mod 146097 = 0" and "(z + 1) div 146097 = era + 1"
      using succ_div_mod(1) [of 146097 z] unfolding doe_def era_def by simp_all
    then have "date_at (z + 1) = date_in ((era + 1) * 400) 0"
      by (simp add: date_at_def doy_of_def)
    moreover have "y = 399" using last y(3) by simp
    ultimately show ?thesis
      using now last next_year [of 399 "399 + era * 400"] leap by (simp add: algebra_simps)
  next
    case wrap
    then have "y \<noteq> 399" using y by auto
    then have start: "year_start (y + 1) = doe + 1" using wrap y year_facts(3) [of y] by simp
    then have "yoe_of (doe + 1) = y + 1"
      using y \<open>y \<noteq> 399\<close> by (intro yoe_exact) (auto simp: year_len_def)
    then have "doy_of (doe + 1) = 0" using start by (simp add: doy_of_def year_start_def Let_def)
    moreover have "(z + 1) mod 146097 = doe + 1" and "(z + 1) div 146097 = era"
      using wrap(1) succ_div_mod(2) [of 146097 z] unfolding doe_def era_def by simp_all
    ultimately have "date_at (z + 1) = date_in (y + 1 + era * 400) 0"
      using \<open>yoe_of (doe + 1) = y + 1\<close> by (simp add: date_at_def)
    then show ?thesis
      using now wrap(2) next_year [of y "y + era * 400"] leap by (simp add: algebra_simps)
  next
    case inner
    then have "yoe_of (doe + 1) = y" using y by (intro yoe_exact) auto
    moreover have "(z + 1) mod 146097 = doe + 1" and "(z + 1) div 146097 = era"
      using inner(1) succ_div_mod(2) [of 146097 z] unfolding doe_def era_def by simp_all
    ultimately have "date_at (z + 1) = date_in (y + era * 400) (doe - year_start y + 1)"
      by (simp add: date_at_def doy_of_def year_start_def diff_add_eq)
    moreover have "doe - year_start y < 364 \<or> doe - year_start y = 364 \<and> leap (y + era * 400 + 1)"
      using inner(2) leap by (auto simp: year_len_def split: if_splits)
    ultimately show ?thesis using now next_within_year y by simp
  qed
qed

lemma civil_step: "civil_from_days (Suc n) = next_day (civil_from_days n)"
  using date_at_step [of "int n + 719468"] by (simp add: civil_from_days_eq add.commute add.left_commute)

lemma civil_zero: "civil_from_days 0 = (1970, 1, 1)"
  by code_simp

text \<open>
  C40. The date is the calendar's. For every number of seconds the date part of
  \<open>civil_from_epoch_secs\<close> is the result of stepping that many whole days through the Gregorian
  calendar from 1970-01-01, and hour, minute and second are the rest in mixed radix.
\<close>

theorem civil_is_calendar:
  "let t = civil_from_epoch_secs s in
     (year t, month t, day t) = (next_day ^^ (s div 86400)) (1970, 1, 1)
     \<and> s mod 86400 = hour t * 3600 + minute t * 60 + second t
     \<and> hour t < 24 \<and> minute t < 60 \<and> second t < 60"
proof -
  have "civil_from_days n = (next_day ^^ n) (1970, 1, 1)" for n
    by (induction n) (simp_all add: civil_step civil_zero)
  moreover have "r = r div 3600 * 3600 + r mod 3600 div 60 * 60 + r mod 60" for r :: nat
  proof -
    have "r mod 3600 = r mod 3600 div 60 * 60 + r mod 60"
      using div_mult_mod_eq [of "r mod 3600" 60] by (simp add: mod_mod_cancel)
    then show ?thesis using div_mult_mod_eq [of r 3600] by linarith
  qed
  moreover have "s mod 86400 div 3600 < 24" by (simp add: less_mult_imp_div_less)
  ultimately show ?thesis
    by (auto simp: civil_from_epoch_secs_def Let_def less_mult_imp_div_less split: prod.splits)
qed

text \<open>Every intermediate value fits the type the code gives it.\<close>

lemma civil_ranges:
  assumes "0 \<le> doe" and "doe < 146097"
  shows "0 \<le> yoe_of doe \<and> yoe_of doe < 400 \<and> 0 \<le> doy_of doe \<and> doy_of doe \<le> 365"
  using assms by (rule year_of_era) (auto simp: year_len_def split: if_splits)

end
