(* ===== verification/Snapshot.thy ===== *)
theory Snapshot
  imports Barrier Policy_Token Time_Format "HOL-Library.AList"
begin

text \<open>
  \<open>src/resolver/snapshot.rs\<close>: the table the HTTP layer answers out of, and the slot it is swapped
  through. Building it runs the token table, the log key and the barrier in the order of the code
  and stops at the first error. Shown here: every secret of the file is served back as the file's
  own text and nothing else is; the identifier computed at load time is the one computed on demand;
  a listing is exactly the immediate children, in order and once each; and what \<open>permits\<close> allows,
  traced back to the lines of the file.
\<close>

section \<open>snapshot.rs\<close>

text \<open>The parts of other packages and of the operating system a build uses.\<close>

record runtime =
  rt_aead :: aead_lib
  rt_hmac :: hmac_fun
  rt_platform :: platform
  rt_mlock :: "nat \<Rightarrow> nat \<Rightarrow> int"
  rt_from_slice :: "bytes \<Rightarrow> view option"

text \<open>What one build draws from outside: random bytes, the address and size of the box, the time.\<close>

record draw =
  d_fill :: "bytes option"
  d_at :: nat
  d_size :: nat
  d_now :: int

record secret_entry =
  se_sealed :: sealed
  se_path_id :: string

record snapshot =
  sn_version :: u64
  sn_etag :: "string option"
  sn_loaded_at :: int
  sn_loaded_at_rfc3339 :: string
  sn_secrets :: "(string \<times> secret_entry) list"
  sn_barrier :: barrier
  sn_tokens :: "token_table option"
  sn_sorted_paths :: "string list"
  sn_log_key :: "log_key option"

datatype snapshot_error = Tokens token_error | Barrier_Error seal_error

definition entry_path_id :: "hmac_fun \<Rightarrow> log_key option \<Rightarrow> string \<Rightarrow> string" where
  "entry_path_id hmac log_key path = (case log_key of None \<Rightarrow> id_NONE | Some k \<Rightarrow> log_id hmac k path)"

text \<open>The loop over the secrets, with the barrier, the hash map and the path list it changes.\<close>

fun seal_secrets ::
  "aead_lib \<Rightarrow> hmac_fun \<Rightarrow> log_key option \<Rightarrow> barrier \<Rightarrow> (string \<times> secret_entry) list
     \<Rightarrow> string list \<Rightarrow> string btree
     \<Rightarrow> seal_error + (barrier \<times> (string \<times> secret_entry) list \<times> string list)" where
  "seal_secrets lib hmac lk b acc paths [] = Inr (b, acc, paths)"
| "seal_secrets lib hmac lk b acc paths ((path, value) # rest) =
     (let path_id = entry_path_id hmac lk path in
      case barrier_seal lib b (as_bytes value) of
        (b', Inl e) \<Rightarrow> Inl e
      | (b', Inr s) \<Rightarrow>
          seal_secrets lib hmac lk b'
            (AList.update path \<lparr>se_sealed = s, se_path_id = path_id\<rparr> acc) (paths @ [path]) rest)"

definition build_tokens :: "view \<Rightarrow> token_error + token_table option" where
  "build_tokens v =
     (case v_token_key v of
        Some key_hex \<Rightarrow>
          (case table_build key_hex (v_tokens v) (v_policies v) of
             Inl e \<Rightarrow> Inl e
           | Inr t \<Rightarrow> Inr (Some t))
      | None \<Rightarrow>
          if v_tokens v = [] then Inr None else Inl (KeyMissing (length (v_tokens v))))"

definition snapshot_build ::
  "runtime \<Rightarrow> draw \<Rightarrow> view \<Rightarrow> string option \<Rightarrow> snapshot_error + snapshot" where
  "snapshot_build rt dr v etag =
     (case build_tokens v of
        Inl e \<Rightarrow> Inl (Tokens e)
      | Inr tokens \<Rightarrow>
          (let log_key = map_option (\<lambda>t. log_key_from_bytes (table_derive (rt_hmac rt) t LOG_LABEL))
                           tokens
           in case barrier_new (rt_aead rt) (rt_platform rt) (rt_mlock rt) (d_fill dr) (d_at dr)
                     (d_size dr) of
                Inl e \<Rightarrow> Inl (Barrier_Error e)
              | Inr b \<Rightarrow>
                  (case seal_secrets (rt_aead rt) (rt_hmac rt) log_key b [] [] (v_secrets v) of
                     Inl e \<Rightarrow> Inl (Barrier_Error e)
                   | Inr (b', secrets, paths) \<Rightarrow>
                       Inr \<lparr>sn_version = v_version v, sn_etag = etag, sn_loaded_at = d_now dr,
                            sn_loaded_at_rfc3339 = rfc3339_from_system_time (d_now dr),
                            sn_secrets = secrets, sn_barrier = b', sn_tokens = tokens,
                            sn_sorted_paths = sort paths, sn_log_key = log_key\<rparr>)))"

definition has_secret :: "snapshot \<Rightarrow> string \<Rightarrow> bool" where
  "has_secret sn path \<longleftrightarrow> map_of (sn_secrets sn) path \<noteq> None"

text \<open>The scratch buffer is the worker's; \<open>None\<close> is a path that is not in the file.\<close>

definition with_secret ::
  "aead_lib \<Rightarrow> snapshot \<Rightarrow> string \<Rightarrow> (string \<Rightarrow> 'r) \<Rightarrow> bytes \<Rightarrow> (bytes \<times> (seal_error + 'r)) option" where
  "with_secret lib sn path f scratch =
     (case map_of (sn_secrets sn) path of
        None \<Rightarrow> None
      | Some e \<Rightarrow> Some (with_plaintext lib (sn_barrier sn) (se_sealed e) f scratch))"

definition sealed_secrets :: "snapshot \<Rightarrow> sealed list" where
  "sealed_secrets sn = map (\<lambda>(_, e). se_sealed e) (sn_secrets sn)"

definition path_id :: "hmac_fun \<Rightarrow> snapshot \<Rightarrow> string \<Rightarrow> log_key \<Rightarrow> string" where
  "path_id hmac sn path fallback =
     (case (map_of (sn_secrets sn) path, sn_log_key sn) of
        (Some e, Some _) \<Rightarrow> se_path_id e
      | (None, Some k) \<Rightarrow> log_id hmac k path
      | (_, None) \<Rightarrow> log_id hmac fallback path)"

definition snapshot_token_id :: "hmac_fun \<Rightarrow> snapshot \<Rightarrow> string option \<Rightarrow> string" where
  "snapshot_token_id hmac sn presented =
     (case (sn_tokens sn, presented) of
        (Some t, Some p) \<Rightarrow> id_from_bytes (table_token_id hmac t p)
      | _ \<Rightarrow> id_NONE)"

definition enforces :: "snapshot \<Rightarrow> bool" where
  "enforces sn \<longleftrightarrow> sn_tokens sn \<noteq> None"

definition unknown_policies :: "snapshot \<Rightarrow> string list" where
  "unknown_policies sn = (case sn_tokens sn of None \<Rightarrow> [] | Some t \<Rightarrow> t_unknown t)"

definition token_count :: "snapshot \<Rightarrow> nat" where
  "token_count sn = (case sn_tokens sn of None \<Rightarrow> 0 | Some t \<Rightarrow> table_len t)"

definition snapshot_grant :: "hmac_fun \<Rightarrow> snapshot \<Rightarrow> string option \<Rightarrow> grant option" where
  "snapshot_grant hmac sn presented =
     (case sn_tokens sn of
        None \<Rightarrow> None
      | Some t \<Rightarrow> (case presented of None \<Rightarrow> None | Some p \<Rightarrow> table_lookup hmac t p))"

text \<open>The answer is \<open>None\<close> where matching a pattern would panic.\<close>

definition permits ::
  "hmac_fun \<Rightarrow> snapshot \<Rightarrow> string option \<Rightarrow> string \<Rightarrow> capability \<Rightarrow> bool option" where
  "permits hmac sn presented path cap =
     (case sn_tokens sn of
        None \<Rightarrow> Some True
      | Some t \<Rightarrow>
          (case presented of
             None \<Rightarrow> Some False
           | Some p \<Rightarrow>
               (case table_lookup hmac t p of
                  None \<Rightarrow> Some False
                | Some g \<Rightarrow> allows (g_rules g) path cap)))"

definition secret_count :: "snapshot \<Rightarrow> nat" where
  "secret_count sn = length (sn_secrets sn)"

text \<open>\<open>partition_point\<close> on a list that is partitioned by the predicate.\<close>

definition partition_point :: "('a \<Rightarrow> bool) \<Rightarrow> 'a list \<Rightarrow> nat" where
  "partition_point P xs = length (takeWhile P xs)"

definition child_of :: "string \<Rightarrow> string" where
  "child_of rest =
     (case find_str ''/'' rest of Some slash \<Rightarrow> take slash rest @ ''/'' | None \<Rightarrow> rest)"

fun children_loop :: "string \<Rightarrow> string list \<Rightarrow> string list \<Rightarrow> string list" where
  "children_loop pre [] seen = seen"
| "children_loop pre (path # paths) seen =
     (case strip_prefix pre path of
        None \<Rightarrow> seen
      | Some rest \<Rightarrow>
          (let child = child_of rest in
           children_loop pre paths (if seen \<noteq> [] \<and> last seen = child then seen else seen @ [child])))"

definition children :: "snapshot \<Rightarrow> string \<Rightarrow> string list" where
  "children sn pre =
     (let start = partition_point (\<lambda>p. p < pre) (sn_sorted_paths sn)
      in children_loop pre (drop start (sn_sorted_paths sn)) [])"

text \<open>\<open>quoted\<close> is the \<open>Debug\<close> form of a string.\<close>

definition snapshot_debug :: "(string \<Rightarrow> string) \<Rightarrow> snapshot \<Rightarrow> string" where
  "snapshot_debug quoted sn =
     ''Snapshot { version: '' @ show_nat (unat (sn_version sn))
     @ '', etag: '' @ (case sn_etag sn of None \<Rightarrow> ''None'' | Some e \<Rightarrow> ''Some('' @ quoted e @ '')'')
     @ '', secrets: <'' @ show_nat (secret_count sn) @ '' REDACTED>''
     @ '', enforces: '' @ (if enforces sn then ''true'' else ''false'')
     @ '', tokens: '' @ show_nat (token_count sn) @ '' }''"

type_synonym slot = "snapshot option"

definition slot_empty :: slot where
  "slot_empty = None"

definition slot_load :: "slot \<Rightarrow> snapshot option" where
  "slot_load s = s"

definition slot_store :: "slot \<Rightarrow> snapshot \<Rightarrow> slot" where
  "slot_store s sn = Some sn"

definition slot_version :: "slot \<Rightarrow> u64 option" where
  "slot_version s = map_option sn_version s"

section \<open>Building\<close>

lemma snapshot_build_Inr:
  assumes "snapshot_build rt dr v etag = Inr sn"
  obtains b where "build_tokens v = Inr (sn_tokens sn)"
    "sn_log_key sn = map_option (\<lambda>t. log_key_from_bytes (table_derive (rt_hmac rt) t LOG_LABEL)) (sn_tokens sn)"
    "barrier_new (rt_aead rt) (rt_platform rt) (rt_mlock rt) (d_fill dr) (d_at dr) (d_size dr) = Inr b"
    "\<exists>paths. seal_secrets (rt_aead rt) (rt_hmac rt) (sn_log_key sn) b [] [] (v_secrets v)
       = Inr (sn_barrier sn, sn_secrets sn, paths) \<and> sn_sorted_paths sn = sort paths"
    "sn_version sn = v_version v" "sn_etag sn = etag"
  using assms
  by (auto simp: snapshot_build_def Let_def split: sum.splits prod.splits)

lemma seal_secrets_key:
  "seal_secrets lib hmac lk b acc paths xs = Inr (b', acc', paths') \<Longrightarrow> b_key b' = b_key b"
proof (induction xs arbitrary: b acc paths)
  case (Cons x xs)
  obtain path tx where x: "x = (path, tx)" by fastforce
  obtain b1 s where "barrier_seal lib b (as_bytes tx) = (b1, Inr s)"
    using Cons.prems by (auto simp: x Let_def split: prod.splits sum.splits)
  moreover from this have "b_key b1 = b_key b"
    by (metis barrier_seal_state(1) fst_conv)
  ultimately show ?case using Cons by (auto simp: x Let_def)
qed simp

lemma seal_secrets_paths:
  "seal_secrets lib hmac lk b acc paths xs = Inr (b', acc', paths') \<Longrightarrow> paths' = paths @ map fst xs"
  by (induction xs arbitrary: b acc paths)
    (fastforce simp: Let_def split: prod.splits sum.splits)+

text \<open>What the entry of a path holds: a sealing under the barrier's key, and its identifier.\<close>

definition entry_for :: "aead_lib \<Rightarrow> hmac_fun \<Rightarrow> log_key option \<Rightarrow> bytes \<Rightarrow> string \<Rightarrow> string \<Rightarrow> secret_entry \<Rightarrow> bool" where
  "entry_for lib hmac lk key path text e \<longleftrightarrow>
     se_path_id e = entry_path_id hmac lk path
     \<and> (\<exists>b. b_key b = key \<and> snd (barrier_seal lib b (as_bytes text)) = Inr (se_sealed e))"

lemma seal_secrets_entries:
  assumes "seal_secrets lib hmac lk b acc paths xs = Inr (b', acc', paths')"
    and "distinct (map fst xs)"
  shows "case map_of xs p of
           None \<Rightarrow> map_of acc' p = map_of acc p
         | Some text \<Rightarrow> \<exists>e. map_of acc' p = Some e \<and> entry_for lib hmac lk (b_key b) p text e"
  using assms
proof (induction xs arbitrary: b acc paths)
  case (Cons x xs)
  obtain path tx where x: "x = (path, tx)" by fastforce
  obtain b1 s where s: "barrier_seal lib b (as_bytes tx) = (b1, Inr s)"
    using Cons.prems(1) by (auto simp: x Let_def split: prod.splits sum.splits)
  then have key: "b_key b1 = b_key b" by (metis barrier_seal_state(1) fst_conv)
  let ?e = "\<lparr>se_sealed = s, se_path_id = entry_path_id hmac lk path\<rparr>"
  have e: "entry_for lib hmac lk (b_key b) path tx ?e"
    using s by (auto simp: entry_for_def intro!: exI [of _ b])
  have "seal_secrets lib hmac lk b1 (AList.update path ?e acc) (paths @ [path]) xs = Inr (b', acc', paths')"
    using Cons.prems(1) s by (simp add: x)
  from Cons.IH [OF this, unfolded key] Cons.prems(2)
  have IH: "case map_of xs p of
           None \<Rightarrow> map_of acc' p = map_of (AList.update path ?e acc) p
         | Some text \<Rightarrow> \<exists>e. map_of acc' p = Some e \<and> entry_for lib hmac lk (b_key b) p text e"
    by simp
  show ?case
  proof (cases "p = path")
    case True
    then have "map_of xs p = None"
      using Cons.prems(2) by (simp add: x map_of_eq_None_iff)
    with IH e True show ?thesis by (simp add: x AList.update_conv')
  next
    case False
    with IH show ?thesis by (simp add: x AList.update_conv' split: option.splits)
  qed
qed simp

lemma snapshot_entries:
  assumes "snapshot_build rt dr v etag = Inr sn" and "btree_ok (v_secrets v)"
  shows "case map_of (v_secrets v) p of
           None \<Rightarrow> map_of (sn_secrets sn) p = None
         | Some text \<Rightarrow> \<exists>e. map_of (sn_secrets sn) p = Some e
             \<and> entry_for (rt_aead rt) (rt_hmac rt) (sn_log_key sn) (b_key (sn_barrier sn)) p text e"
proof -
  obtain b paths where "seal_secrets (rt_aead rt) (rt_hmac rt) (sn_log_key sn) b [] [] (v_secrets v)
       = Inr (sn_barrier sn, sn_secrets sn, paths)"
    using assms(1) by (rule snapshot_build_Inr) blast
  from seal_secrets_entries [OF this, of p] seal_secrets_key [OF this] assms(2)
  show ?thesis by (cases "map_of (v_secrets v) p") (simp_all add: btree_ok_def)
qed

text \<open>What a JSON reader returns: maps in key order, and text.\<close>

definition parser_ok :: "(bytes \<Rightarrow> view option) \<Rightarrow> bool" where
  "parser_ok from_slice \<longleftrightarrow>
     (\<forall>body v. from_slice body = Some v \<longrightarrow> btree_ok (v_secrets v) \<and> (\<forall>(p, t) \<in> set (v_secrets v). valid_utf8 t))"

lemma with_secret_file:
  assumes "aead_round_trip (rt_aead rt)" and built: "snapshot_build rt dr v etag = Inr sn"
    and "btree_ok (v_secrets v)" and utf8: "\<And>p t. (p, t) \<in> set (v_secrets v) \<Longrightarrow> valid_utf8 t"
  shows "map_option snd (with_secret (rt_aead rt) sn path f scratch) =
    map_option (\<lambda>t. Inr (f t)) (map_of (v_secrets v) path)"
proof (cases "map_of (v_secrets v) path")
  case None
  with snapshot_entries [OF built assms(3), of path] show ?thesis by (simp add: with_secret_def)
next
  case (Some t)
  with snapshot_entries [OF built assms(3), of path] obtain e b where
    e: "map_of (sn_secrets sn) path = Some e" and key: "b_key (sn_barrier sn) = b_key b"
    and sealed: "snd (barrier_seal (rt_aead rt) b (as_bytes t)) = Inr (se_sealed e)"
    by (auto simp: entry_for_def) metis
  have "valid_utf8 t" using Some utf8 by (auto dest: map_of_SomeD)
  from with_plaintext_seal [OF assms(1) this sealed key] e Some show ?thesis
    by (simp add: with_secret_def)
qed

text \<open>The identifier stored at load time is the identifier of the path.\<close>

lemma path_id_file:
  assumes "snapshot_build rt dr v etag = Inr sn" and "btree_ok (v_secrets v)"
  shows "path_id (rt_hmac rt) sn path fallback =
    log_id (rt_hmac rt) (case sn_log_key sn of Some k \<Rightarrow> k | None \<Rightarrow> fallback) path"
  using snapshot_entries [OF assms, of path]
  by (auto simp: path_id_def entry_for_def entry_path_id_def split: option.splits)

text \<open>
  C16. Every secret of the file is served, verbatim, and nothing else is: opening a path of a built
  snapshot yields the JSON text the file holds for it, and a path the file does not hold is absent.
  For every path, in the file or not, the access log gets the keyed hash of the path under the
  file's log key, or under the fallback key when the file has no token key.
\<close>

theorem snapshot_serves_file:
  assumes "aead_round_trip (rt_aead rt)" and built: "snapshot_build rt dr v etag = Inr sn"
    and "btree_ok (v_secrets v)" and utf8: "\<And>p t. (p, t) \<in> set (v_secrets v) \<Longrightarrow> valid_utf8 t"
  shows "map_option snd (with_secret (rt_aead rt) sn path f scratch) =
      map_option (\<lambda>t. Inr (f t)) (map_of (v_secrets v) path)
    \<and> has_secret sn path = (path \<in> set (map fst (v_secrets v)))
    \<and> path_id (rt_hmac rt) sn path fallback =
      log_id (rt_hmac rt) (case sn_log_key sn of Some k \<Rightarrow> k | None \<Rightarrow> fallback) path"
proof (intro conjI)
  show "has_secret sn path = (path \<in> set (map fst (v_secrets v)))"
  proof (cases "map_of (v_secrets v) path")
    case None
    with snapshot_entries [OF built assms(3), of path] show ?thesis
      by (simp add: has_secret_def map_of_eq_None_iff)
  next
    case (Some t)
    with snapshot_entries [OF built assms(3), of path] show ?thesis
      by (force simp: has_secret_def dest: map_of_SomeD)
  qed
  show "map_option snd (with_secret (rt_aead rt) sn path f scratch) =
      map_option (\<lambda>t. Inr (f t)) (map_of (v_secrets v) path)"
    using assms by (rule with_secret_file)
  show "path_id (rt_hmac rt) sn path fallback =
      log_id (rt_hmac rt) (case sn_log_key sn of Some k \<Rightarrow> k | None \<Rightarrow> fallback) path"
    using built assms(3) by (rule path_id_file)
qed

section \<open>Listing\<close>

fun first_step :: "string \<Rightarrow> string" where
  "first_step [] = []"
| "first_step (x # xs) = (if x = CHR ''/'' then ''/'' else x # first_step xs)"

lemma child_of_first_step: "child_of rest = first_step rest"
proof (induction rest)
  case (Cons x xs)
  then show ?case
    by (auto simp: child_of_def starts_with_def split: option.splits)
qed (simp add: child_of_def)

lemma first_step_mono: "r \<le> s \<Longrightarrow> first_step r \<le> first_step s"
proof (induction r arbitrary: s)
  case (Cons x xs)
  then show ?case by (cases s) auto
qed simp

lemma prefix_le: "(p :: string) \<le> p @ r"
  by (induction p) auto

lemma append_le_iff: "(p @ r \<le> p @ s) = (r \<le> (s :: string))"
  by (induction p) auto

lemma append_less_iff: "(p @ r < p @ s) = (r < (s :: string))"
  by (induction p) auto

lemma prefix_between:
  "(p :: string) \<le> q \<Longrightarrow> q \<le> p @ r \<Longrightarrow> \<exists>t. q = p @ t"
proof (induction p arbitrary: q)
  case (Cons x xs)
  then show ?case by (cases q) auto
qed simp

lemma children_loop_eq:
  "children_loop pre paths seen =
     (let kids = map (\<lambda>p. first_step (drop (length pre) p)) (takeWhile (starts_with pre) paths) in
      if seen = [] then remdups_adj kids else butlast seen @ remdups_adj (last seen # kids))"
proof (induction paths arbitrary: seen)
  case Nil
  then show ?case by simp
next
  case (Cons path paths)
  show ?case
  proof (cases "starts_with pre path")
    case False
    then show ?thesis by (simp add: strip_prefix_def)
  next
    case True
    let ?c = "first_step (drop (length pre) path)"
    have split: "butlast seen @ last seen # ys = seen @ ys" if "seen \<noteq> []" for ys
      using that by (metis append_Cons append_Nil append_assoc append_butlast_last_id)
    have step: "strip_prefix pre path = Some (drop (length pre) path)"
      using True by (simp add: strip_prefix_def)
    show ?thesis
    proof (cases "seen \<noteq> [] \<and> last seen = ?c")
      case True
      then show ?thesis
        using \<open>starts_with pre path\<close> by (simp add: step Cons.IH child_of_first_step Let_def)
    next
      case False
      then show ?thesis
        using \<open>starts_with pre path\<close>
        by (cases "seen = []") (simp_all add: step Cons.IH child_of_first_step Let_def split)
    qed
  qed
qed

lemma sorted_prefix_range:
  fixes ps :: "string list"
  assumes "sorted ps"
  shows "takeWhile (starts_with pre) (dropWhile (\<lambda>p. p < pre) ps) = filter (starts_with pre) ps"
  using assms
proof (induction ps)
  case (Cons p ps)
  consider (below) "p < pre" | (in_range) "\<not> p < pre" "starts_with pre p"
    | (above) "\<not> p < pre" "\<not> starts_with pre p" by blast
  then show ?case
  proof cases
    case below
    then have "\<not> starts_with pre p" using prefix_le by (auto simp: str_iffs not_less [symmetric])
    with below Cons show ?thesis by simp
  next
    case in_range
    then have pre: "pre \<le> p" by simp
    then have "dropWhile (\<lambda>q. q < pre) ps = ps"
      using Cons.prems by (cases ps) auto
    with in_range Cons show ?thesis by simp
  next
    case above
    have "\<not> starts_with pre q" if "q \<in> set ps" for q
    proof
      assume "starts_with pre q"
      then obtain r where "q = pre @ r" by (auto simp: str_iffs)
      moreover have "pre \<le> p" "p \<le> q" using above Cons.prems that by auto
      ultimately have "starts_with pre p" using prefix_between by (auto simp: str_iffs)
      with above show False by simp
    qed
    then have "filter (starts_with pre) ps = []" by (simp add: filter_empty_conv)
    with above show ?thesis by simp
  qed
qed simp

lemma remdups_adj_sorted: "sorted xs \<Longrightarrow> sorted (remdups_adj xs) \<and> distinct (remdups_adj xs)"
proof (induction xs rule: remdups_adj.induct)
  case (3 x y xs)
  show ?case
  proof (cases "x = y")
    case True
    with 3 show ?thesis by simp
  next
    case False
    with 3 have IH: "sorted (remdups_adj (y # xs)) \<and> distinct (remdups_adj (y # xs))" by simp
    moreover have "x < z" if "z \<in> set (remdups_adj (y # xs))" for z
      using that 3(3) False by (auto simp: less_le)
    ultimately show ?thesis using False by (fastforce simp: less_le)
  qed
qed simp_all

lemma children_eq:
  assumes "sorted (sn_sorted_paths sn)"
  shows "children sn pre = remdups_adj (map (\<lambda>p. child_of (drop (length pre) p))
    (filter (starts_with pre) (sn_sorted_paths sn)))"
proof -
  have "drop (partition_point P xs) xs = dropWhile P xs" for P and xs :: "string list"
    by (simp add: partition_point_def dropWhile_eq_drop)
  then show ?thesis
    by (simp add: children_def children_loop_eq sorted_prefix_range [OF assms] child_of_first_step)
qed

lemma snapshot_paths:
  assumes "snapshot_build rt dr v etag = Inr sn"
  shows "sn_sorted_paths sn = sort (map fst (v_secrets v))"
proof -
  obtain b paths where "seal_secrets (rt_aead rt) (rt_hmac rt) (sn_log_key sn) b [] [] (v_secrets v)
       = Inr (sn_barrier sn, sn_secrets sn, paths)" and "sn_sorted_paths sn = sort paths"
    using assms by (rule snapshot_build_Inr) blast
  then show ?thesis using seal_secrets_paths by fastforce
qed

text \<open>The first step of a path, said without a search: all of it, or up to and including its first slash.\<close>

lemma first_step_iff:
  "first_step rest = c \<longleftrightarrow>
     CHR ''/'' \<notin> set rest \<and> c = rest
     \<or> (\<exists>a b. rest = a @ ''/'' @ b \<and> CHR ''/'' \<notin> set a \<and> c = a @ ''/'')"
proof (induction rest arbitrary: c)
  case (Cons x xs)
  show ?case
  proof (cases "x = CHR ''/''")
    case True
    have "x # xs = a @ ''/'' @ b \<and> CHR ''/'' \<notin> set a \<longleftrightarrow> a = [] \<and> b = xs" for a b
      using True by (cases a) auto
    with True show ?thesis by auto
  next
    case False
    have "(\<exists>a b. x # xs = a @ ''/'' @ b \<and> CHR ''/'' \<notin> set a \<and> c = a @ ''/'')
      \<longleftrightarrow> (\<exists>a b. xs = a @ ''/'' @ b \<and> CHR ''/'' \<notin> set a \<and> c = x # a @ ''/'')" (is "?l \<longleftrightarrow> ?r")
    proof
      assume ?l
      then obtain a b where "x # xs = a @ ''/'' @ b" "CHR ''/'' \<notin> set a" "c = a @ ''/''" by blast
      with False show ?r by (cases a) auto
    next
      assume ?r
      then obtain a b where "xs = a @ ''/'' @ b" "CHR ''/'' \<notin> set a" "c = x # a @ ''/''" by blast
      with False show ?l by (intro exI [of _ "x # a"] exI [of _ b]) simp
    qed
    moreover have "x # first_step xs = c \<longleftrightarrow> (\<exists>d. c = x # d \<and> first_step xs = d)" by auto
    ultimately show ?thesis using False by (auto simp: Cons.IH)
  qed
qed auto

lemma first_steps:
  "{c. \<exists>rest. P rest \<and> (CHR ''/'' \<notin> set rest \<and> c = rest
      \<or> (\<exists>a b. rest = a @ ''/'' @ b \<and> CHR ''/'' \<notin> set a \<and> c = a @ ''/''))}
   = {first_step rest | rest. P rest}"
proof -
  have "{c. \<exists>rest. P rest \<and> first_step rest = c} = {first_step rest | rest. P rest}" by blast
  then show ?thesis unfolding first_step_iff .
qed

text \<open>
  C17. A listing is exactly the immediate children. For the snapshot of a file, \<open>children\<close> of a
  prefix lists, in increasing order and once each, precisely these names: the rest of a path of the
  file that starts with the prefix and has no further slash (a leaf), and, where the rest has a
  slash, what stands before its first slash together with that slash (a folder). The names are
  described by the shape of the paths alone, not by the search of the code.
\<close>

theorem children_exact:
  assumes "snapshot_build rt dr v etag = Inr sn" and "btree_ok (v_secrets v)"
  shows "set (children sn pre) =
      {c. \<exists>rest. pre @ rest \<in> set (map fst (v_secrets v))
         \<and> (CHR ''/'' \<notin> set rest \<and> c = rest
             \<or> (\<exists>a b. rest = a @ ''/'' @ b \<and> CHR ''/'' \<notin> set a \<and> c = a @ ''/''))}
    \<and> sorted (children sn pre) \<and> distinct (children sn pre)"
proof -
  have paths: "sn_sorted_paths sn = sort (map fst (v_secrets v))"
    using assms(1) by (rule snapshot_paths)
  then have sorted: "sorted (sn_sorted_paths sn)" by simp
  let ?ps = "filter (starts_with pre) (sn_sorted_paths sn)"
  have "sorted (map (\<lambda>p. child_of (drop (length pre) p)) ?ps)"
  proof (rule sorted_map_mono [OF sorted_filter [of id, simplified, OF sorted]])
    show "mono_on (set ?ps) (\<lambda>p. child_of (drop (length pre) p))"
      unfolding child_of_first_step
      by (intro mono_onI first_step_mono) (auto simp: str_iffs append_le_iff)
  qed
  then have "sorted (children sn pre) \<and> distinct (children sn pre)"
    unfolding children_eq [OF sorted] by (rule remdups_adj_sorted)
  moreover have "set (children sn pre) = {child_of rest | rest. pre @ rest \<in> set (map fst (v_secrets v))}"
    unfolding children_eq [OF sorted] paths by (force simp: str_iffs)
  ultimately show ?thesis
    by (simp only: first_steps child_of_first_step)
qed

section \<open>Authorization\<close>

lemma permits_total: "valid_utf8 path \<Longrightarrow> \<exists>b. permits hmac sn presented path cap = Some b"
  by (auto simp: permits_def allows_eq split: option.splits)

lemma build_tokens_cases:
  "build_tokens v = Inr None \<Longrightarrow> v_token_key v = None \<and> v_tokens v = []"
  "build_tokens v = Inr (Some t) \<Longrightarrow>
     \<exists>k. v_token_key v = Some k \<and> table_build k (v_tokens v) (v_policies v) = Inr t"
  by (auto simp: build_tokens_def split: option.splits sum.splits if_splits)

text \<open>What the file itself grants to the bearer of a token.\<close>

definition file_grants :: "hmac_fun \<Rightarrow> view \<Rightarrow> string option \<Rightarrow> string \<Rightarrow> capability \<Rightarrow> bool" where
  "file_grants hmac v presented path cap \<longleftrightarrow>
     (\<exists>token names t k. presented = Some token \<and> v_token_key v = Some k
        \<and> table_build k (v_tokens v) (v_policies v) = Inr t
        \<and> selects (v_tokens v) (token_hash hmac (t_key t) token) names
        \<and> (\<exists>name policy r. name \<in> set names \<and> map_of (v_policies v) name = Some policy
              \<and> r \<in> set policy \<and> covers (pattern_compile (rule_path r)) path
              \<and> capability_word cap \<in> set (capabilities r))
        \<and> (\<forall>name policy r. name \<in> set names \<longrightarrow> map_of (v_policies v) name = Some policy \<longrightarrow>
              r \<in> set policy \<longrightarrow> covers (pattern_compile (rule_path r)) path \<longrightarrow>
              ''deny'' \<notin> set (capabilities r)))"

lemma permits_granted:
  assumes built: "snapshot_build rt dr v etag = Inr sn" and path: "valid_utf8 path"
    and "enforces sn" and ok: "permits (rt_hmac rt) sn presented path cap = Some True"
  shows "file_grants (rt_hmac rt) v presented path cap"
proof -
  have tokens: "build_tokens v = Inr (sn_tokens sn)"
    using built by (rule snapshot_build_Inr)
  obtain t where t: "sn_tokens sn = Some t" using assms(3) by (auto simp: enforces_def)
  then obtain k where k: "v_token_key v = Some k" "table_build k (v_tokens v) (v_policies v) = Inr t"
    using tokens build_tokens_cases(2) by auto
  obtain token g where token: "presented = Some token"
    and g: "table_lookup (rt_hmac rt) t token = Some g" and "allows (g_rules g) path cap = Some True"
    using ok t by (auto simp: permits_def split: option.splits)
  with lookup_reach [OF k(2), of "rt_hmac rt" token] path k
  show ?thesis unfolding file_grants_def
    by (intro exI [of _ token] exI [of _ "g_policies g"] exI [of _ t] exI [of _ k]) blast
qed

lemma enforces_file:
  assumes "snapshot_build rt dr v etag = Inr sn"
  shows "enforces sn \<longleftrightarrow> v_token_key v \<noteq> None" and "\<not> enforces sn \<Longrightarrow> v_tokens v = []"
proof -
  have tokens: "build_tokens v = Inr (sn_tokens sn)" using assms by (rule snapshot_build_Inr)
  then show "enforces sn \<longleftrightarrow> v_token_key v \<noteq> None"
    using build_tokens_cases by (cases "sn_tokens sn") (fastforce simp: enforces_def)+
  show "\<not> enforces sn \<Longrightarrow> v_tokens v = []"
    using tokens build_tokens_cases by (auto simp: enforces_def)
qed

text \<open>
  What \<open>permits\<close> allows. The snapshot of a file without a token key (which then has no
  tokens) allows everything; with one, a request is allowed only if it presents a token, a line of
  the file decodes to that token's keyed hash, and a rule of a policy which that line names and the
  file defines grants the capability on the path, no such rule denying it. In particular a request
  without a token is refused, and the check returns on every valid path.
\<close>

theorem permits_sound:
  assumes built: "snapshot_build rt dr v etag = Inr sn" and path: "valid_utf8 path"
  shows "(\<exists>b. permits (rt_hmac rt) sn presented path cap = Some b)
    \<and> (enforces sn \<longleftrightarrow> v_token_key v \<noteq> None)
    \<and> (\<not> enforces sn \<longrightarrow> v_tokens v = [] \<and> permits (rt_hmac rt) sn presented path cap = Some True)
    \<and> (enforces sn \<longrightarrow> permits (rt_hmac rt) sn presented path cap = Some True \<longrightarrow>
         file_grants (rt_hmac rt) v presented path cap)"
proof (intro conjI impI)
  show "\<exists>b. permits (rt_hmac rt) sn presented path cap = Some b" using path by (rule permits_total)
  show "permits (rt_hmac rt) sn presented path cap = Some True" if "\<not> enforces sn"
    using that by (auto simp: enforces_def permits_def)
qed (use enforces_file [OF built] permits_granted [OF built path] in auto)

section \<open>Building succeeds\<close>

lemma seal_secrets_total:
  assumes "aead_total lib" and "length (b_key b) = KEY_LEN"
  shows "\<exists>b' acc' paths'. seal_secrets lib hmac lk b acc paths xs = Inr (b', acc', paths')"
  using assms(2)
proof (induction xs arbitrary: b acc paths)
  case (Cons x xs)
  obtain path tx where x: "x = (path, tx)" by fastforce
  obtain c where c: "seal_append_tag lib (b_key b) (counter_nonce (b_nonce b)) [] (as_bytes tx) = Some c"
    using assms(1) Cons.prems unfolding aead_total_def
    by (metis length_counter_nonce not_Some_eq sealed_file_offsets(5))
  then have "barrier_seal lib b (as_bytes tx) =
      (b\<lparr>b_nonce := b_nonce b + 1\<rparr>, Inr \<lparr>s_nonce = counter_nonce (b_nonce b), s_bytes = c\<rparr>)"
    by (simp add: barrier_seal_def)
  then show ?case using Cons.IH [of "b\<lparr>b_nonce := b_nonce b + 1\<rparr>"] Cons.prems by (simp add: x)
qed simp

text \<open>With a working generator and cipher, only the token table can refuse a file.\<close>

lemma snapshot_build_total:
  assumes "aead_total (rt_aead rt)" and "d_fill dr = Some key" and "length key = KEY_LEN"
    and "build_tokens v = Inr tokens"
  shows "\<exists>sn. snapshot_build rt dr v etag = Inr sn"
proof -
  have "new_key (rt_aead rt) key" using assms by (simp add: aead_total_def)
  moreover obtain b' acc paths where
    "seal_secrets (rt_aead rt) (rt_hmac rt)
       (map_option (\<lambda>t. log_key_from_bytes (table_derive (rt_hmac rt) t LOG_LABEL)) tokens)
       \<lparr>b_key = key, b_nonce = 0,
        b_locked = lock_pages (rt_platform rt) (rt_mlock rt) (d_at dr) (d_size dr)\<rparr> [] [] (v_secrets v)
     = Inr (b', acc, paths)"
    using seal_secrets_total [OF assms(1)] assms(3) by (metis barrier.select_convs(1))
  ultimately show ?thesis
    using assms by (simp add: snapshot_build_def barrier_new_def key_random_def Let_def)
qed

section \<open>Two tables of one file\<close>

text \<open>
  A table built anew from the same contents, with another barrier key, at another time and place,
  gives the same answers: the same listings, the same decisions for every token, path and capability,
  the same identifiers for the access log, and, with the laws of the libraries, the same secrets.
\<close>

lemma rebuilt_alike:
  assumes "snapshot_build rt dr v etag = Inr sn" and "snapshot_build rt dr' v etag' = Inr sn'"
  shows "sn_version sn' = sn_version sn" "enforces sn' = enforces sn"
    "children sn' pre = children sn pre"
    "permits hmac sn' presented path cap = permits hmac sn presented path cap"
    "snapshot_token_id hmac sn' presented = snapshot_token_id hmac sn presented"
proof -
  have "build_tokens v = Inr (sn_tokens sn)" "build_tokens v = Inr (sn_tokens sn')"
    using assms by (blast elim: snapshot_build_Inr)+
  then have tokens: "sn_tokens sn' = sn_tokens sn" by simp
  then show "enforces sn' = enforces sn"
    "permits hmac sn' presented path cap = permits hmac sn presented path cap"
    "snapshot_token_id hmac sn' presented = snapshot_token_id hmac sn presented"
    by (simp_all add: enforces_def permits_def snapshot_token_id_def)
  show "children sn' pre = children sn pre"
    using snapshot_paths [OF assms(1)] snapshot_paths [OF assms(2)] by (simp add: children_def)
  show "sn_version sn' = sn_version sn" using assms by (elim snapshot_build_Inr) simp
qed

section \<open>Witnesses\<close>

definition sample_runtime :: runtime where
  "sample_runtime = \<lparr>rt_aead = clear_aead, rt_hmac = clear_hmac, rt_platform = Linux,
     rt_mlock = (\<lambda>a n. 0), rt_from_slice = sample_from_slice\<rparr>"

definition sample_draw :: draw where
  "sample_draw = \<lparr>d_fill = Some (replicate 32 9), d_at = 4096, d_size = 64, d_now = 0\<rparr>"

definition sample_view :: view where
  "sample_view = \<lparr>v_version = 7, v_secrets = [(''a'', ''1''), (''b/c'', ''2''), (''b/d'', ''3'')],
     v_policies = [(''p'', [\<lparr>rule_path = ''a/*'', capabilities = [''read'']\<rparr>])],
     v_tokens = [(encode (token_hash clear_hmac (TokenKey (replicate 32 3)) ''tok''), [''p'', ''q''])],
     v_token_key = Some (encode (replicate 32 3))\<rparr>"

lemma sample_view_ok:
  "btree_ok (v_secrets sample_view)" "(p, t) \<in> set (v_secrets sample_view) \<Longrightarrow> valid_utf8 t"
  by (auto simp: btree_ok_def sample_view_def ord_of_def less_eq_char_def)

lemma sample_snapshot_built: "\<exists>sn. snapshot_build sample_runtime sample_draw sample_view None = Inr sn"
proof (rule snapshot_build_total)
  show "build_tokens sample_view = Inr (Some sample_token_table)"
    using sample_table_built by (simp add: build_tokens_def sample_view_def)
qed (auto simp: sample_runtime_def sample_draw_def clear_aead_ok KEY_LEN_def)

theorem snapshot_serves_file_witness:
  "\<exists>sn. snapshot_build sample_runtime sample_draw sample_view None = Inr sn
     \<and> map_option snd (with_secret clear_aead sn ''b/c'' id [0]) = Some (Inr ''2'')"
proof -
  obtain sn where sn: "snapshot_build sample_runtime sample_draw sample_view None = Inr sn"
    using sample_snapshot_built by blast
  have lib: "rt_aead sample_runtime = clear_aead" by (simp add: sample_runtime_def)
  have "aead_round_trip (rt_aead sample_runtime)" by (simp add: lib clear_aead_ok)
  from snapshot_serves_file [OF this sn sample_view_ok, where path = "''b/c''" and f = id and scratch = "[0]"]
  have "map_option snd (with_secret clear_aead sn ''b/c'' id [0]) = Some (Inr ''2'')"
    by (simp add: lib sample_view_def)
  with sn show ?thesis by blast
qed

theorem children_exact_witness:
  "\<exists>sn. snapshot_build sample_runtime sample_draw sample_view None = Inr sn
     \<and> set (children sn []) = {''a'', ''b/''} \<and> distinct (children sn [])"
proof -
  obtain sn where sn: "snapshot_build sample_runtime sample_draw sample_view None = Inr sn"
    using sample_snapshot_built by blast
  have "set (children sn []) = {''a'', ''b/''}"
    unfolding children_exact [OF sn sample_view_ok(1), of "[]", THEN conjunct1] first_steps
    by (auto simp: sample_view_def intro: exI [of _ "''a''"] exI [of _ "''b/c''"])
  with children_exact [OF sn sample_view_ok(1), of "[]"] sn show ?thesis by blast
qed

theorem permits_sound_witness:
  "\<exists>sn. snapshot_build sample_runtime sample_draw sample_view None = Inr sn
     \<and> enforces sn \<and> (\<exists>b. permits clear_hmac sn (Some ''tok'') ''a/b'' Read = Some b)"
proof -
  obtain sn where sn: "snapshot_build sample_runtime sample_draw sample_view None = Inr sn"
    using sample_snapshot_built by blast
  have utf8: "valid_utf8 ''a/b''" by (simp add: ord_of_def)
  have "rt_hmac sample_runtime = clear_hmac" "v_token_key sample_view \<noteq> None"
    by (simp_all add: sample_runtime_def sample_view_def)
  with permits_sound [OF sn utf8, of "Some ''tok''" Read] sn show ?thesis by metis
qed

end
