(* ===== verification/Rate_Limit.thy ===== *)
theory Rate_Limit
  imports Kallisto_Prelude
begin

text \<open>
  \<open>src/server/rate_limit.rs\<close>: the token bucket in front of the read path, one per worker. The
  four atomics of a bucket are touched by one thread only, so a call is one transition of the
  record. Arithmetic is on naturals with the saturation of the code written out.

  Shown here: a bucket never holds more than its capacity; over any calls at any times it grants no
  more than the burst plus what the rate allows; a refusal always asks for one second; and a client
  that waits as told is served unless another one took the permit in between.
\<close>

section \<open>rate\_limit.rs\<close>

definition ONE_PERMIT :: nat where
  "ONE_PERMIT = 1000000"

record rate_limiter =
  rl_capacity :: nat
  per_millisecond :: nat
  rl_permits :: nat
  last_refill_ms :: nat

definition limiter_new :: "nat \<Rightarrow> nat \<Rightarrow> rate_limiter" where
  "limiter_new per_second burst =
     (let capacity = sat_mul (max burst 1) ONE_PERMIT in
      \<lparr>rl_capacity = capacity, per_millisecond = sat_mul (max per_second 1) ONE_PERMIT div 1000,
       rl_permits = capacity, last_refill_ms = 0\<rparr>)"

definition refill :: "rate_limiter \<Rightarrow> nat \<Rightarrow> rate_limiter" where
  "refill l now_ms =
     (let last = last_refill_ms l in
      if now_ms > last
      then l\<lparr>last_refill_ms := now_ms,
             rl_permits := min (sat_add (rl_permits l) (sat_mul (now_ms - last) (per_millisecond l)))
                             (rl_capacity l)\<rparr>
      else l)"

text \<open>\<open>Inr ()\<close> to serve, \<open>Inl seconds\<close> to answer 429 with that \<open>Retry-After\<close>.\<close>

definition try_acquire_at :: "rate_limiter \<Rightarrow> nat \<Rightarrow> rate_limiter \<times> (nat + unit)" where
  "try_acquire_at l now_ms =
     (let l = refill l now_ms;
          available = rl_permits l
      in if available \<ge> ONE_PERMIT then (l\<lparr>rl_permits := available - ONE_PERMIT\<rparr>, Inr ())
         else
           (let missing = ONE_PERMIT - available;
                wait_ms = div_ceil missing (max (per_millisecond l) 1)
            in (l, Inl (max (div_ceil wait_ms 1000) 1))))"

text \<open>\<open>elapsed\<close> is the time since the limiter was made, in milliseconds; the cast keeps 64 bits.\<close>

definition try_acquire :: "rate_limiter \<Rightarrow> nat \<Rightarrow> rate_limiter \<times> (nat + unit)" where
  "try_acquire l elapsed = try_acquire_at l (elapsed mod 2 ^ 64)"

section \<open>Invariant\<close>

text \<open>What every bucket made by \<open>limiter_new\<close> keeps.\<close>

definition limiter_ok :: "rate_limiter \<Rightarrow> bool" where
  "limiter_ok l \<longleftrightarrow>
     rl_permits l \<le> rl_capacity l \<and> ONE_PERMIT \<le> rl_capacity l \<and> rl_capacity l \<le> u64_max
     \<and> 1000 \<le> per_millisecond l"

lemma limiter_new_ok: "limiter_ok (limiter_new per_second burst)"
proof -
  have "1000 * 1000 \<le> sat_mul (max per_second 1) ONE_PERMIT"
    by (auto simp: sat_mul_def ONE_PERMIT_def u64_max_def)
  then have "1000 \<le> sat_mul (max per_second 1) ONE_PERMIT div 1000"
    by (simp add: less_eq_div_iff_mult_less_eq)
  then show ?thesis
    by (auto simp: limiter_ok_def limiter_new_def Let_def sat_mul_def ONE_PERMIT_def u64_max_def)
qed

lemma refill_ok: "limiter_ok l \<Longrightarrow> limiter_ok (refill l now)"
  by (simp add: limiter_ok_def refill_def Let_def)

lemma try_acquire_ok: "limiter_ok l \<Longrightarrow> limiter_ok (fst (try_acquire_at l now))"
  using refill_ok [of l now] by (auto simp: try_acquire_at_def Let_def limiter_ok_def)

lemma retry_after_one:
  assumes "limiter_ok l" and "snd (try_acquire_at l now) = Inl secs"
  shows "secs = 1"
proof -
  let ?l = "refill l now"
  have rate: "1000 \<le> per_millisecond ?l" using refill_ok [OF assms(1)] by (simp add: limiter_ok_def)
  have secs: "secs = max (div_ceil (div_ceil (ONE_PERMIT - rl_permits ?l) (max (per_millisecond ?l) 1)) 1000) 1"
    using assms(2) by (auto simp: try_acquire_at_def Let_def split: if_splits)
  have "div_ceil a b \<le> 1000" if "a \<le> 1000000" "1000 \<le> b" for a b
  proof -
    have "a + b - 1 < 1001 * b" using that by linarith
    then have "(a + b - 1) div b < 1001" by (rule less_mult_imp_div_less)
    then show ?thesis by (simp add: div_ceil_def)
  qed
  then have "div_ceil (ONE_PERMIT - rl_permits ?l) (max (per_millisecond ?l) 1) \<le> 1000"
    using rate by (simp add: ONE_PERMIT_def)
  moreover have "div_ceil w 1000 \<le> 1" if "w \<le> 1000" for w
  proof -
    have "(w + 1000 - 1) div 1000 < 2" using that by (intro less_mult_imp_div_less) simp
    then show ?thesis by (simp add: div_ceil_def)
  qed
  ultimately show ?thesis unfolding secs by (simp add: max_def)
qed

section \<open>How much is granted\<close>

text \<open>A sequence of calls at the given times, and the number of permits granted.\<close>

fun acquire_run :: "rate_limiter \<Rightarrow> nat list \<Rightarrow> rate_limiter \<times> nat" where
  "acquire_run l [] = (l, 0)"
| "acquire_run l (t # ts) =
     (case try_acquire_at l t of
        (l', r) \<Rightarrow> (case acquire_run l' ts of
                     (l'', n) \<Rightarrow> (l'', n + (case r of Inr _ \<Rightarrow> 1 | Inl _ \<Rightarrow> 0))))"

lemma try_acquire_account:
  assumes "try_acquire_at l now = (l', r)"
  shows "(case r of Inr _ \<Rightarrow> ONE_PERMIT | Inl _ \<Rightarrow> 0) + rl_permits l'
      \<le> rl_permits l + (last_refill_ms l' - last_refill_ms l) * per_millisecond l"
    and "last_refill_ms l \<le> last_refill_ms l'" and "last_refill_ms l' \<le> max (last_refill_ms l) now"
    and "per_millisecond l' = per_millisecond l" and "rl_capacity l' = rl_capacity l"
proof -
  have r: "rl_permits (refill l now) \<le> rl_permits l + (last_refill_ms (refill l now) - last_refill_ms l) * per_millisecond l"
    by (auto simp: refill_def Let_def sat_add_def sat_mul_def)
  show "(case r of Inr _ \<Rightarrow> ONE_PERMIT | Inl _ \<Rightarrow> 0) + rl_permits l'
      \<le> rl_permits l + (last_refill_ms l' - last_refill_ms l) * per_millisecond l"
    using assms r by (auto simp: try_acquire_at_def Let_def split: if_splits)
  show "last_refill_ms l \<le> last_refill_ms l'" "last_refill_ms l' \<le> max (last_refill_ms l) now"
    "per_millisecond l' = per_millisecond l" "rl_capacity l' = rl_capacity l"
    using assms by (auto simp: try_acquire_at_def refill_def Let_def split: if_splits)
qed

lemma acquire_run_account:
  assumes "acquire_run l ts = (l', n)"
  shows "n * ONE_PERMIT + rl_permits l'
      \<le> rl_permits l + (last_refill_ms l' - last_refill_ms l) * per_millisecond l
    \<and> last_refill_ms l \<le> last_refill_ms l'
    \<and> (last_refill_ms l \<le> T \<longrightarrow> (\<forall>t \<in> set ts. t \<le> T) \<longrightarrow> last_refill_ms l' \<le> T)"
  using assms
proof (induction ts arbitrary: l n)
  case (Cons t ts)
  obtain l1 r where step: "try_acquire_at l t = (l1, r)" by fastforce
  obtain m where rest: "acquire_run l1 ts = (l', m)" and n: "n = m + (case r of Inr _ \<Rightarrow> 1 | Inl _ \<Rightarrow> 0)"
    using Cons.prems step by (auto split: prod.splits)
  note acc = try_acquire_account [OF step] and IH = Cons.IH [OF rest]
  have gain: "n * ONE_PERMIT = m * ONE_PERMIT + (case r of Inr _ \<Rightarrow> ONE_PERMIT | Inl _ \<Rightarrow> 0)"
    by (simp add: n split: sum.splits)
  have "(last_refill_ms l' - last_refill_ms l1) * per_millisecond l
      + (last_refill_ms l1 - last_refill_ms l) * per_millisecond l
      = (last_refill_ms l' - last_refill_ms l) * per_millisecond l"
    using acc(2) IH by (simp flip: add_mult_distrib)
  with acc(1,4) IH gain have "n * ONE_PERMIT + rl_permits l'
      \<le> rl_permits l + (last_refill_ms l' - last_refill_ms l) * per_millisecond l"
    by simp
  moreover have "last_refill_ms l1 \<le> T" if "last_refill_ms l \<le> T" "t \<le> T"
    using acc(3) that by linarith
  ultimately show ?case using acc(2) IH by simp
qed simp

section \<open>Waiting as told\<close>

lemma refill_permits:
  assumes "limiter_ok l"
  shows "rl_permits (refill l t) = min (rl_permits l + (t - last_refill_ms l) * per_millisecond l) (rl_capacity l)"
  using assms by (auto simp: refill_def Let_def limiter_ok_def sat_add_def sat_mul_def u64_max_def)

lemma refill_fields:
  "last_refill_ms (refill l t) = max (last_refill_ms l) t" "per_millisecond (refill l t) = per_millisecond l"
  "rl_capacity (refill l t) = rl_capacity l"
  by (auto simp: refill_def Let_def max_def)

text \<open>Refilling on the way loses nothing.\<close>

lemma refill_refill:
  assumes "limiter_ok l" and "t \<le> u"
  shows "refill (refill l t) u = refill l u"
proof -
  have split: "u - last_refill_ms l = (t - last_refill_ms l) + (u - max (last_refill_ms l) t)"
    using assms(2) by (auto simp: max_def)
  have "rl_permits (refill (refill l t) u) = rl_permits (refill l u)"
    unfolding refill_permits [OF refill_ok [OF assms(1)]] refill_permits [OF assms(1)] refill_fields split
    by (simp add: add_mult_distrib min_def)
  then show ?thesis
    using assms(2) by (auto intro!: rate_limiter.equality simp: refill_fields max_def)
qed

lemma run_refused:
  assumes "limiter_ok l" and "acquire_run l ts = (l', 0)" and "\<forall>t \<in> set ts. t \<le> u"
  shows "refill l' u = refill l u"
  using assms
proof (induction ts arbitrary: l)
  case (Cons t ts)
  obtain l1 r where step: "try_acquire_at l t = (l1, r)" by fastforce
  have rest: "acquire_run l1 ts = (l', 0)" and "\<exists>secs. r = Inl secs"
    using Cons.prems(2) step by (auto split: prod.splits sum.splits)
  then have "l1 = refill l t"
    using step by (auto simp: try_acquire_at_def Let_def split: if_splits)
  then show ?case
    using Cons.IH [OF _ rest] Cons.prems refill_ok [of l t] refill_refill [of l t u] by simp
qed simp

text \<open>
  C31. \<open>Retry-After\<close> is honest. A bucket refuses only with an answer of one second. All clients of a
  worker share its bucket, so any number of other calls, at any times, may come between the refusal
  and the client's return; when it returns after the told time, then it is granted a permit unless
  one of those calls was granted one. Clocks do not run backwards, so no call in between is later
  than the client's own.
\<close>

theorem retry_after_honoured:
  assumes "limiter_ok l" and "last_refill_ms l \<le> now" and "try_acquire_at l now = (l', Inl secs)"
    and others: "acquire_run l' ts = (l'', n)" "\<forall>t \<in> set ts. t \<le> later"
    and "later \<ge> now + secs * 1000"
  shows "secs = 1 \<and> (snd (try_acquire_at l'' later) = Inr () \<or> 0 < n)"
proof (intro conjI)
  show secs: "secs = 1" using retry_after_one assms(1,3) by (metis snd_conv)
  have l': "l' = refill l now" "limiter_ok l'"
    using assms(1,3) refill_ok by (auto simp: try_acquire_at_def Let_def split: if_splits)
  then have last: "last_refill_ms l' \<le> now" using assms(2) by (simp add: refill_fields)
  have "1000 * 1000 \<le> (later - last_refill_ms l') * per_millisecond l'"
    using last assms(6) secs l'(2) by (intro mult_le_mono) (auto simp: limiter_ok_def)
  then have "ONE_PERMIT \<le> rl_permits (refill l' later)"
    using l'(2) unfolding refill_permits [OF l'(2)] by (simp add: ONE_PERMIT_def limiter_ok_def)
  then have "n = 0 \<Longrightarrow> snd (try_acquire_at l'' later) = Inr ()"
    using run_refused [OF l'(2) _ others(2)] others(1) by (simp add: try_acquire_at_def Let_def)
  then show "snd (try_acquire_at l'' later) = Inr () \<or> 0 < n" by blast
qed

section \<open>The bound\<close>

text \<open>
  C32. The limit holds. From a new bucket, any sequence of calls at any times up to \<open>T\<close>
  milliseconds is granted at most the burst plus the rate times the elapsed time, and the bucket
  never holds more than its burst.
\<close>

theorem grants_bounded:
  assumes "acquire_run (limiter_new per_second burst) ts = (l', n)" and "\<And>t. t \<in> set ts \<Longrightarrow> t \<le> T"
  shows "n * 1000 \<le> max burst 1 * 1000 + T * max per_second 1
    \<and> rl_permits l' \<le> rl_capacity (limiter_new per_second burst)"
proof
  let ?l = "limiter_new per_second burst"
  have "last_refill_ms l' \<le> T"
    using acquire_run_account [OF assms(1), of T] assms(2) by (auto simp: limiter_new_def Let_def)
  have rate: "per_millisecond ?l \<le> max per_second 1 * 1000"
    by (auto simp: limiter_new_def Let_def sat_mul_def ONE_PERMIT_def)
  have "n * ONE_PERMIT \<le> rl_permits ?l + (last_refill_ms l' - last_refill_ms ?l) * per_millisecond ?l"
    using acquire_run_account [OF assms(1), of T] by linarith
  also have "\<dots> \<le> max burst 1 * ONE_PERMIT + T * (max per_second 1 * 1000)"
    using \<open>last_refill_ms l' \<le> T\<close> rate
    by (intro add_mono mult_le_mono) (auto simp: limiter_new_def Let_def sat_mul_def)
  finally show "n * 1000 \<le> max burst 1 * 1000 + T * max per_second 1"
    by (simp add: ONE_PERMIT_def)
  have keep: "limiter_ok l \<Longrightarrow> acquire_run l ts = (l', n) \<Longrightarrow>
      limiter_ok l' \<and> rl_capacity l' = rl_capacity l" for l n
  proof (induction ts arbitrary: l n)
    case (Cons t ts)
    then show ?case
      using try_acquire_ok [of l t] try_acquire_account(5) [of l t] by (fastforce split: prod.splits)
  qed simp
  show "rl_permits l' \<le> rl_capacity ?l"
    using keep [OF limiter_new_ok assms(1)] by (simp add: limiter_ok_def)
qed

text \<open>Refused at 5 ms, with another client refused at 500 ms, the first is served at 1005 ms.\<close>

theorem retry_after_honoured_witness:
  "\<exists>l' l''. try_acquire_at ((limiter_new 1 1)\<lparr>rl_permits := 0\<rparr>) 5 = (l', Inl 1)
   \<and> acquire_run l' [500] = (l'', 0) \<and> snd (try_acquire_at l'' 1005) = Inr ()"
proof -
  let ?l = "(limiter_new 1 1)\<lparr>rl_permits := 0\<rparr>"
  let ?l' = "fst (try_acquire_at ?l 5)"
  have ok: "limiter_ok ?l" using limiter_new_ok [of 1 1] by (simp add: limiter_ok_def)
  have last: "last_refill_ms ?l \<le> 5" by (simp add: limiter_new_def Let_def)
  note defs = try_acquire_at_def refill_def limiter_new_def Let_def sat_mul_def sat_add_def
    ONE_PERMIT_def u64_max_def div_ceil_def
  have refused: "try_acquire_at ?l 5 = (?l', Inl 1)" by (simp add: defs)
  obtain l'' where other: "acquire_run ?l' [500] = (l'', 0)" by (simp add: defs)
  from retry_after_honoured [OF ok last refused other, of 1005] refused other show ?thesis by auto
qed

theorem grants_bounded_witness:
  "\<exists>l' n. acquire_run (limiter_new 10 3) [0, 0, 0, 0, 100] = (l', n) \<and> n * 1000 \<le> 3 * 1000 + 100 * 10"
proof -
  obtain l' n where r: "acquire_run (limiter_new 10 3) [0, 0, 0, 0, 100] = (l', n)" by fastforce
  from grants_bounded [OF this, of 100] have "n * 1000 \<le> 3 * 1000 + 100 * 10" by auto
  with r show ?thesis by blast
qed

end
