(* ===== verification/Responses.thy ===== *)
theory Responses
  imports Kallisto_Prelude
begin

text \<open>
  \<open>src/server/responses.rs\<close>: Vault-shaped JSON bodies built by concatenation. Nothing here goes
  through a serialiser, so what keeps a body well formed is \<open>push_json_string\<close>. Shown here: a
  reader of RFC 8259 strings gets back exactly the text that was pushed and stops exactly at its
  end, whatever follows; hence the keys of a listing and the message of an error decode to
  themselves, and no key, path or message can add structure to a body.
\<close>

section \<open>responses.rs\<close>

definition VAULT_COMPAT_VERSION :: string where
  "VAULT_COMPAT_VERSION = ''1.13.0''"

definition CLUSTER_NAME :: string where
  "CLUSTER_NAME = ''kallisto''"

definition dquote :: char where
  "dquote = CHR 34"

definition backslash :: char where
  "backslash = CHR 92"

definition hex_lower :: "nat \<Rightarrow> char" where
  "hex_lower n = (if n < 10 then char_of (48 + n) else char_of (87 + n))"

text \<open>
  One character of the value; every byte of a multi-byte character is at least 128 and is copied.
\<close>

definition json_escape :: "char \<Rightarrow> string" where
  "json_escape c =
     (if c = dquote then [backslash, dquote]
      else if c = backslash then [backslash, backslash]
      else if c = CHR 10 then [backslash, CHR ''n'']
      else if c = CHR 13 then [backslash, CHR ''r'']
      else if c = CHR 9 then [backslash, CHR ''t'']
      else if ord_of c < 32
      then [backslash, CHR ''u'', CHR ''0'', CHR ''0'', hex_lower (ord_of c div 16),
            hex_lower (ord_of c mod 16)]
      else [c])"

definition push_json_string :: "string \<Rightarrow> string" where
  "push_json_string s = [dquote] @ concat (map json_escape s) @ [dquote]"

definition errors :: "string \<Rightarrow> string" where
  "errors message = ''{\"errors\":['' @ push_json_string message @ '']}''"

definition kv_data :: "string \<Rightarrow> nat \<Rightarrow> string \<Rightarrow> string" where
  "kv_data data version created_time =
     ''{\"request_id\":\"\",\"lease_id\":\"\",\"renewable\":false,\"lease_duration\":0,\"data\":{\"data\":''
     @ data @ '',\"metadata\":{\"created_time\":'' @ push_json_string created_time
     @ '',\"custom_metadata\":null,\"deletion_time\":\"\",\"destroyed\":false,\"version\":''
     @ show_nat version @ ''}},\"wrap_info\":null,\"warnings\":null,\"auth\":null}''"

definition push_list :: "string list \<Rightarrow> string" where
  "push_list keys = join_with '','' (map push_json_string keys)"

definition list_keys :: "string list \<Rightarrow> string" where
  "list_keys keys = ''{\"data\":{\"keys\":['' @ push_list keys @ '']}}''"

definition kv_metadata :: "nat \<Rightarrow> string \<Rightarrow> string" where
  "kv_metadata version created_time =
     ''{\"data\":{\"cas_required\":false,\"created_time\":'' @ push_json_string created_time
     @ '',\"current_version\":'' @ show_nat version
     @ '',\"custom_metadata\":null,\"delete_version_after\":\"0s\",\"max_versions\":0,\"oldest_version\":''
     @ show_nat version @ '',\"updated_time\":'' @ push_json_string created_time
     @ '',\"versions\":{\"'' @ show_nat version @ ''\":{\"created_time\":'' @ push_json_string created_time
     @ '',\"deletion_time\":\"\",\"destroyed\":false}}}}''"

definition json_bool :: "bool \<Rightarrow> string" where
  "json_bool b = (if b then ''true'' else ''false'')"

text \<open>\<open>pkg_version\<close> is the crate's version, which the build puts in.\<close>

definition health ::
  "string \<Rightarrow> bool \<Rightarrow> nat \<Rightarrow> nat option \<Rightarrow> string option \<Rightarrow> string option \<Rightarrow> bool option \<Rightarrow> string" where
  "health pkg_version is_sealed server_time_utc file_version etag loaded_at enforced =
     ''{\"initialized\":true,\"sealed\":'' @ json_bool is_sealed
     @ '',\"standby\":false,\"performance_standby\":false,\"replication_performance_mode\":\"disabled\",\"replication_dr_mode\":\"disabled\",\"server_time_utc\":''
     @ show_nat server_time_utc
     @ '',\"version\":\"'' @ VAULT_COMPAT_VERSION
     @ ''\",\"cluster_name\":\"'' @ CLUSTER_NAME
     @ ''\",\"cluster_id\":\"\",\"kallisto_version\":\"'' @ pkg_version
     @ ''\",\"kallisto_file_version\":''
     @ (case file_version of Some v \<Rightarrow> show_nat v | None \<Rightarrow> ''null'')
     @ '',\"kallisto_etag\":''
     @ (case etag of Some e \<Rightarrow> push_json_string e | None \<Rightarrow> ''null'')
     @ '',\"kallisto_loaded_at\":''
     @ (case loaded_at of Some t \<Rightarrow> push_json_string t | None \<Rightarrow> ''null'')
     @ '',\"kallisto_authorization\":''
     @ (case enforced of Some True \<Rightarrow> ''\"enforced\"'' | Some False \<Rightarrow> ''\"none\"'' | None \<Rightarrow> ''null'')
     @ ''}''"

definition seal_status :: "bool \<Rightarrow> string" where
  "seal_status is_sealed =
     ''{\"type\":\"shamir\",\"initialized\":true,\"sealed\":'' @ json_bool is_sealed
     @ '',\"t\":1,\"n\":1,\"progress\":0,\"nonce\":\"\",\"version\":\"'' @ VAULT_COMPAT_VERSION
     @ ''\",\"migration\":false,\"cluster_name\":\"'' @ CLUSTER_NAME
     @ ''\",\"cluster_id\":\"\",\"recovery_seal\":false,\"storage_type\":\"kallisto\"}''"

definition init_status :: string where
  "init_status = ''{\"initialized\":true}''"

definition mounts :: "string \<Rightarrow> string" where
  "mounts mount =
     ''{\"data\":{'' @ push_json_string (mount @ ''/'')
     @ '':{\"accessor\":\"kv_kallisto\",\"config\":{\"default_lease_ttl\":0,\"force_no_cache\":false,\"max_lease_ttl\":0},\"description\":\"key/value secret storage\",\"local\":false,\"options\":{\"version\":\"2\"},\"seal_wrap\":false,\"type\":\"kv\",\"uuid\":\"kallisto\"}}}''"

definition ui_mount :: "string \<Rightarrow> string" where
  "ui_mount mount =
     ''{\"data\":{\"options\":{\"version\":\"2\"},\"path\":'' @ push_json_string (mount @ ''/'')
     @ '',\"type\":\"kv\"}}''"

definition token_lookup :: "string list \<Rightarrow> string" where
  "token_lookup policies =
     ''{\"data\":{\"accessor\":\"\",\"creation_time\":0,\"creation_ttl\":0,\"display_name\":\"kallisto\",\"entity_id\":\"\",\"expire_time\":null,\"explicit_max_ttl\":0,\"id\":\"\",\"meta\":null,\"num_uses\":0,\"orphan\":true,\"path\":\"auth/token/create\",\"policies\":[''
     @ push_list policies @ ''],\"renewable\":false,\"ttl\":0,\"type\":\"service\"}}''"

section \<open>Reading JSON strings\<close>

text \<open>A reader of RFC 8259 strings and of arrays of strings; escapes above 127 are not needed.\<close>

definition hex_value :: "char \<Rightarrow> nat option" where
  "hex_value c =
     (let b = ord_of c in
      if 48 \<le> b \<and> b \<le> 57 then Some (b - 48)
      else if 97 \<le> b \<and> b \<le> 102 then Some (b - 87)
      else if 65 \<le> b \<and> b \<le> 70 then Some (b - 55)
      else None)"

definition unicode_escape :: "char \<Rightarrow> char \<Rightarrow> char \<Rightarrow> char \<Rightarrow> char option" where
  "unicode_escape a b c d =
     (case (hex_value a, hex_value b, hex_value c, hex_value d) of
        (Some w, Some x, Some y, Some z) \<Rightarrow>
          (let n = ((w * 16 + x) * 16 + y) * 16 + z in if n < 128 then Some (char_of n) else None)
      | _ \<Rightarrow> None)"

definition simple_escape :: "char \<Rightarrow> char option" where
  "simple_escape e =
     (if e = dquote \<or> e = backslash \<or> e = CHR ''/'' then Some e
      else if e = CHR ''b'' then Some (CHR 8)
      else if e = CHR ''f'' then Some (CHR 12)
      else if e = CHR ''n'' then Some (CHR 10)
      else if e = CHR ''r'' then Some (CHR 13)
      else if e = CHR ''t'' then Some (CHR 9)
      else None)"

definition cons_fst :: "'a \<Rightarrow> ('a list \<times> 'b) option \<Rightarrow> ('a list \<times> 'b) option" where
  "cons_fst x r = map_option (\<lambda>(xs, t). (x # xs, t)) r"

fun read_chars :: "string \<Rightarrow> (string \<times> string) option" where
  "read_chars [] = None"
| "read_chars (c # s) =
     (if c = dquote then Some ([], s)
      else if c = backslash then
        (case s of
           e # s1 \<Rightarrow>
             (if e = CHR ''u'' then
                (case s1 of
                   h1 # h2 # h3 # h4 # s2 \<Rightarrow>
                     (case unicode_escape h1 h2 h3 h4 of
                        None \<Rightarrow> None
                      | Some x \<Rightarrow> cons_fst x (read_chars s2))
                 | _ \<Rightarrow> None)
              else
                (case simple_escape e of
                   None \<Rightarrow> None
                 | Some x \<Rightarrow> cons_fst x (read_chars s1)))
         | [] \<Rightarrow> None)
      else if ord_of c < 32 then None
      else cons_fst c (read_chars s))"

definition read_json_string :: "string \<Rightarrow> (string \<times> string) option" where
  "read_json_string s =
     (case s of c # t \<Rightarrow> (if c = dquote then read_chars t else None) | [] \<Rightarrow> None)"

fun read_items :: "nat \<Rightarrow> string \<Rightarrow> (string list \<times> string) option" where
  "read_items 0 s = None"
| "read_items (Suc n) s =
     (case read_json_string s of
        None \<Rightarrow> None
      | Some (k, r) \<Rightarrow>
          (case r of
             [] \<Rightarrow> None
           | c # t \<Rightarrow>
               if c = CHR '']'' then Some ([k], t)
               else if c = CHR '','' then cons_fst k (read_items n t)
               else None))"

text \<open>The fuel is the length of the text, more than the number of items it can hold.\<close>

definition read_json_array :: "string \<Rightarrow> (string list \<times> string) option" where
  "read_json_array s =
     (case s of
        [] \<Rightarrow> None
      | c # t \<Rightarrow>
          if c \<noteq> CHR ''['' then None
          else (case t of
                  [] \<Rightarrow> None
                | d # u \<Rightarrow> if d = CHR '']'' then Some ([], u) else read_items (length t) t))"

section \<open>Strings decode to themselves\<close>

lemma hex_value_lower: "n < 16 \<Longrightarrow> hex_value (hex_lower n) = Some n"
  by (auto simp: hex_value_def hex_lower_def ord_of_def Let_def)

lemma unicode_escape_lower:
  "ord_of c < 32 \<Longrightarrow>
     unicode_escape (CHR ''0'') (CHR ''0'') (hex_lower (ord_of c div 16)) (hex_lower (ord_of c mod 16))
       = Some c"
proof -
  assume "ord_of c < 32"
  moreover from this have "ord_of c div 16 < 16" by simp
  moreover have "hex_value (CHR ''0'') = Some 0" by (simp add: hex_value_def ord_of_def)
  moreover have "char_of (ord_of c) = c" by (simp add: ord_of_def)
  ultimately show ?thesis by (simp add: unicode_escape_def hex_value_lower Let_def)
qed

lemma read_escape: "read_chars (json_escape c @ s) = cons_fst c (read_chars s)"
proof -
  consider "c = dquote" | "c = backslash" | "c = CHR 10" | "c = CHR 13" | "c = CHR 9"
    | (control) "c \<noteq> dquote" "c \<noteq> backslash" "c \<noteq> CHR 10" "c \<noteq> CHR 13" "c \<noteq> CHR 9" "ord_of c < 32"
    | (plain) "c \<noteq> dquote" "c \<noteq> backslash" "c \<noteq> CHR 10" "c \<noteq> CHR 13" "c \<noteq> CHR 9" "32 \<le> ord_of c"
    by linarith
  then show ?thesis
  proof cases
    case control
    then have "json_escape c = [backslash, CHR ''u'', CHR ''0'', CHR ''0'', hex_lower (ord_of c div 16),
        hex_lower (ord_of c mod 16)]" by (simp add: json_escape_def)
    with control show ?thesis
      by (simp add: unicode_escape_lower) (simp add: dquote_def backslash_def)
  next
    case plain
    then show ?thesis by (simp add: json_escape_def)
  qed (simp_all add: json_escape_def simple_escape_def dquote_def backslash_def)
qed

lemma read_pushed: "read_json_string (push_json_string s @ rest) = Some (s, rest)"
proof -
  have "read_chars (concat (map json_escape s) @ dquote # rest) = Some (s, rest)"
  proof (induction s)
    case (Cons c s)
    then show ?case by (simp add: read_escape cons_fst_def)
  qed simp
  then show ?thesis by (simp add: read_json_string_def push_json_string_def)
qed

lemma push_json_string_cons: "\<exists>t. push_json_string s = dquote # t \<and> t \<noteq> []"
  by (simp add: push_json_string_def)

lemma read_items_pushed:
  "keys \<noteq> [] \<Longrightarrow> length keys \<le> n \<Longrightarrow> read_items n (push_list keys @ CHR '']'' # rest) = Some (keys, rest)"
proof (induction keys arbitrary: n)
  case (Cons k keys)
  then obtain m where n: "n = Suc m" by (cases n) auto
  show ?case
  proof (cases "keys = []")
    case True
    then show ?thesis by (simp add: n push_list_def join_with_def read_pushed)
  next
    case False
    then have "push_list (k # keys) = push_json_string k @ CHR '','' # push_list keys"
      by (cases keys) (simp_all add: push_list_def join_with_def)
    with False Cons n show ?thesis by (simp add: read_pushed cons_fst_def)
  qed
qed simp

lemma length_push_list: "length keys \<le> length (push_list keys)"
proof (induction keys)
  case (Cons k keys)
  then show ?case
    by (cases keys) (auto simp: push_list_def join_with_def push_json_string_def)
qed (simp add: push_list_def join_with_def)

lemma read_array_pushed:
  "read_json_array (CHR ''['' # push_list keys @ CHR '']'' # rest) = Some (keys, rest)"
proof (cases "keys = []")
  case True
  then show ?thesis by (simp add: read_json_array_def push_list_def join_with_def)
next
  case False
  then obtain k ks where "keys = k # ks" by (cases keys) auto
  then obtain t where "push_list keys = dquote # t"
    by (auto simp: push_list_def join_with_def push_json_string_def)
  moreover have "length keys \<le> length (push_list keys @ CHR '']'' # rest)"
    using length_push_list [of keys] by simp
  moreover have "dquote \<noteq> CHR '']''" by (simp add: dquote_def)
  ultimately show ?thesis
    using read_items_pushed [OF False, of "length (push_list keys @ CHR '']'' # rest)" rest]
    by (simp add: read_json_array_def)
qed

text \<open>
  C37. Bodies decode to what was put in. A pushed string is read back exactly, up to its closing
  quote and not beyond, whatever bytes it has and whatever follows; the listing body is the fixed
  frame around an array that reads back as the keys, and the error body one around the message.
\<close>

theorem bodies_decode:
  "read_json_string (push_json_string s @ rest) = Some (s, rest)
   \<and> (\<exists>arr. list_keys keys = ''{\"data\":{\"keys\":'' @ arr \<and> read_json_array arr = Some (keys, ''}}''))
   \<and> (\<exists>arr. errors s = ''{\"errors\":'' @ arr \<and> read_json_array arr = Some ([s], ''}''))"
proof (intro conjI)
  show "read_json_string (push_json_string s @ rest) = Some (s, rest)" by (rule read_pushed)
  show "\<exists>arr. list_keys keys = ''{\"data\":{\"keys\":'' @ arr \<and> read_json_array arr = Some (keys, ''}}'')"
    using read_array_pushed [of keys "''}}''"]
    by (intro exI [of _ "''['' @ push_list keys @ '']}}''"]) (simp add: list_keys_def)
  show "\<exists>arr. errors s = ''{\"errors\":'' @ arr \<and> read_json_array arr = Some ([s], ''}'')"
    using read_array_pushed [of "[s]" "''}''"]
    by (intro exI [of _ "''['' @ push_json_string s @ '']}''"])
      (simp add: errors_def push_list_def join_with_def)
qed

text \<open>The secret is spliced in verbatim, and the body is valid text when the secret is.\<close>

lemma kv_data_splices:
  "\<exists>pre post. kv_data data version created = pre @ data @ post \<and>
     (\<forall>data'. kv_data data' version created = pre @ data' @ post)"
  unfolding kv_data_def by (metis append.assoc)

end
