(* ===== verification/Request.thy ===== *)
theory Request
  imports Kallisto_Prelude
begin

text \<open>
  \<open>src/server/vault_api/request.rs\<close>: the parsers of caller-supplied text. A URI is its path and
  optional query; a header map gives, for a lower-case name, the first value if present, and that
  value as text unless it is not visible ASCII. Functions that index a string by byte offset return
  an outer option whose \<open>None\<close> is the panic; it is shown never to occur on valid text. Also shown:
  the mount and path extracted are exactly those the URI spells, and what the query parameters
  match, substrings included.
\<close>

section \<open>request.rs\<close>

record uri =
  uri_path :: string
  uri_query :: "string option"

type_synonym headers = "string \<Rightarrow> string option option"

definition TOKEN_HEADER :: string where
  "TOKEN_HEADER = ''x-vault-token''"

definition header_text :: "headers \<Rightarrow> string \<Rightarrow> string option" where
  "header_text hs name = (case hs name of Some (Some v) \<Rightarrow> Some v | _ \<Rightarrow> None)"

definition presented_token :: "headers \<Rightarrow> string option" where
  "presented_token hs =
     (case header_text hs TOKEN_HEADER of
        Some token \<Rightarrow>
          if token \<noteq> [] then Some token
          else (case header_text hs ''authorization'' of
                  None \<Rightarrow> None
                | Some v \<Rightarrow> (case strip_prefix ''Bearer '' v of
                              None \<Rightarrow> None
                            | Some t \<Rightarrow> if t = [] then None else Some t))
      | None \<Rightarrow>
          (case header_text hs ''authorization'' of
             None \<Rightarrow> None
           | Some v \<Rightarrow> (case strip_prefix ''Bearer '' v of
                         None \<Rightarrow> None
                       | Some t \<Rightarrow> if t = [] then None else Some t)))"

definition policy_path :: "uri \<Rightarrow> string" where
  "policy_path u =
     (case strip_prefix ''/v1/'' (uri_path u) of Some p \<Rightarrow> p | None \<Rightarrow> uri_path u)"

definition extract_mount_and_path :: "string \<Rightarrow> string \<Rightarrow> (string \<times> string) option" where
  "extract_mount_and_path path expected_action =
     (case strip_prefix ''/v1/'' path of
        None \<Rightarrow> None
      | Some rest \<Rightarrow>
          (case splitn 3 (CHR ''/'') rest of
             mount # action # tail \<Rightarrow>
               if action \<noteq> expected_action then None
               else (case tail of secret_path # _ \<Rightarrow> Some (mount, secret_path) | [] \<Rightarrow> None)
           | _ \<Rightarrow> None))"

text \<open>The outer option is the panic of a slice, the inner one \<open>version_param\<close>'s result.\<close>

definition version_param :: "uri \<Rightarrow> nat option option" where
  "version_param u =
     (case uri_query u of
        None \<Rightarrow> Some None
      | Some query \<Rightarrow>
          (case find_str ''version='' query of
             None \<Rightarrow> Some None
           | Some at \<Rightarrow>
               (case slice_from query (at + length ''version='') of
                  None \<Rightarrow> None
                | Some rest \<Rightarrow>
                    (let fin = (case find_str ''&'' rest of Some e \<Rightarrow> e | None \<Rightarrow> length rest)
                     in map_option parse_u64 (slice_to rest fin)))))"

definition wants_list :: "uri \<Rightarrow> bool" where
  "wants_list u = (case uri_query u of None \<Rightarrow> False | Some q \<Rightarrow> contains_str ''list=true'' q)"

definition to_ascii_lowercase :: "char \<Rightarrow> char" where
  "to_ascii_lowercase c = (if 65 \<le> ord_of c \<and> ord_of c \<le> 90 then char_of (ord_of c + 32) else c)"

definition eq_ignore_ascii_case :: "string \<Rightarrow> string \<Rightarrow> bool" where
  "eq_ignore_ascii_case a b \<longleftrightarrow> map to_ascii_lowercase a = map to_ascii_lowercase b"

definition is_list_method :: "string \<Rightarrow> bool" where
  "is_list_method m = eq_ignore_ascii_case m ''LIST''"

definition is_read_method :: "string \<Rightarrow> bool" where
  "is_read_method m \<longleftrightarrow> m = ''GET'' \<or> m = ''HEAD''"

section \<open>Splitting the path\<close>

lemma extract_exact:
  assumes "CHR ''/'' \<notin> set action"
  shows "extract_mount_and_path path action = Some (mount, secret) \<longleftrightarrow>
    path = ''/v1/'' @ mount @ ''/'' @ action @ ''/'' @ secret \<and> CHR ''/'' \<notin> set mount"
proof
  assume "extract_mount_and_path path action = Some (mount, secret)"
  then show "path = ''/v1/'' @ mount @ ''/'' @ action @ ''/'' @ secret \<and> CHR ''/'' \<notin> set mount"
    by (auto simp: extract_mount_and_path_def numeral_3_eq_3 str_iffs
        split: option.splits list.splits if_splits prod.splits)
next
  assume "path = ''/v1/'' @ mount @ ''/'' @ action @ ''/'' @ secret \<and> CHR ''/'' \<notin> set mount"
  moreover from this have "split_once (CHR ''/'') (mount @ ''/'' @ action @ ''/'' @ secret)
      = Some (mount, action @ ''/'' @ secret)" by (simp add: str_iffs)
  moreover have "split_once (CHR ''/'') (action @ ''/'' @ secret) = Some (action, secret)"
    using assms by (simp add: str_iffs)
  ultimately show "extract_mount_and_path path action = Some (mount, secret)"
    using strip_prefix_append [of "''/v1/''" "mount @ ''/'' @ action @ ''/'' @ secret"]
    by (simp add: extract_mount_and_path_def numeral_3_eq_3)
qed

lemma policy_path_extract:
  assumes "extract_mount_and_path (uri_path u) action = Some (mount, secret)" and "CHR ''/'' \<notin> set action"
  shows "policy_path u = mount @ ''/'' @ action @ ''/'' @ secret"
  using assms strip_prefix_append [of "''/v1/''" "mount @ ''/'' @ action @ ''/'' @ secret"]
  by (simp add: extract_exact policy_path_def)

section \<open>Query parameters\<close>

lemma find_str_spec: "find_str p s = Some i \<Longrightarrow> \<exists>r. s = take i s @ p @ r \<and> i \<le> length s"
  by (rule find_str_Some_starts)

lemma find_amp: "find_str ''&'' s = Some i \<Longrightarrow> is_char_boundary s i"
proof -
  assume "find_str ''&'' s = Some i"
  then obtain r where "s = take i s @ ''&'' @ r" "i \<le> length s" by (blast dest: find_str_spec)
  then have "i < length s \<and> s ! i = CHR ''&''"
    by (metis append_Cons append_eq_conv_conj hd_drop_conv_nth id_take_nth_drop length_append length_take
        list.sel(1) min.absorb2 nth_append_length less_add_same_cancel1 length_greater_0_conv list.distinct(1))
  then show ?thesis by (simp add: is_char_boundary_def continuation_def ord_of_def)
qed

lemma version_param_total:
  assumes "\<And>q. uri_query u = Some q \<Longrightarrow> valid_utf8 q"
  shows "version_param u \<noteq> None"
proof (cases "uri_query u")
  case (Some q)
  show ?thesis
  proof (cases "find_str ''version='' q")
    case found: (Some at)
    then obtain r where q: "q = take at q @ ''version='' @ r" and "at \<le> length q"
      by (blast dest: find_str_spec)
    let ?pre = "take at q @ ''version''"
    have "q = ?pre @ CHR ''='' # r" and "Suc (length ?pre) = at + length ''version=''"
      using q \<open>at \<le> length q\<close> by simp_all
    then have "slice_from q (at + length ''version='') = Some r"
      using boundary_after_ascii [of ?pre "CHR ''=''" r] assms [OF Some] by (simp add: ord_of_def)
    moreover have "slice_to r (case find_str ''&'' r of Some e \<Rightarrow> e | None \<Rightarrow> length r) \<noteq> None"
      using find_amp [of r] by (auto simp: slice_to_def is_char_boundary_def split: option.splits)
    ultimately show ?thesis using Some found by (simp add: version_param_def Let_def)
  qed (simp add: version_param_def Some)
qed (simp add: version_param_def)

text \<open>
  The parameter is looked for as a substring, so another parameter whose name ends in it is taken
  for it, and so is the flag of a listing.
\<close>

lemma version_param_substring: "version_param \<lparr>uri_path = p, uri_query = Some ''api_version=7''\<rparr> = Some (Some 7)"
proof -
  have "parse_u64 ''7'' = Some 7"
    by (simp add: parse_u64_def parse_unsigned_def digit_value_def ord_of_def u64_max_def)
  then show ?thesis
    by (simp add: version_param_def slice_from_def slice_to_def is_char_boundary_def
        starts_with_def continuation_def ord_of_def)
qed

lemma wants_list_substring: "wants_list \<lparr>uri_path = p, uri_query = Some ''whitelist=true''\<rparr>"
  by (simp add: wants_list_def contains_str_def starts_with_def)

text \<open>
  The request parsers are exact and do not panic. A mount and a secret path are extracted for
  an action precisely when the URI path spells them in that order, and the path authorised is then
  the same text without its version prefix; reading the version parameter returns for every valid
  query, however its characters are encoded.
\<close>

theorem request_parsers:
  fixes u :: uri
  assumes "CHR ''/'' \<notin> set action" and "\<And>q. uri_query u = Some q \<Longrightarrow> valid_utf8 q"
  shows "(\<forall>mount secret. extract_mount_and_path (uri_path u) action = Some (mount, secret) \<longleftrightarrow>
       uri_path u = ''/v1/'' @ mount @ ''/'' @ action @ ''/'' @ secret \<and> CHR ''/'' \<notin> set mount)
    \<and> (\<forall>mount secret. extract_mount_and_path (uri_path u) action = Some (mount, secret) \<longrightarrow>
       policy_path u = mount @ ''/'' @ action @ ''/'' @ secret)
    \<and> (\<exists>v. version_param u = Some v)"
  using extract_exact [OF assms(1)] policy_path_extract [OF _ assms(1)] version_param_total [OF assms(2)]
  by (auto simp del: append_Cons)

theorem request_parsers_witness:
  "extract_mount_and_path ''/v1/secret/data/a/b'' ''data'' = Some (''secret'', ''a/b'')"
proof -
  let ?u = "\<lparr>uri_path = ''/v1/secret/data/a/b'', uri_query = None\<rparr>"
  have "CHR ''/'' \<notin> set ''data''" by simp
  from request_parsers [OF this, of ?u] show ?thesis by simp
qed

end
