(* ===== verification/Vyukov_Queue.thy ===== *)
theory Vyukov_Queue
  imports Kallisto_Prelude
begin

text \<open>
  \<open>components/kallisto_queue/src/lib.rs\<close>: the bounded queue of the access log. Positions and
  sequence numbers are 64-bit words that wrap, as in a release build. This theory is the
  single-thread view: each operation runs to completion, a weak compare-and-swap may fail
  spuriously any number of times, and a call that would spin for ever is \<open>None\<close>. The abstraction
  \<open>queue_rep\<close> relates the ring to the list of its contents with a ghost count of dequeues.

  Shown here: every operation is the one on bounded FIFO queues (the locale \<open>bounded_queue\<close>, which
  the access log uses), for every capacity the constructor accepts and across wrap-around of the
  counters; no call spins; a queue of capacity one, which the constructor rejects, would lose data.
\<close>

section \<open>lib.rs\<close>

datatype queue_error = Full | Empty

definition EMPTY :: u64 where
  "EMPTY = 0"

definition FILLED :: u64 where
  "FILLED = 1"

record 'a node =
  sequence :: u64
  payload :: "'a option" \<comment> \<open>\<open>None\<close>: uninitialised or moved out\<close>

record 'a queue =
  buffer :: "'a node list"
  enqueue_pos :: u64
  dequeue_pos :: u64

definition is_power_of_two :: "nat \<Rightarrow> bool" where
  "is_power_of_two n \<longleftrightarrow> (\<exists>k \<in> set [0..<64]. n = 2 ^ k)"

text \<open>\<open>None\<close>: the assertion fails and the constructor panics.\<close>

definition queue_new :: "nat \<Rightarrow> 'a queue option" where
  "queue_new capacity =
     (if is_power_of_two capacity \<and> capacity \<ge> 2
      then Some \<lparr>buffer = map (\<lambda>pos. \<lparr>sequence = word_of_nat pos + EMPTY, payload = None\<rparr>) [0..<capacity],
                 enqueue_pos = 0, dequeue_pos = 0\<rparr>
      else None)"

definition slot_index :: "'a queue \<Rightarrow> u64 \<Rightarrow> nat" where
  "slot_index q pos = unat (pos AND (word_of_nat (length (buffer q)) - 1))"

definition lag :: "'a queue \<Rightarrow> u64 \<Rightarrow> u64 \<Rightarrow> int" where
  "lag q pos ready = sint (sequence (buffer q ! slot_index q pos) - (pos + ready))"

datatype claim_result = Claimed u64 | NotReady | Spins

text \<open>
  The loop of \<open>claim\<close>. The list says, for each compare-and-swap in turn, whether it fails
  spuriously; past its end it succeeds. With no other thread the cursor still holds \<open>pos\<close> after
  such a failure, and a positive lag never goes away.
\<close>

fun claim :: "'a queue \<Rightarrow> u64 \<Rightarrow> u64 \<Rightarrow> bool list \<Rightarrow> claim_result" where
  "claim q pos ready spurious =
     (if lag q pos ready < 0 then NotReady
      else if lag q pos ready > 0 then Spins
      else (case spurious of
              True # rest \<Rightarrow> claim q pos ready rest
            | _ \<Rightarrow> Claimed pos))"

declare claim.simps [simp del]

definition set_node :: "'a queue \<Rightarrow> nat \<Rightarrow> 'a node \<Rightarrow> 'a queue" where
  "set_node q i n = q\<lparr>buffer := (buffer q)[i := n]\<rparr>"

definition enqueue :: "bool list \<Rightarrow> 'a queue \<Rightarrow> 'a \<Rightarrow> ('a queue \<times> (queue_error + unit)) option" where
  "enqueue spurious q v =
     (case claim q (enqueue_pos q) EMPTY spurious of
        Spins \<Rightarrow> None
      | NotReady \<Rightarrow> Some (q, Inl Full)
      | Claimed pos \<Rightarrow>
          (let q = q\<lparr>enqueue_pos := pos + 1\<rparr> in
           Some (set_node q (slot_index q pos) \<lparr>sequence = pos + FILLED, payload = Some v\<rparr>, Inr ())))"

text \<open>Reading an uninitialised slot would be undefined behaviour: the inner \<open>None\<close>.\<close>

definition dequeue :: "bool list \<Rightarrow> 'a queue \<Rightarrow> ('a queue \<times> (queue_error + 'a option)) option" where
  "dequeue spurious q =
     (case claim q (dequeue_pos q) FILLED spurious of
        Spins \<Rightarrow> None
      | NotReady \<Rightarrow> Some (q, Inl Empty)
      | Claimed pos \<Rightarrow>
          (let q = q\<lparr>dequeue_pos := pos + 1\<rparr>;
               i = slot_index q pos
           in Some (set_node q i \<lparr>sequence = pos + word_of_nat (length (buffer q)), payload = None\<rparr>,
                    Inr (payload (buffer q ! i)))))"

text \<open>The loop of \<open>drop\<close>, with fuel; the result lists the values dropped.\<close>

fun queue_drop :: "nat \<Rightarrow> 'a queue \<Rightarrow> 'a option list option" where
  "queue_drop 0 q = None"
| "queue_drop (Suc n) q =
     (case dequeue [] q of
        None \<Rightarrow> None
      | Some (q', Inl _) \<Rightarrow> Some []
      | Some (q', Inr v) \<Rightarrow> map_option (\<lambda>vs. v # vs) (queue_drop n q'))"

section \<open>Abstraction\<close>

text \<open>
  \<open>d\<close> counts all dequeues so far. The slot of position \<open>d + i\<close> is filled for the \<open>i\<close> that index the
  contents, and awaits the producer of that position for the rest of the lap.
\<close>

definition queue_rep :: "'a queue \<Rightarrow> nat \<Rightarrow> 'a list \<Rightarrow> bool" where
  "queue_rep q d xs \<longleftrightarrow>
     (let cap = length (buffer q) in
      is_power_of_two cap \<and> cap \<ge> 2 \<and> length xs \<le> cap
      \<and> dequeue_pos q = word_of_nat d \<and> enqueue_pos q = word_of_nat (d + length xs)
      \<and> (\<forall>i < cap. buffer q ! ((d + i) mod cap) =
           (if i < length xs then \<lparr>sequence = word_of_nat (d + i + 1), payload = Some (xs ! i)\<rparr>
            else \<lparr>sequence = word_of_nat (d + i), payload = None\<rparr>)))"

lemma mask_index:
  assumes "is_power_of_two (length (buffer q))"
  shows "slot_index q (word_of_nat n) = n mod length (buffer q)"
proof -
  obtain k where k: "k < 64" "length (buffer q) = 2 ^ k"
    using assms by (auto simp: is_power_of_two_def)
  have "word_of_nat (2 ^ k) - 1 = (mask k :: u64)"
    by (simp add: mask_eq_exp_minus_1)
  then have "slot_index q (word_of_nat n) = unat (take_bit k (word_of_nat n :: u64))"
    by (simp add: slot_index_def k(2) take_bit_eq_mask)
  also have "\<dots> = take_bit k (take_bit 64 n)"
    by (simp add: unsigned_take_bit_eq unsigned_of_nat)
  also have "\<dots> = n mod 2 ^ k"
    using k(1) by (simp only: take_bit_take_bit) (simp add: min_absorb1 take_bit_eq_mod)
  finally show ?thesis by (simp add: k(2))
qed

lemma capacity_bound: "is_power_of_two n \<Longrightarrow> n \<le> 2 ^ 63 \<and> 0 < n"
  using power_increasing [of _ 63 "2 :: nat"] by (force simp: is_power_of_two_def)

lemma sint_small_neg:
  assumes "0 < m" and "m \<le> 2 ^ 63"
  shows "sint (- word_of_nat m :: u64) < 0"
proof -
  have "(- word_of_nat m :: u64) = word_of_int (- int m)" by simp
  then have "sint (- word_of_nat m :: u64) = signed_take_bit 63 (- int m)"
    by (simp only: signed_of_int) simp
  also have "\<dots> = - int m"
    using assms by (intro signed_take_bit_int_eq_self) auto
  finally show ?thesis using assms by simp
qed

lemma claim_ready: "lag q pos ready = 0 \<Longrightarrow> claim q pos ready spurious = Claimed pos"
  by (induction q pos ready spurious rule: claim.induct) (subst claim.simps, auto split: list.splits bool.splits)

lemma claim_not_ready: "lag q pos ready < 0 \<Longrightarrow> claim q pos ready spurious = NotReady"
  by (subst claim.simps) simp

lemma rep_slot:
  assumes "queue_rep q d xs" and "i < length (buffer q)"
  shows "buffer q ! slot_index q (word_of_nat (d + i)) =
    (if i < length xs then \<lparr>sequence = word_of_nat (d + i + 1), payload = Some (xs ! i)\<rparr>
     else \<lparr>sequence = word_of_nat (d + i), payload = None\<rparr>)"
  using assms mask_index [of q "d + i"] by (simp add: queue_rep_def Let_def)

lemma rep_capacity:
  assumes "queue_rep q d xs"
  shows "length (buffer q) \<ge> 2" and "length (buffer q) \<le> 2 ^ 63" and "length xs \<le> length (buffer q)"
    and "buffer q \<noteq> []"
  using assms capacity_bound by (force simp: queue_rep_def Let_def)+

text \<open>Positions of one lap are at distinct slots.\<close>

lemma lap_distinct:
  assumes "i < n" and "j < n"
  shows "((d + i) mod n = (d + j) mod n) = (i = (j :: nat))"
proof -
  have "i = j" if "i \<le> j" "j < n" "(d + j) mod n = (d + i) mod n" for i j :: nat
  proof -
    have "n dvd (d + j) - (d + i)" using that by (subst mod_eq_dvd_iff_nat [symmetric]) auto
    then have "n dvd j - i" by simp
    with that show ?thesis using nat_dvd_not_less [of "j - i" n] by (cases "i = j") auto
  qed
  with assms show ?thesis by (metis linear)
qed

lemma enqueue_room:
  assumes rep: "queue_rep q d xs" and room: "length xs < length (buffer q)"
  shows "\<exists>q'. enqueue spurious q v = Some (q', Inr ()) \<and> queue_rep q' d (xs @ [v])
    \<and> length (buffer q') = length (buffer q)"
proof -
  let ?cap = "length (buffer q)" and ?pos = "word_of_nat (d + length xs) :: u64"
  have pos: "enqueue_pos q = ?pos" and two: "is_power_of_two ?cap"
    using rep by (simp_all add: queue_rep_def Let_def)
  have "lag q ?pos EMPTY = 0"
    using rep_slot [OF rep room] by (simp add: lag_def EMPTY_def)
  then have claim: "claim q (enqueue_pos q) EMPTY spurious = Claimed ?pos"
    by (simp add: pos claim_ready)
  let ?i = "(d + length xs) mod ?cap"
  let ?n = "\<lparr>sequence = ?pos + FILLED, payload = Some v\<rparr>"
  let ?q = "set_node (q\<lparr>enqueue_pos := ?pos + 1\<rparr>) ?i ?n"
  have idx: "slot_index (q\<lparr>enqueue_pos := ?pos + 1\<rparr>) ?pos = ?i"
    using mask_index [of "q\<lparr>enqueue_pos := ?pos + 1\<rparr>" "d + length xs"] two by simp
  have "buffer ?q ! ((d + i) mod ?cap) =
      (if i < length (xs @ [v]) then \<lparr>sequence = word_of_nat (d + i + 1), payload = Some ((xs @ [v]) ! i)\<rparr>
       else \<lparr>sequence = word_of_nat (d + i), payload = None\<rparr>)" if i: "i < ?cap" for i
  proof (cases "i = length xs")
    case True
    moreover have "?i < ?cap" using rep_capacity(4) [OF rep] by simp
    ultimately show ?thesis by (simp add: set_node_def FILLED_def add_ac)
  next
    case False
    then have "?i \<noteq> (d + i) mod ?cap" using lap_distinct [OF room i] by simp
    then show ?thesis using rep i False by (simp add: set_node_def queue_rep_def Let_def nth_append)
  qed
  then have "queue_rep ?q d (xs @ [v])"
    using rep room by (auto simp: queue_rep_def Let_def set_node_def)
  moreover have "enqueue spurious q v = Some (?q, Inr ())"
    by (simp add: enqueue_def claim Let_def idx del: of_nat_add)
  ultimately show ?thesis by (auto simp: set_node_def)
qed

lemma enqueue_full:
  assumes rep: "queue_rep q d xs" and full: "length xs = length (buffer q)"
  shows "enqueue spurious q v = Some (q, Inl Full)"
proof -
  let ?cap = "length (buffer q)" and ?pos = "word_of_nat (d + length xs) :: u64"
  have pos: "enqueue_pos q = ?pos" and two: "is_power_of_two ?cap"
    using rep by (simp_all add: queue_rep_def Let_def)
  have "slot_index q ?pos = slot_index q (word_of_nat (d + 0))"
    using mask_index [OF two, of "d + length xs"] mask_index [OF two, of "d + 0"] full by simp
  then have seq: "sequence (buffer q ! slot_index q ?pos) = word_of_nat (d + 1)"
    using rep_slot [OF rep, of 0] rep_capacity [OF rep] full by auto
  have "word_of_nat (d + 1) - (?pos + EMPTY) = - word_of_nat (?cap - 1)"
    using rep_capacity(1) [OF rep] full by (simp add: EMPTY_def of_nat_diff)
  then have "lag q ?pos EMPTY < 0"
    using seq sint_small_neg [of "?cap - 1"] rep_capacity [OF rep] by (simp add: lag_def)
  then show ?thesis by (simp add: enqueue_def pos claim_not_ready)
qed

lemma dequeue_empty:
  assumes rep: "queue_rep q d []"
  shows "dequeue spurious q = Some (q, Inl Empty)"
proof -
  have pos: "dequeue_pos q = word_of_nat d" using rep by (simp add: queue_rep_def Let_def)
  have "sequence (buffer q ! slot_index q (word_of_nat d)) = word_of_nat d"
    using rep_slot [OF rep, of 0] rep_capacity [OF rep] by auto
  then have "lag q (word_of_nat d) FILLED < 0"
    using sint_small_neg [of 1] by (simp add: lag_def FILLED_def)
  then show ?thesis by (simp add: dequeue_def pos claim_not_ready)
qed

lemma dequeue_first:
  assumes rep: "queue_rep q d (x # xs)"
  shows "\<exists>q'. dequeue spurious q = Some (q', Inr (Some x)) \<and> queue_rep q' (Suc d) xs
    \<and> length (buffer q') = length (buffer q)"
proof -
  let ?cap = "length (buffer q)" and ?pos = "word_of_nat d :: u64"
  have pos: "dequeue_pos q = ?pos" and two: "is_power_of_two ?cap"
    using rep by (simp_all add: queue_rep_def Let_def)
  have cap: "0 < ?cap" using rep_capacity(4) [OF rep] by simp
  have node: "buffer q ! slot_index q ?pos = \<lparr>sequence = word_of_nat (d + 1), payload = Some x\<rparr>"
    using rep_slot [OF rep, of 0] cap by simp
  then have "lag q ?pos FILLED = 0" by (simp add: lag_def FILLED_def)
  then have claim: "claim q (dequeue_pos q) FILLED spurious = Claimed ?pos"
    by (simp add: pos claim_ready)
  have idx: "slot_index (q\<lparr>dequeue_pos := ?pos + 1\<rparr>) ?pos = d mod ?cap" "slot_index q ?pos = d mod ?cap"
    using mask_index [of "q\<lparr>dequeue_pos := ?pos + 1\<rparr>" d] mask_index [of q d] two by simp_all
  let ?q = "set_node (q\<lparr>dequeue_pos := ?pos + 1\<rparr>) (d mod ?cap)
      \<lparr>sequence = ?pos + word_of_nat ?cap, payload = None\<rparr>"
  have "buffer ?q ! ((Suc d + i) mod ?cap) =
      (if i < length xs then \<lparr>sequence = word_of_nat (Suc d + i + 1), payload = Some (xs ! i)\<rparr>
       else \<lparr>sequence = word_of_nat (Suc d + i), payload = None\<rparr>)" if i: "i < ?cap" for i
  proof (cases "i = ?cap - 1")
    case True
    then have "(Suc d + i) mod ?cap = d mod ?cap" and "Suc d + i = d + ?cap" and "\<not> i < length xs"
      using cap rep_capacity(3) [OF rep] by auto
    moreover have "word_of_nat ?cap = (1 + word_of_nat i :: u64)"
      using True cap by (metis Suc_diff_1 of_nat_Suc)
    ultimately show ?thesis using cap by (simp add: set_node_def add_ac)
  next
    case False
    then have "Suc i < ?cap" using i by simp
    then have "(Suc d + i) mod ?cap \<noteq> d mod ?cap"
      using lap_distinct [of "Suc i" ?cap 0 d] cap by simp
    then show ?thesis
      using rep \<open>Suc i < ?cap\<close> by (auto simp: set_node_def queue_rep_def Let_def dest!: spec [of _ "Suc i"])
  qed
  then have "queue_rep ?q (Suc d) xs"
    using rep by (auto simp: queue_rep_def Let_def set_node_def)
  moreover have "dequeue spurious q = Some (?q, Inr (Some x))"
    using node by (simp add: dequeue_def claim Let_def idx set_node_def)
  ultimately show ?thesis by (auto simp: set_node_def)
qed

lemma queue_new_rep:
  "queue_new cap = Some q \<Longrightarrow> queue_rep q 0 [] \<and> length (buffer q) = cap"
  by (auto simp: queue_new_def queue_rep_def Let_def EMPTY_def split: if_splits)

section \<open>The contract\<close>

text \<open>
  A bounded first-in first-out queue as its clients use it: \<open>put\<close> answers whether there was room,
  \<open>get\<close> what it took out, and \<open>holds\<close> relates a state to its capacity and contents.
\<close>

locale bounded_queue =
  fixes put :: "'q \<Rightarrow> 'a \<Rightarrow> 'q \<times> bool"
    and get :: "'q \<Rightarrow> 'q \<times> 'a option"
    and holds :: "'q \<Rightarrow> nat \<Rightarrow> 'a list \<Rightarrow> bool"
  assumes put_room: "holds q n xs \<Longrightarrow> length xs < n \<Longrightarrow> \<exists>q'. put q x = (q', True) \<and> holds q' n (xs @ [x])"
    and put_full: "holds q n xs \<Longrightarrow> length xs = n \<Longrightarrow> put q x = (q, False)"
    and get_first: "holds q n (x # xs) \<Longrightarrow> \<exists>q'. get q = (q', Some x) \<and> holds q' n xs"
    and get_nothing: "holds q n [] \<Longrightarrow> get q = (q, None)"
    and bounded: "holds q n xs \<Longrightarrow> length xs \<le> n"
begin

lemma put_cases:
  assumes "holds q n xs"
  shows "\<exists>q' ok. put q x = (q', ok) \<and> holds q' n (if ok then xs @ [x] else xs) \<and> ok = (length xs < n)"
proof (cases "length xs < n")
  case True
  with put_room [OF assms True, of x] show ?thesis by auto
next
  case False
  then have "length xs = n" using bounded [OF assms] by simp
  from put_full [OF assms this] assms False show ?thesis by auto
qed

lemma get_cases:
  assumes "holds q n xs"
  shows "\<exists>q'. get q = (q', case xs of [] \<Rightarrow> None | x # _ \<Rightarrow> Some x) \<and> holds q' n (tl xs)"
  using assms get_first get_nothing by (cases xs) fastforce+

end

text \<open>The queue at that interface; a call that spun or read an uninitialised slot would be lost.\<close>

definition queue_put :: "bool list \<Rightarrow> 'a queue \<Rightarrow> 'a \<Rightarrow> 'a queue \<times> bool" where
  "queue_put sp q v = (case enqueue sp q v of Some (q', Inr _) \<Rightarrow> (q', True) | _ \<Rightarrow> (q, False))"

definition queue_get :: "bool list \<Rightarrow> 'a queue \<Rightarrow> 'a queue \<times> 'a option" where
  "queue_get sp q = (case dequeue sp q of Some (q', Inr v) \<Rightarrow> (q', v) | _ \<Rightarrow> (q, None))"

definition queue_holds :: "'a queue \<Rightarrow> nat \<Rightarrow> 'a list \<Rightarrow> bool" where
  "queue_holds q n xs \<longleftrightarrow> length (buffer q) = n \<and> (\<exists>d. queue_rep q d xs)"

lemma queue_holdsI: "queue_rep q d xs \<Longrightarrow> length (buffer q) = n \<Longrightarrow> queue_holds q n xs"
  unfolding queue_holds_def by blast

lemma queue_holdsE:
  assumes "queue_holds q n xs"
  obtains d where "queue_rep q d xs" and "n = length (buffer q)"
  using assms unfolding queue_holds_def by blast

interpretation vyukov: bounded_queue "queue_put sp" "queue_get sp'" queue_holds for sp sp'
proof
  fix q :: "'a queue" and n xs x
  assume "queue_holds q n xs"
  then obtain d where d: "queue_rep q d xs" and n: "n = length (buffer q)" by (rule queue_holdsE)
  show "\<exists>q'. queue_put sp q x = (q', True) \<and> queue_holds q' n (xs @ [x])" if room: "length xs < n"
  proof -
    obtain q' where q': "enqueue sp q x = Some (q', Inr ())"
      "queue_rep q' d (xs @ [x])" "length (buffer q') = n"
      using enqueue_room [OF d room [unfolded n], of sp x] unfolding n by blast
    have "queue_put sp q x = (q', True)" by (simp add: queue_put_def q'(1))
    with queue_holdsI [OF q'(2,3)] show ?thesis by blast
  qed
  show "queue_put sp q x = (q, False)" if "length xs = n"
    using enqueue_full [OF d that [unfolded n], of sp x] by (simp add: queue_put_def)
  show "length xs \<le> n" unfolding n by (rule rep_capacity(3) [OF d])
next
  fix q :: "'a queue" and n x xs
  assume "queue_holds q n (x # xs)"
  then obtain d where d: "queue_rep q d (x # xs)" and n: "n = length (buffer q)" by (rule queue_holdsE)
  obtain q' where q': "dequeue sp' q = Some (q', Inr (Some x))" "queue_rep q' (Suc d) xs" "length (buffer q') = n"
    using dequeue_first [OF d, of sp'] unfolding n by blast
  have "queue_get sp' q = (q', Some x)" by (simp add: queue_get_def q'(1))
  with queue_holdsI [OF q'(2,3)] show "\<exists>q'. queue_get sp' q = (q', Some x) \<and> queue_holds q' n xs" by blast
next
  fix q :: "'a queue" and n
  assume "queue_holds q n []"
  then obtain d where "queue_rep q d []" by (rule queue_holdsE)
  from dequeue_empty [OF this, of sp'] show "queue_get sp' q = (q, None)" by (simp add: queue_get_def)
qed

lemma queue_drop_all: "queue_rep q d xs \<Longrightarrow> length xs < n \<Longrightarrow> queue_drop n q = Some (map Some xs)"
proof (induction xs arbitrary: q d n)
  case Nil
  then show ?case by (cases n) (auto simp: dequeue_empty)
next
  case (Cons x xs)
  from dequeue_first [OF Cons.prems(1), of "[]"] obtain q' where
    "dequeue [] q = Some (q', Inr (Some x))" "queue_rep q' (Suc d) xs" by blast
  with Cons show ?case by (cases n) auto
qed

text \<open>
  C22. The ring is a bounded FIFO queue. For a queue of any accepted capacity, in any state its
  operations lead to (including after the 64-bit positions wrapped) and whatever spurious failures
  the compare-and-swap has: enqueueing appends when there is room and answers \<open>Full\<close>, changing
  nothing, exactly when the capacity is reached; dequeueing takes the oldest element or answers
  \<open>Empty\<close>; no call spins, and no uninitialised slot is read.
\<close>

theorem queue_is_fifo:
  assumes "queue_rep q d xs"
  shows "(if length xs < length (buffer q)
      then \<exists>q'. enqueue sp q v = Some (q', Inr ()) \<and> queue_rep q' d (xs @ [v])
      else enqueue sp q v = Some (q, Inl Full))
    \<and> (case xs of
         [] \<Rightarrow> dequeue sp' q = Some (q, Inl Empty)
       | x # rest \<Rightarrow> \<exists>q'. dequeue sp' q = Some (q', Inr (Some x)) \<and> queue_rep q' (Suc d) rest)"
proof
  show "if length xs < length (buffer q)
      then \<exists>q'. enqueue sp q v = Some (q', Inr ()) \<and> queue_rep q' d (xs @ [v])
      else enqueue sp q v = Some (q, Inl Full)"
    using enqueue_room [OF assms] enqueue_full [OF assms] rep_capacity(3) [OF assms] by fastforce
  show "case xs of
         [] \<Rightarrow> dequeue sp' q = Some (q, Inl Empty)
       | x # rest \<Rightarrow> \<exists>q'. dequeue sp' q = Some (q', Inr (Some x)) \<and> queue_rep q' (Suc d) rest"
    using dequeue_empty dequeue_first assms by (fastforce split: list.splits)
qed

theorem queue_is_fifo_witness:
  "\<exists>q q'. queue_new 2 = Some q \<and> enqueue [True] q ''a'' = Some (q', Inr ()) \<and> queue_rep q' 0 [''a'']"
proof -
  have "is_power_of_two 2" unfolding is_power_of_two_def by (intro bexI [of _ 1]) auto
  then obtain q :: "string queue" where q: "queue_new 2 = Some q" by (simp add: queue_new_def)
  from queue_new_rep [OF q] queue_is_fifo [of q 0 "[]" "[True]" "''a''"] q show ?thesis by auto
qed

text \<open>
  Why capacity one is rejected: a second value is accepted over the first, which is lost, and the
  next dequeue spins.
\<close>

definition one_slot :: "nat queue" where
  "one_slot = \<lparr>buffer = [\<lparr>sequence = 0, payload = None\<rparr>], enqueue_pos = 0, dequeue_pos = 0\<rparr>"

lemma capacity_one_loses:
  "\<exists>q1 q2. enqueue [] one_slot 1 = Some (q1, Inr ()) \<and> enqueue [] q1 2 = Some (q2, Inr ())
     \<and> dequeue [] q2 = None"
  by (simp add: enqueue_def dequeue_def claim.simps lag_def slot_index_def one_slot_def set_node_def
      EMPTY_def FILLED_def Let_def)

end
