(* ===== verification/Access_Log.thy ===== *)
theory Access_Log
  imports Vyukov_Queue Policy_Token
begin

text \<open>
  \<open>components/kallisto_telemetry/src/access_log.rs\<close>: the drop-on-full access log. A line is a fixed
  buffer of 192 bytes filled by a truncating writer; every worker has a producer with its own
  sequence and drop counters; all producers share one queue and one gate, which a single writer
  thread drains into a sink.

  The first part is the sequential code, one definition per function. The second part is the
  protocol between the producers and the writer thread as a step relation: a producer enqueues and
  only then looks at the \<open>parked\<close> flag, the writer publishes the flag and only then looks at the
  queue again. Its steps are the atomic actions in one total order, which is what the two
  sequentially consistent fences give; each queue operation is one step.

  The writer ignores what \<open>write_all\<close> and \<open>flush\<close> answer and clears the batch: a write is therefore the
  batch together with how many of its bytes got through.

  Shown here: no line of the fields the server writes is truncated; every accepted line is handed to
  the sink exactly once and in order, and what was not accepted is counted; the writer never sleeps
  on a line that nobody will wake it for; and what one call of \<open>drain\<close> takes.
\<close>

section \<open>Lines\<close>

definition LINE_CAPACITY :: nat where
  "LINE_CAPACITY = 192"

record line =
  line_bytes :: string
  line_len :: nat \<comment> \<open>\<open>u8\<close>\<close>

definition line_as_str :: "line \<Rightarrow> string" where
  "line_as_str l =
     (let shown = take (line_len l) (line_bytes l) in if valid_utf8 shown then shown else '''')"

record log_record =
  rec_method :: string
  rec_action :: string
  rec_path :: string
  rec_token :: string
  rec_status :: nat
  rec_enforced :: bool

record line_writer =
  lw_bytes :: string
  lw_len :: nat

definition line_writer_new :: line_writer where
  "line_writer_new = \<lparr>lw_bytes = replicate LINE_CAPACITY (CHR 0x00), lw_len = 0\<rparr>"

definition writer_str :: "string \<Rightarrow> line_writer \<Rightarrow> line_writer" where
  "writer_str t out =
     (let room = LINE_CAPACITY - lw_len out;
          n = min (length t) room
      in out\<lparr>lw_bytes := take (lw_len out) (lw_bytes out) @ take n t @ drop (lw_len out + n) (lw_bytes out),
             lw_len := lw_len out + n\<rparr>)"

text \<open>The digit loop, from the end of the scratch array; \<open>None\<close>: the index would underflow.\<close>

fun digit_loop :: "nat \<Rightarrow> nat \<Rightarrow> string \<Rightarrow> (nat \<times> string) option" where
  "digit_loop v 0 digits = None"
| "digit_loop v (Suc i) digits =
     (let digits = digits[i := digit_char (v mod 10)] in
      if v div 10 = 0 then Some (i, digits) else digit_loop (v div 10) i digits)"

definition writer_u64 :: "nat \<Rightarrow> line_writer \<Rightarrow> line_writer option" where
  "writer_u64 v out =
     (case digit_loop v 20 (replicate 20 (CHR 0x00)) of
        None \<Rightarrow> None
      | Some (i, digits) \<Rightarrow>
          Some (writer_str (if valid_utf8 (drop i digits) then drop i digits else ''0'') out))"

definition writer_finish :: "line_writer \<Rightarrow> line" where
  "writer_finish out = \<lparr>line_bytes = lw_bytes out, line_len = lw_len out mod 256\<rparr>"

text \<open>\<open>None\<close>: the clock is before 1970.\<close>

definition now_millis :: "nat option \<Rightarrow> nat" where
  "now_millis since_epoch = (case since_epoch of None \<Rightarrow> 0 | Some ms \<Rightarrow> ms mod 2 ^ 64)"

section \<open>Producers, the gate and the log\<close>

record producer =
  p_sequence :: u64
  p_dropped :: u64
  p_worker :: nat
  p_enabled :: bool

text \<open>\<open>permit\<close> is the writer thread's token in the standard library: \<open>unpark\<close> sets it.\<close>

record writer_gate =
  parked :: bool
  thread_set :: bool
  permit :: bool

record access_log =
  al_queue :: "line queue"
  al_producers :: "producer list"
  al_running :: bool
  al_gate :: writer_gate

definition render :: "producer \<Rightarrow> nat \<Rightarrow> u64 \<Rightarrow> log_record \<Rightarrow> line option" where
  "render p ms seq r =
     Option.bind (writer_u64 ms (writer_str ''ts='' line_writer_new)) (\<lambda>out.
     Option.bind (writer_u64 (unat seq) (writer_str '' seq='' out)) (\<lambda>out.
     Option.bind (writer_u64 (p_worker p) (writer_str '' worker='' out)) (\<lambda>out.
     let out = writer_str (rec_method r) (writer_str '' method='' out);
         out = writer_str (rec_action r) (writer_str '' action='' out);
         out = writer_str (id_as_str (rec_path r)) (writer_str '' path='' out);
         out = writer_str (id_as_str (rec_token r)) (writer_str '' token='' out)
     in Option.bind (writer_u64 (rec_status r) (writer_str '' status='' out)) (\<lambda>out.
     Some (writer_finish (writer_str (if rec_enforced r then ''on'' else ''off'')
       (writer_str '' authz='' out)))))))"

definition gate_new :: writer_gate where
  "gate_new = \<lparr>parked = False, thread_set = False, permit = False\<rparr>"

definition writer_started :: "writer_gate \<Rightarrow> writer_gate" where
  "writer_started g = g\<lparr>thread_set := True\<rparr>"

definition gate_wake :: "writer_gate \<Rightarrow> writer_gate" where
  "gate_wake g = (if thread_set g then g\<lparr>permit := True\<rparr> else g)"

definition wake_if_parked :: "writer_gate \<Rightarrow> writer_gate" where
  "wake_if_parked g = (if parked g then gate_wake g else g)"

text \<open>
  \<open>record\<close> up to the enqueue, with the clock's reading: the new queue and producer, and whether the
  line was accepted; \<open>None\<close>: panic or livelock.
\<close>

definition record_enqueue ::
    "bool list \<Rightarrow> nat option \<Rightarrow> log_record \<Rightarrow> line queue \<Rightarrow> producer \<Rightarrow> (line queue \<times> producer \<times> line option) option" where
  "record_enqueue sp clock r q p =
     (let seq = p_sequence p;
          p = p\<lparr>p_sequence := seq + 1\<rparr>
      in Option.bind (render p (now_millis clock) seq r) (\<lambda>l.
         Option.bind (enqueue sp q l) (\<lambda>(q, ok).
         case ok of
           Inl _ \<Rightarrow> Some (q, p\<lparr>p_dropped := p_dropped p + 1\<rparr>, None)
         | Inr _ \<Rightarrow> Some (q, p, Some l))))"

definition log_producer :: "access_log \<Rightarrow> nat \<Rightarrow> nat" where
  "log_producer lg worker = worker mod length (al_producers lg)"

definition log_dropped :: "access_log \<Rightarrow> u64" where
  "log_dropped lg = sum_list (map p_dropped (al_producers lg))"

text \<open>\<open>record\<close> through the handle of a worker, with nothing in between.\<close>

definition record_line :: "bool list \<Rightarrow> nat option \<Rightarrow> access_log \<Rightarrow> nat \<Rightarrow> log_record \<Rightarrow> access_log option" where
  "record_line sp clock lg worker r =
     (let i = log_producer lg worker; p = al_producers lg ! i in
      if \<not> p_enabled p then Some lg
      else Option.bind (record_enqueue sp clock r (al_queue lg) p) (\<lambda>(q, p, accepted).
        let lg = lg\<lparr>al_queue := q, al_producers := (al_producers lg)[i := p]\<rparr> in
        case accepted of
          None \<Rightarrow> Some lg
        | Some _ \<Rightarrow> Some (lg\<lparr>al_gate := wake_if_parked (al_gate lg)\<rparr>)))"

text \<open>The smallest power of two from \<open>n\<close> on; \<open>None\<close>: it does not fit 64 bits and the call panics.\<close>

definition next_power_of_two :: "nat \<Rightarrow> nat option" where
  "next_power_of_two n =
     (case filter (\<lambda>k. n \<le> 2 ^ k) [0..<64] of [] \<Rightarrow> None | k # _ \<Rightarrow> Some (2 ^ k))"

definition with_enabled :: "nat \<Rightarrow> nat \<Rightarrow> bool \<Rightarrow> access_log option" where
  "with_enabled capacity workers enabled =
     Option.bind (next_power_of_two capacity) (\<lambda>cap.
     Option.bind (queue_new (max cap 2)) (\<lambda>q.
     Some \<lparr>al_queue = q,
           al_producers = map (\<lambda>worker. \<lparr>p_sequence = 0, p_dropped = 0, p_worker = worker, p_enabled = enabled\<rparr>)
             [0..<max workers 1],
           al_running = True, al_gate = gate_new\<rparr>))"

definition access_log_new :: "nat \<Rightarrow> nat \<Rightarrow> access_log option" where
  "access_log_new capacity workers = with_enabled capacity workers True"

definition access_log_disabled :: "nat \<Rightarrow> access_log option" where
  "access_log_disabled workers = with_enabled 2 workers False"

definition log_stop :: "access_log \<Rightarrow> access_log" where
  "log_stop lg = lg\<lparr>al_running := False, al_gate := gate_wake (al_gate lg)\<rparr>"

section \<open>Draining\<close>

definition BATCH_BYTES :: nat where
  "BATCH_BYTES = 60000"

definition log_newline :: char where
  "log_newline = CHR 0x0A"

definition logged :: "line \<Rightarrow> string" where
  "logged l = line_as_str l @ [log_newline]"

text \<open>One turn of the loop of \<open>drain\<close>; the flag says whether it goes on.\<close>

definition drain_turn :: "bool list \<Rightarrow> line queue \<Rightarrow> string \<Rightarrow> (line queue \<times> string \<times> bool) option" where
  "drain_turn sp q batch =
     (case dequeue sp q of
        None \<Rightarrow> None
      | Some (q, Inl _) \<Rightarrow> Some (q, batch, False)
      | Some (q, Inr None) \<Rightarrow> None
      | Some (q, Inr (Some l)) \<Rightarrow>
          (let batch = batch @ logged l in Some (q, batch, \<not> length batch > BATCH_BYTES)))"

fun drain_loop :: "nat \<Rightarrow> bool list \<Rightarrow> line queue \<Rightarrow> string \<Rightarrow> (line queue \<times> string) option" where
  "drain_loop 0 sp q batch = None"
| "drain_loop (Suc n) sp q batch =
     (case drain_turn sp q batch of
        None \<Rightarrow> None
      | Some (q, batch, True) \<Rightarrow> drain_loop n sp q batch
      | Some (q, batch, False) \<Rightarrow> Some (q, batch))"

definition drain :: "nat \<Rightarrow> bool list \<Rightarrow> line queue \<Rightarrow> string \<Rightarrow> (line queue \<times> string \<times> bool) option" where
  "drain fuel sp q batch =
     map_option (\<lambda>(q, batch'). (q, batch', length batch' > length batch)) (drain_loop fuel sp q batch)"

section \<open>What a line says\<close>

lemma digit_loop_digits:
  "v < 10 ^ n \<Longrightarrow> n \<le> length ds \<Longrightarrow> 0 < n \<Longrightarrow>
    \<exists>i ds'. digit_loop v n ds = Some (i, ds') \<and> i < n \<and> drop i ds' = show_nat v @ drop n ds"
proof (induction n arbitrary: v ds)
  case (Suc n)
  let ?ds = "ds[n := digit_char (v mod 10)]"
  have here: "drop n ?ds = digit_char (v mod 10) # drop (Suc n) ds"
    using Suc.prems by (metis Cons_nth_drop_Suc Suc_le_lessD drop_update_cancel length_list_update lessI nth_list_update_eq)
  show ?case
  proof (cases "v < 10")
    case True
    with here show ?thesis by (auto simp: Let_def show_nat_small)
  next
    case False
    then have "0 < n" using Suc.prems by (cases n) auto
    moreover have "v div 10 < 10 ^ n" using Suc.prems by (simp add: less_mult_imp_div_less)
    ultimately obtain i ds' where "digit_loop (v div 10) n ?ds = Some (i, ds')" "i < n"
      "drop i ds' = show_nat (v div 10) @ drop n ?ds"
      using Suc.IH [of "v div 10" ?ds] Suc.prems by auto
    moreover have "show_nat v = show_nat (v div 10) @ [digit_char (v mod 10)]" "v div 10 \<noteq> 0"
      using False by (simp_all only: show_nat_large not_less)
    ultimately show ?thesis using here by (auto simp: Let_def simp del: show_nat.simps)
  qed
qed simp

lemma show_nat_valid: "valid_utf8 (show_nat n)"
  by (rule valid_utf8_ascii) (auto dest!: show_nat_digits)

text \<open>A writer that has exactly the text \<open>t\<close>, with room left.\<close>

definition written :: "line_writer \<Rightarrow> string \<Rightarrow> bool" where
  "written out t \<longleftrightarrow> lw_len out = length t \<and> length (lw_bytes out) = LINE_CAPACITY
     \<and> take (lw_len out) (lw_bytes out) = t \<and> length t \<le> LINE_CAPACITY"

lemma written_new: "written line_writer_new []"
  by (simp add: written_def line_writer_new_def)

lemma written_str:
  "written out t \<Longrightarrow> length t + length s \<le> LINE_CAPACITY \<Longrightarrow> written (writer_str s out) (t @ s)"
  unfolding written_def writer_str_def Let_def by (cases "length s \<le> LINE_CAPACITY - lw_len out") auto

lemma written_u64:
  assumes "written out t" and "v < 10 ^ 20" and "length t + length (show_nat v) \<le> LINE_CAPACITY"
  shows "\<exists>out'. writer_u64 v out = Some out' \<and> written out' (t @ show_nat v)"
proof -
  obtain i ds where "digit_loop v 20 (replicate 20 (CHR 0x00)) = Some (i, ds)" "drop i ds = show_nat v"
    using digit_loop_digits [of v 20 "replicate 20 (CHR 0x00)"] assms(2) by auto
  with written_str [OF assms(1,3)] show ?thesis by (simp add: writer_u64_def show_nat_valid)
qed

text \<open>A writer never holds more than the capacity, whatever it is given.\<close>

definition writer_ok :: "line_writer \<Rightarrow> bool" where
  "writer_ok out \<longleftrightarrow> lw_len out \<le> LINE_CAPACITY \<and> length (lw_bytes out) = LINE_CAPACITY"

lemma writer_ok_str: "writer_ok out \<Longrightarrow> writer_ok (writer_str t out)"
  by (auto simp: writer_ok_def writer_str_def Let_def)

lemma writer_ok_new: "writer_ok line_writer_new"
  by (simp add: writer_ok_def line_writer_new_def)

lemma writer_u64_total: "v < 10 ^ 20 \<Longrightarrow> writer_ok out \<Longrightarrow> \<exists>out'. writer_u64 v out = Some out' \<and> writer_ok out'"
  using digit_loop_digits [of v 20 "replicate 20 (CHR 0x00)"]
  by (auto simp: writer_u64_def writer_ok_str)

text \<open>The whole text of a line, before any truncation.\<close>

definition line_text :: "nat \<Rightarrow> nat \<Rightarrow> nat \<Rightarrow> log_record \<Rightarrow> string" where
  "line_text ms seq worker r =
     ''ts='' @ show_nat ms @ '' seq='' @ show_nat seq @ '' worker='' @ show_nat worker
     @ '' method='' @ rec_method r @ '' action='' @ rec_action r
     @ '' path='' @ id_as_str (rec_path r) @ '' token='' @ id_as_str (rec_token r)
     @ '' status='' @ show_nat (rec_status r) @ '' authz='' @ (if rec_enforced r then ''on'' else ''off'')"

definition fields_fit :: "log_record \<Rightarrow> bool" where
  "fields_fit r \<longleftrightarrow> length (rec_method r) + length (rec_action r) \<le> 32
     \<and> length (id_as_str (rec_path r)) \<le> ID_LEN \<and> length (id_as_str (rec_token r)) \<le> ID_LEN
     \<and> rec_status r < 2 ^ 16"

lemma show_u64_length: "n < 2 ^ 64 \<Longrightarrow> length (show_nat n) \<le> 20 \<and> n < 10 ^ 20"
  using length_show_nat [of n 19] by simp

lemma show_status_length: "n < 2 ^ 16 \<Longrightarrow> length (show_nat n) \<le> 5 \<and> n < 10 ^ 20"
  using length_show_nat [of n 4] by simp

lemma render_written:
  assumes fit: "fields_fit r" and ms: "ms < 2 ^ 64" and w: "p_worker p < 2 ^ 64"
  shows "\<exists>out. written out (line_text ms (unat seq) (p_worker p) r) \<and> render p ms seq r = Some (writer_finish out)"
proof -
  have seq: "unat seq < 2 ^ 64" using unsigned_less [of seq] by simp
  have st: "rec_status r < 2 ^ 16" using fit by (simp add: fields_fit_def)
  note bounds = show_u64_length [OF ms] show_u64_length [OF w] show_status_length [OF st]
    show_u64_length [OF seq] fit [unfolded fields_fit_def ID_LEN_def] LINE_CAPACITY_def
  have "written (writer_str ''ts='' line_writer_new) ''ts=''"
    using written_str [OF written_new, of "''ts=''"] by (simp add: LINE_CAPACITY_def)
  from written_u64 [OF this, of ms] bounds
  obtain o1 where o1: "writer_u64 ms (writer_str ''ts='' line_writer_new) = Some o1"
    "written o1 (''ts='' @ show_nat ms)" by auto
  from written_u64 [OF written_str [OF o1(2), of "'' seq=''"], of "unat seq"] bounds
  obtain o2 where o2: "writer_u64 (unat seq) (writer_str '' seq='' o1) = Some o2"
    "written o2 (''ts='' @ show_nat ms @ '' seq='' @ show_nat (unat seq))" by auto
  from written_u64 [OF written_str [OF o2(2), of "'' worker=''"], of "p_worker p"] bounds
  obtain o3 where o3: "writer_u64 (p_worker p) (writer_str '' worker='' o2) = Some o3"
    "written o3 (''ts='' @ show_nat ms @ '' seq='' @ show_nat (unat seq) @ '' worker='' @ show_nat (p_worker p))"
    by auto
  let ?o4 = "writer_str (id_as_str (rec_token r)) (writer_str '' token=''
     (writer_str (id_as_str (rec_path r)) (writer_str '' path=''
     (writer_str (rec_action r) (writer_str '' action=''
     (writer_str (rec_method r) (writer_str '' method='' o3)))))))"
  let ?t4 = "''ts='' @ show_nat ms @ '' seq='' @ show_nat (unat seq) @ '' worker='' @ show_nat (p_worker p)
     @ '' method='' @ rec_method r @ '' action='' @ rec_action r
     @ '' path='' @ id_as_str (rec_path r) @ '' token='' @ id_as_str (rec_token r)"
  have o4: "written ?o4 ?t4"
    using written_str [OF written_str [OF written_str [OF written_str [OF written_str [OF written_str
      [OF written_str [OF written_str [OF o3(2), of "'' method=''"], of "rec_method r"], of "'' action=''"],
        of "rec_action r"], of "'' path=''"], of "id_as_str (rec_path r)"], of "'' token=''"],
        of "id_as_str (rec_token r)"] bounds by simp
  from written_u64 [OF written_str [OF o4, of "'' status=''"], of "rec_status r"] bounds
  obtain o5 where o5: "writer_u64 (rec_status r) (writer_str '' status='' ?o4) = Some o5"
    "written o5 (?t4 @ '' status='' @ show_nat (rec_status r))" by auto
  let ?o6 = "writer_str (if rec_enforced r then ''on'' else ''off'') (writer_str '' authz='' o5)"
  have "written ?o6 (line_text ms (unat seq) (p_worker p) r)"
    using written_str [OF written_str [OF o5(2), of "'' authz=''"],
        of "if rec_enforced r then ''on'' else ''off''"] bounds by (simp add: line_text_def)
  moreover have "render p ms seq r = Some (writer_finish ?o6)"
    by (simp add: render_def o1(1) o2(1) o3(1) o5(1) Let_def)
  ultimately show ?thesis by blast
qed

lemma written_finish: "written out t \<Longrightarrow> line_as_str (writer_finish out) = (if valid_utf8 t then t else '''')"
  by (auto simp: written_def writer_finish_def line_as_str_def Let_def LINE_CAPACITY_def)

lemma line_text_valid:
  assumes "valid_utf8 (rec_method r)" and "valid_utf8 (rec_action r)"
  shows "valid_utf8 (line_text ms seq worker r)"
proof -
  have ids: "valid_utf8 (id_as_str i)" for i by (simp add: id_as_str_def ord_of_def)
  have step: "valid_utf8 t \<Longrightarrow> valid_utf8 (s @ t)" if "valid_utf8 s" for s t
    using that by (simp add: valid_utf8_append_iff)
  show ?thesis unfolding line_text_def
    by (intro step show_nat_valid assms ids) (simp_all add: ord_of_def)
qed

text \<open>Rendering never panics, whatever the strings of the record are.\<close>

lemma render_total:
  assumes "ms < 2 ^ 64" and "p_worker p < 2 ^ 64" and "rec_status r < 2 ^ 16"
  shows "\<exists>l. render p ms seq r = Some l \<and> line_len l \<le> LINE_CAPACITY \<and> length (line_bytes l) = LINE_CAPACITY"
proof -
  have seq: "unat seq < 2 ^ 64" using unsigned_less [of seq] by simp
  note ok = writer_ok_str writer_ok_new
  have "writer_ok (writer_str ''ts='' line_writer_new)" by (intro ok)
  from writer_u64_total [OF _ this, of ms] show_u64_length [OF assms(1)]
  obtain o1 where o1: "writer_u64 ms (writer_str ''ts='' line_writer_new) = Some o1" "writer_ok o1" by auto
  from writer_u64_total [OF _ writer_ok_str [OF o1(2)], of "unat seq" "'' seq=''"] show_u64_length [OF seq]
  obtain o2 where o2: "writer_u64 (unat seq) (writer_str '' seq='' o1) = Some o2" "writer_ok o2" by auto
  from writer_u64_total [OF _ writer_ok_str [OF o2(2)], of "p_worker p" "'' worker=''"] show_u64_length [OF assms(2)]
  obtain o3 where o3: "writer_u64 (p_worker p) (writer_str '' worker='' o2) = Some o3" "writer_ok o3" by auto
  let ?o4 = "writer_str '' status='' (writer_str (id_as_str (rec_token r)) (writer_str '' token=''
     (writer_str (id_as_str (rec_path r)) (writer_str '' path=''
     (writer_str (rec_action r) (writer_str '' action=''
     (writer_str (rec_method r) (writer_str '' method='' o3))))))))"
  have "writer_ok ?o4" by (intro ok o3(2))
  from writer_u64_total [OF _ this, of "rec_status r"] show_status_length [OF assms(3)]
  obtain o5 where o5: "writer_u64 (rec_status r) ?o4 = Some o5" "writer_ok o5" by auto
  have "writer_ok (writer_str (if rec_enforced r then ''on'' else ''off'') (writer_str '' authz='' o5))"
    by (intro ok o5(2))
  then show ?thesis
    by (auto simp: render_def o1(1) o2(1) o3(1) o5(1) Let_def writer_finish_def writer_ok_def LINE_CAPACITY_def)
qed

lemma now_millis_bound: "now_millis clock < 2 ^ 64"
  by (simp add: now_millis_def split: option.splits)

text \<open>
  C29. A log line is complete and never a panic. For every clock, sequence number and worker, and
  every record whose method and action together have at most 32 bytes and whose path and token are
  identifiers, the rendered line is the whole text with every field, untruncated, in the 192 bytes
  it has; the action being one of a closed set of at most eight bytes, any method of up to 24 bytes
  qualifies.
\<close>

theorem line_complete:
  assumes "fields_fit r" and "valid_utf8 (rec_method r)" and "valid_utf8 (rec_action r)"
    and "p_worker p < 2 ^ 64"
  shows "\<exists>l. render p (now_millis clock) seq r = Some l
    \<and> line_as_str l = line_text (now_millis clock) (unat seq) (p_worker p) r"
  using render_written [OF assms(1) now_millis_bound assms(4)] written_finish line_text_valid [OF assms(2,3)]
  by metis

definition sample_record :: log_record where
  "sample_record = \<lparr>rec_method = ''GET'', rec_action = ''metadata'', rec_path = id_NONE,
     rec_token = id_NONE, rec_status = 200, rec_enforced = True\<rparr>"

lemma sample_record_fits: "fields_fit sample_record"
  by (simp add: fields_fit_def sample_record_def id_NONE_def ID_LEN_def id_as_str_def ord_of_def)

lemma sample_text:
  "line_text 0 7 3 sample_record = ''ts=0 seq=7 worker=3 method=GET action=metadata path=---------------- token=---------------- status=200 authz=on''"
  by code_simp

theorem line_complete_witness:
  "\<exists>l. render \<lparr>p_sequence = 0, p_dropped = 0, p_worker = 3, p_enabled = True\<rparr> (now_millis None) 7 sample_record = Some l
    \<and> line_as_str l = ''ts=0 seq=7 worker=3 method=GET action=metadata path=---------------- token=---------------- status=200 authz=on''"
proof -
  have "valid_utf8 (rec_method sample_record)" "valid_utf8 (rec_action sample_record)"
    by (simp_all add: sample_record_def ord_of_def)
  from line_complete [OF sample_record_fits this, of "\<lparr>p_sequence = 0, p_dropped = 0, p_worker = 3, p_enabled = True\<rparr>" None 7]
  show ?thesis by (simp add: now_millis_def sample_text)
qed

section \<open>The writer thread and its producers\<close>

text \<open>
  Where the writer thread stands: not started; in the loop of \<open>drain\<close>, with the length the batch had
  before and whether this is the second look; about to read \<open>running\<close> and the time; about to publish
  \<open>parked\<close>; about to park; about to clear \<open>parked\<close>; about to write the batch; returned.
\<close>

datatype writer_pc = WStart | WDrain nat bool | WIdle | WFlag | WPark | WUnflag | WWrite | WDone

text \<open>
  The writes to the sink so far, each with the number of bytes of its batch that got through: all of
  them, or fewer when \<open>write_all\<close> or \<open>flush\<close> failed. What was handed over, and what arrived.
\<close>

type_synonym write_history = "(string \<times> nat) list"

definition handed_over :: "write_history \<Rightarrow> string" where
  "handed_over ws = concat (map fst ws)"

definition got_through :: "write_history \<Rightarrow> string" where
  "got_through ws = concat (map (\<lambda>(b, n). take n b) ws)"

lemma handed_over_simps [simp]:
  "handed_over [] = []" "handed_over (ws @ [w]) = handed_over ws @ fst w"
  by (simp_all add: handed_over_def)

lemma got_through_simps [simp]:
  "got_through [] = []" "got_through (ws @ [w]) = got_through ws @ take (snd w) (fst w)"
  by (simp_all add: got_through_def case_prod_beta)

text \<open>When no write failed, what arrived is what was handed over.\<close>

lemma got_through_all: "list_all (\<lambda>(b, n). n = length b) ws \<Longrightarrow> got_through ws = handed_over ws"
  by (induction ws) (auto simp: got_through_def handed_over_def)

text \<open>
  \<open>waking\<close> are the producers that have enqueued a line and not yet looked at the flag. The last two
  fields are ghosts: the lines accepted so far and the number of calls of \<open>record\<close>.
\<close>

record log_world =
  the_log :: access_log
  pc :: writer_pc
  batch :: string
  writes :: write_history
  waking :: "nat set"
  accepted :: "line list"
  recorded :: nat

abbreviation queue_of :: "log_world \<Rightarrow> line queue" where
  "queue_of s \<equiv> al_queue (the_log s)"

abbreviation gate_of :: "log_world \<Rightarrow> writer_gate" where
  "gate_of s \<equiv> al_gate (the_log s)"

definition set_gate :: "(writer_gate \<Rightarrow> writer_gate) \<Rightarrow> log_world \<Rightarrow> log_world" where
  "set_gate f s = s\<lparr>the_log := (the_log s)\<lparr>al_gate := f (gate_of s)\<rparr>\<rparr>"

definition after_enqueue ::
    "nat \<Rightarrow> line queue \<Rightarrow> producer \<Rightarrow> line option \<Rightarrow> log_world \<Rightarrow> log_world" where
  "after_enqueue i q p l s =
     s\<lparr>the_log := (the_log s)\<lparr>al_queue := q, al_producers := (al_producers (the_log s))[i := p]\<rparr>,
       waking := (case l of None \<Rightarrow> waking s | Some _ \<Rightarrow> insert i (waking s)),
       accepted := (case l of None \<Rightarrow> accepted s | Some l \<Rightarrow> accepted s @ [l]),
       recorded := Suc (recorded s)\<rparr>"

definition after_drain :: "line queue \<Rightarrow> string \<Rightarrow> writer_pc \<Rightarrow> log_world \<Rightarrow> log_world" where
  "after_drain q b c s = s\<lparr>the_log := (the_log s)\<lparr>al_queue := q\<rparr>, batch := b, pc := c\<rparr>"

inductive log_step :: "log_world \<Rightarrow> log_world \<Rightarrow> bool" where
  enqueue_line:
    "i < length (al_producers (the_log s)) \<Longrightarrow> i \<notin> waking s \<Longrightarrow>
     p_enabled (al_producers (the_log s) ! i) \<Longrightarrow>
     record_enqueue sp clock r (queue_of s) (al_producers (the_log s) ! i) = Some (q, p, l) \<Longrightarrow>
     log_step s (after_enqueue i q p l s)"
| look_at_flag:
    "i \<in> waking s \<Longrightarrow> log_step s ((set_gate wake_if_parked s)\<lparr>waking := waking s - {i}\<rparr>)"
| start:
    "pc s = WStart \<Longrightarrow> log_step s ((set_gate writer_started s)\<lparr>pc := WDrain 0 False\<rparr>)"
| drain_more:
    "pc s = WDrain b again \<Longrightarrow> drain_turn sp (queue_of s) (batch s) = Some (q, batch', True) \<Longrightarrow>
     log_step s (after_drain q batch' (WDrain b again) s)"
| drain_done:
    "pc s = WDrain b False \<Longrightarrow> drain_turn sp (queue_of s) (batch s) = Some (q, batch', False) \<Longrightarrow>
     log_step s (after_drain q batch' (if length batch' > b then WWrite else WIdle) s)"
| look_done:
    "pc s = WDrain b True \<Longrightarrow> drain_turn sp (queue_of s) (batch s) = Some (q, batch', False) \<Longrightarrow>
     log_step s (after_drain q batch' (if length batch' > b then WUnflag else WPark) s)"
| finish:
    "pc s = WIdle \<Longrightarrow> \<not> al_running (the_log s) \<Longrightarrow> log_step s (s\<lparr>pc := WDone\<rparr>)"
| sleep:
    "pc s = WIdle \<Longrightarrow> al_running (the_log s) \<Longrightarrow> log_step s (s\<lparr>pc := WDrain (length (batch s)) False\<rparr>)"
| give_up:
    "pc s = WIdle \<Longrightarrow> al_running (the_log s) \<Longrightarrow> log_step s (s\<lparr>pc := WFlag\<rparr>)"
| flag:
    "pc s = WFlag \<Longrightarrow>
     log_step s ((set_gate (\<lambda>g. g\<lparr>parked := True\<rparr>) s)\<lparr>pc := WDrain (length (batch s)) True\<rparr>)"
| unparked:
    "pc s = WPark \<Longrightarrow> permit (gate_of s) \<Longrightarrow>
     log_step s ((set_gate (\<lambda>g. g\<lparr>permit := False\<rparr>) s)\<lparr>pc := WUnflag\<rparr>)"
| park_timeout:
    "pc s = WPark \<Longrightarrow> log_step s (s\<lparr>pc := WUnflag\<rparr>)"
| unflag:
    "pc s = WUnflag \<Longrightarrow>
     log_step s ((set_gate (\<lambda>g. g\<lparr>parked := False\<rparr>) s)\<lparr>pc := (if batch s = [] then WDrain 0 False else WWrite)\<rparr>)"
| hand_over:
    "pc s = WWrite \<Longrightarrow> n \<le> length (batch s) \<Longrightarrow>
     log_step s (s\<lparr>writes := writes s @ [(batch s, n)], batch := [], pc := WDrain 0 False\<rparr>)"
| stop:
    "log_step s (s\<lparr>the_log := log_stop (the_log s)\<rparr>)"

inductive log_reachable :: "nat \<Rightarrow> nat \<Rightarrow> log_world \<Rightarrow> bool" for capacity workers where
  init: "access_log_new capacity workers = Some lg \<Longrightarrow>
    log_reachable capacity workers \<lparr>the_log = lg, pc = WStart, batch = [], writes = [], waking = {},
      accepted = [], recorded = 0\<rparr>"
| step: "log_reachable capacity workers s \<Longrightarrow> log_step s s' \<Longrightarrow> log_reachable capacity workers s'"

section \<open>Nothing is lost and nobody sleeps on a line\<close>

text \<open>The contents of the queue, the accounts, and the protocol of the flag.\<close>

definition queue_inv :: "log_world \<Rightarrow> line list \<Rightarrow> bool" where
  "queue_inv s xs \<longleftrightarrow> (\<exists>n. queue_holds (queue_of s) n xs)
     \<and> concat (map logged (accepted s)) = handed_over (writes s) @ batch s @ concat (map logged xs)"

definition count_inv :: "log_world \<Rightarrow> bool" where
  "count_inv s \<longleftrightarrow> of_nat (recorded s) = of_nat (length (accepted s)) + log_dropped (the_log s)"

definition gate_inv :: "log_world \<Rightarrow> line list \<Rightarrow> bool" where
  "gate_inv s xs \<longleftrightarrow>
     (pc s \<noteq> WStart \<longrightarrow> thread_set (gate_of s))
     \<and> (pc s = WPark \<longrightarrow> parked (gate_of s) \<and> (xs \<noteq> [] \<longrightarrow> permit (gate_of s) \<or> waking s \<noteq> {}))
     \<and> (\<forall>b. pc s = WDrain b True \<longrightarrow> parked (gate_of s))
     \<and> (\<forall>b again. pc s = WDrain b again \<longrightarrow> b = 0)
     \<and> (pc s \<in> {WStart, WIdle, WFlag, WPark} \<longrightarrow> batch s = [])
     \<and> (pc s = WWrite \<longrightarrow> batch s \<noteq> [])"

definition log_inv :: "log_world \<Rightarrow> bool" where
  "log_inv s \<longleftrightarrow> count_inv s \<and> (\<exists>xs. queue_inv s xs \<and> gate_inv s xs)"

lemma enqueue_holds:
  assumes "queue_holds q n xs" and e: "enqueue sp q l = Some (q', ok)"
  shows "queue_holds q' n (case ok of Inl _ \<Rightarrow> xs | Inr _ \<Rightarrow> xs @ [l])"
proof -
  obtain d where d: "queue_rep q d xs" and n: "n = length (buffer q)" using assms(1) by (rule queue_holdsE)
  show ?thesis
  proof (cases "length xs < length (buffer q)")
    case True
    with enqueue_room [OF d True, of sp l] e n show ?thesis by (auto intro: queue_holdsI)
  next
    case False
    then have "length xs = length (buffer q)" using rep_capacity(3) [OF d] by simp
    from enqueue_full [OF d this, of sp l] e assms(1) show ?thesis by auto
  qed
qed

lemma dequeue_holds:
  assumes "queue_holds q n xs" and "dequeue sp q = Some (q', r)"
  shows "case r of Inl _ \<Rightarrow> xs = [] \<and> queue_holds q' n [] | Inr l \<Rightarrow> \<exists>y ys. xs = y # ys \<and> l = Some y \<and> queue_holds q' n ys"
proof -
  obtain d where d: "queue_rep q d xs" and n: "n = length (buffer q)" using assms(1) by (rule queue_holdsE)
  show ?thesis
  proof (cases xs)
    case Nil
    with dequeue_empty [of q d sp] d assms show ?thesis by auto
  next
    case (Cons y ys)
    with dequeue_first [of q d y ys sp] d assms(2) n show ?thesis by (auto intro: queue_holdsI)
  qed
qed

text \<open>One turn of \<open>drain\<close> moves the first line from the queue to the batch, or finds the queue empty.\<close>

lemma drain_turn_moves:
  assumes "queue_holds q n xs" and "drain_turn sp q b = Some (q', b', go)"
  shows "(xs = [] \<and> b' = b \<and> \<not> go \<and> queue_holds q' n [])
    \<or> (\<exists>y ys. xs = y # ys \<and> b' = b @ logged y \<and> queue_holds q' n ys)"
proof -
  obtain r where r: "dequeue sp q = Some (q', r)" "case r of Inl _ \<Rightarrow> b' = b \<and> \<not> go
      | Inr None \<Rightarrow> False | Inr (Some y) \<Rightarrow> b' = b @ logged y"
    using assms(2) by (auto simp: drain_turn_def Let_def split: option.splits sum.splits prod.splits)
  from dequeue_holds [OF assms(1) r(1)] r(2) show ?thesis by (auto split: sum.splits option.splits)
qed

lemma logged_not_Nil [simp]: "logged l \<noteq> []"
  by (simp add: logged_def)

text \<open>The three parts of the invariant, step by step.\<close>

lemma record_enqueueE:
  assumes "record_enqueue sp clock r q p = Some (q', p', l)"
  obtains (accepted) ln where "render (p\<lparr>p_sequence := p_sequence p + 1\<rparr>) (now_millis clock) (p_sequence p) r = Some ln"
      "enqueue sp q ln = Some (q', Inr ())" "l = Some ln" "p' = p\<lparr>p_sequence := p_sequence p + 1\<rparr>"
    | (dropped) ln e where "render (p\<lparr>p_sequence := p_sequence p + 1\<rparr>) (now_millis clock) (p_sequence p) r = Some ln"
      "enqueue sp q ln = Some (q', Inl e)" "l = None"
      "p' = p\<lparr>p_sequence := p_sequence p + 1, p_dropped := p_dropped p + 1\<rparr>"
proof -
  obtain ln q0 ok where e: "render (p\<lparr>p_sequence := p_sequence p + 1\<rparr>) (now_millis clock) (p_sequence p) r = Some ln"
    "enqueue sp q ln = Some (q0, ok)"
    and rest: "(case ok of Inl _ \<Rightarrow> Some (q0, p\<lparr>p_sequence := p_sequence p + 1, p_dropped := p_dropped p + 1\<rparr>, None)
      | Inr _ \<Rightarrow> Some (q0, p\<lparr>p_sequence := p_sequence p + 1\<rparr>, Some ln)) = Some (q', p', l)"
    using assms by (force simp: record_enqueue_def Let_def bind_eq_Some_conv)
  show thesis
  proof (cases ok)
    case (Inl x)
    with e rest show thesis by (intro dropped [of ln x]) auto
  next
    case (Inr x)
    with e rest show thesis by (intro accepted [of ln]) auto
  qed
qed

lemma sum_list_bump: "i < length xs \<Longrightarrow> sum_list (xs[i := xs ! i + c]) = sum_list xs + (c :: u64)"
  by (induction xs arbitrary: i) (auto simp: nth_Cons list_update.simps split: nat.splits)

lemma count_inv_enqueue:
  assumes "count_inv s" and i: "i < length (al_producers (the_log s))"
    and e: "record_enqueue sp clock r (queue_of s) (al_producers (the_log s) ! i) = Some (q, p, l)"
  shows "count_inv (after_enqueue i q p l s)"
proof -
  have "p_dropped p = p_dropped (al_producers (the_log s) ! i) + (if l = None then 1 else 0)"
    using e by (cases rule: record_enqueueE) auto
  then have "sum_list ((map p_dropped (al_producers (the_log s)))[i := p_dropped p])
      = sum_list (map p_dropped (al_producers (the_log s))) + (if l = None then 1 else 0)"
    using i sum_list_bump [of i "map p_dropped (al_producers (the_log s))"] by simp
  with assms(1) show ?thesis
    by (auto simp: count_inv_def after_enqueue_def log_dropped_def map_update split: option.splits)
qed

lemma queue_inv_enqueue:
  assumes "queue_inv s xs"
    and e: "record_enqueue sp clock r (queue_of s) (al_producers (the_log s) ! i) = Some (q, p, l)"
  shows "queue_inv (after_enqueue i q p l s) (case l of None \<Rightarrow> xs | Some l \<Rightarrow> xs @ [l])"
  using e
proof (cases rule: record_enqueueE)
  case (accepted ln)
  with assms(1) enqueue_holds show ?thesis by (force simp: queue_inv_def after_enqueue_def)
next
  case (dropped ln x)
  with assms(1) enqueue_holds show ?thesis by (force simp: queue_inv_def after_enqueue_def)
qed

lemma queue_inv_drain:
  assumes "queue_inv s xs" and "drain_turn sp (queue_of s) (batch s) = Some (q, b, go)"
  shows "(xs = [] \<and> b = batch s \<and> \<not> go \<and> queue_inv (after_drain q b c s) [])
    \<or> (\<exists>y ys. xs = y # ys \<and> b = batch s @ logged y \<and> queue_inv (after_drain q b c s) ys)"
proof -
  obtain n where "queue_holds (queue_of s) n xs" using assms(1) by (auto simp: queue_inv_def)
  from drain_turn_moves [OF this assms(2)] assms(1) show ?thesis
    by (force simp: queue_inv_def after_drain_def)
qed

lemma log_inv_step:
  assumes "log_step s s'" and inv: "log_inv s"
  shows "log_inv s'"
proof -
  from inv obtain xs where c: "count_inv s" and q: "queue_inv s xs" and g: "gate_inv s xs"
    by (auto simp: log_inv_def)
  have other: "log_inv s'" if "queue_inv s' xs" "count_inv s'" "gate_inv s' xs"
    using that by (auto simp: log_inv_def)
  have count: "count_inv (after_drain q' b c s)" for q' b c
    using c by (simp add: count_inv_def after_drain_def log_dropped_def)
  from assms(1) show ?thesis
  proof cases
    case (enqueue_line i sp clock r q' p l)
    have "gate_inv s' (case l of None \<Rightarrow> xs | Some l \<Rightarrow> xs @ [l])"
      using g by (auto simp: enqueue_line(1) gate_inv_def after_enqueue_def split: option.splits)
    with queue_inv_enqueue [OF q enqueue_line(5)] count_inv_enqueue [OF c enqueue_line(2,5)]
    show ?thesis unfolding log_inv_def enqueue_line(1) by blast
  next
    case (drain_more b again sp q' b')
    from queue_inv_drain [OF q drain_more(3), of "WDrain b again"] count g drain_more(2) show ?thesis
      unfolding log_inv_def drain_more(1) by (auto simp: gate_inv_def after_drain_def)
  next
    case (drain_done b sp q' b')
    from queue_inv_drain [OF q drain_done(3), of "if length b' > b then WWrite else WIdle"] count g drain_done(2)
    show ?thesis unfolding log_inv_def drain_done(1) by (auto simp: gate_inv_def after_drain_def)
  next
    case (look_done b sp q' b')
    have "length b' > b" if "b' = batch s @ logged y" for y
      using g look_done(2) that by (cases "logged y") (auto simp: gate_inv_def)
    with queue_inv_drain [OF q look_done(3), of "if length b' > b then WUnflag else WPark"] count g look_done(2)
    show ?thesis unfolding log_inv_def look_done(1) by (auto simp: gate_inv_def after_drain_def)
  qed (rule other; use c q g in \<open>auto simp: queue_inv_def count_inv_def gate_inv_def set_gate_def
      wake_if_parked_def gate_wake_def writer_started_def log_stop_def log_dropped_def\<close>)+
qed

lemma next_power_holds:
  assumes "access_log_new capacity workers = Some lg"
  shows "\<exists>n. queue_holds (al_queue lg) n [] \<and> log_dropped lg = 0"
proof -
  obtain cap q where "queue_new (max cap 2) = Some q" "al_queue lg = q"
    "al_producers lg = map (\<lambda>worker. \<lparr>p_sequence = 0, p_dropped = 0, p_worker = worker, p_enabled = True\<rparr>) [0..<max workers 1]"
    using assms by (auto simp: access_log_new_def with_enabled_def bind_eq_Some_conv)
  with queue_new_rep show ?thesis by (auto simp: log_dropped_def comp_def intro: queue_holdsI)
qed

lemma log_inv_reachable: "log_reachable capacity workers s \<Longrightarrow> log_inv s"
proof (induction rule: log_reachable.induct)
  case (init lg)
  from next_power_holds [OF this] show ?case
    by (auto simp: log_inv_def queue_inv_def count_inv_def gate_inv_def)
qed (rule log_inv_step)

section \<open>The writer catches up\<close>

lemma drain_turn_total: "queue_holds q n xs \<Longrightarrow> \<exists>q' b' go. drain_turn sp q b = Some (q', b', go)"
proof -
  assume "queue_holds q n xs"
  then obtain d where "queue_rep q d xs" by (rule queue_holdsE)
  then show ?thesis
    using dequeue_empty [of q d sp] dequeue_first [of q d _ _ sp]
    by (cases xs) (fastforce simp: drain_turn_def Let_def)+
qed

fun pc_rank :: "writer_pc \<Rightarrow> nat" where
  "pc_rank WWrite = 0"
| "pc_rank (WDrain _ False) = 1"
| "pc_rank WUnflag = 2"
| "pc_rank (WDrain _ True) = 3"
| "pc_rank WPark = 3"
| "pc_rank _ = 4"

definition behind :: "(nat \<times> nat \<times> nat) rel" where
  "behind = less_than <*lex*> less_than <*lex*> less_than"

lemma wf_behind: "wf behind"
  by (auto simp: behind_def)

lemma behind_iff:
  "((a, b, c), (a', b', c')) \<in> behind \<longleftrightarrow> a < a' \<or> a = a' \<and> (b < b' \<or> b = b' \<and> c < c')"
  by (auto simp: behind_def)

lemma writer_drains:
  assumes q: "queue_inv s xs" and g: "gate_inv s xs" and pc: "pc s = WDrain b again"
    and todo: "xs \<noteq> [] \<or> batch s \<noteq> []"
  shows "\<exists>s' ys. log_step s s' \<and> accepted s' = accepted s \<and> al_running (the_log s') = al_running (the_log s)
    \<and> pc s' \<noteq> WDone \<and> queue_inv s' ys \<and> gate_inv s' ys
    \<and> ((length ys, length (batch s'), pc_rank (pc s')), (length xs, length (batch s), pc_rank (pc s))) \<in> behind"
proof -
  obtain n where "queue_holds (queue_of s) n xs" using q by (auto simp: queue_inv_def)
  then obtain q' b' go where t: "drain_turn [] (queue_of s) (batch s) = Some (q', b', go)"
    using drain_turn_total by blast
  let ?c = "if go then WDrain b again else if length b' > b then (if again then WUnflag else WWrite)
    else if again then WPark else WIdle"
  let ?s = "after_drain q' b' ?c s"
  have b0: "b = 0" using g pc by (simp add: gate_inv_def)
  have step: "log_step s ?s"
    using drain_more [of s b again "[]" q' b'] drain_done [of s b "[]" q' b'] look_done [of s b "[]" q' b'] t pc
    by (cases go; cases again) auto
  from queue_inv_drain [OF q t, of ?c]
  obtain ys where ys: "queue_inv ?s ys" and b': "b' \<noteq> []" and
      less: "length ys < length xs \<or> ys = xs \<and> b' = batch s \<and> \<not> go"
    using todo by auto
  have "gate_inv ?s ys"
    using g pc b0 b' by (auto simp: gate_inv_def after_drain_def)
  moreover have "((length ys, length (batch ?s), pc_rank (pc ?s)), (length xs, length (batch s), pc_rank (pc s))) \<in> behind"
    using less pc b0 b' by (cases again) (auto simp: behind_iff after_drain_def)
  moreover have "accepted ?s = accepted s" "al_running (the_log ?s) = al_running (the_log s)" "pc ?s \<noteq> WDone"
    by (auto simp: after_drain_def)
  ultimately show ?thesis using step ys by blast
qed

lemma writer_progress:
  assumes q: "queue_inv s xs" and g: "gate_inv s xs" and run: "al_running (the_log s)" and pc: "pc s \<noteq> WDone"
    and todo: "xs \<noteq> [] \<or> batch s \<noteq> []"
  shows "\<exists>s' ys. log_step s s' \<and> accepted s' = accepted s \<and> al_running (the_log s')
    \<and> pc s' \<noteq> WDone \<and> queue_inv s' ys \<and> gate_inv s' ys
    \<and> ((length ys, length (batch s'), pc_rank (pc s')), (length xs, length (batch s), pc_rank (pc s))) \<in> behind"
proof (cases "pc s")
  case (WDrain b again)
  from writer_drains [OF q g this todo] run show ?thesis by auto
next
  case WStart
  show ?thesis using start [OF WStart] q g run WStart
    by (intro exI [of _ "(set_gate writer_started s)\<lparr>pc := WDrain 0 False\<rparr>"] exI [of _ xs])
      (auto simp: behind_iff set_gate_def queue_inv_def gate_inv_def writer_started_def)
next
  case WIdle
  show ?thesis using sleep [OF WIdle run] q g run WIdle
    by (intro exI [of _ "s\<lparr>pc := WDrain (length (batch s)) False\<rparr>"] exI [of _ xs])
      (auto simp: behind_iff queue_inv_def gate_inv_def)
next
  case WFlag
  show ?thesis using flag [OF WFlag] q g run WFlag
    by (intro exI [of _ "(set_gate (\<lambda>g. g\<lparr>parked := True\<rparr>) s)\<lparr>pc := WDrain (length (batch s)) True\<rparr>"] exI [of _ xs])
      (auto simp: behind_iff set_gate_def queue_inv_def gate_inv_def)
next
  case WPark
  show ?thesis using park_timeout [OF WPark] q g run WPark
    by (intro exI [of _ "s\<lparr>pc := WUnflag\<rparr>"] exI [of _ xs])
      (auto simp: behind_iff queue_inv_def gate_inv_def)
next
  case WUnflag
  show ?thesis using unflag [OF WUnflag] q g run WUnflag
    by (intro exI [of _ "(set_gate (\<lambda>g. g\<lparr>parked := False\<rparr>) s)\<lparr>pc := (if batch s = [] then WDrain 0 False else WWrite)\<rparr>"]
        exI [of _ xs])
      (auto simp: behind_iff set_gate_def queue_inv_def gate_inv_def)
next
  case WWrite
  show ?thesis using hand_over [OF WWrite, of "length (batch s)"] q g run WWrite
    by (intro exI [of _ "s\<lparr>writes := writes s @ [(batch s, length (batch s))], batch := [], pc := WDrain 0 False\<rparr>"] exI [of _ xs])
      (auto simp: behind_iff queue_inv_def gate_inv_def)
qed (use pc in simp)

lemma writer_finishes:
  assumes "queue_inv s xs" and "gate_inv s xs" and "al_running (the_log s)" and "pc s \<noteq> WDone"
  shows "\<exists>s'. log_step\<^sup>*\<^sup>* s s' \<and> accepted s' = accepted s \<and> handed_over (writes s') = concat (map logged (accepted s))"
  using assms
proof (induction "(length xs, length (batch s), pc_rank (pc s))" arbitrary: s xs rule: wf_induct_rule [OF wf_behind, case_names less])
  case (less s xs)
  show ?case
  proof (cases "xs \<noteq> [] \<or> batch s \<noteq> []")
    case True
    from writer_progress [OF less(2-5) True] obtain s' ys where s': "log_step s s'" "accepted s' = accepted s"
      "al_running (the_log s')" "pc s' \<noteq> WDone" "queue_inv s' ys" "gate_inv s' ys"
      "((length ys, length (batch s'), pc_rank (pc s')), (length xs, length (batch s), pc_rank (pc s))) \<in> behind" by blast
    from less(1) [OF s'(7) s'(5,6,3,4)] s'(1,2) show ?thesis by (metis converse_rtranclp_into_rtranclp)
  next
    case False
    with less(2) show ?thesis by (auto simp: queue_inv_def)
  qed
qed

text \<open>
  The books balance. However the calls of the workers and the steps of the writer interleave,
  the bytes handed to the sink, the batch in hand and the lines still queued are, in this order and
  with nothing missing or doubled, exactly the lines accepted, and they have all arrived when no write
  failed; and the lines accepted together with the drop counters (modulo \<open>2^64\<close>) are all the calls of \<open>record\<close>.
\<close>

theorem log_conserved:
  assumes "log_reachable capacity workers s"
  shows "\<exists>xs n. queue_holds (queue_of s) n xs
      \<and> concat (map logged (accepted s)) = handed_over (writes s) @ batch s @ concat (map logged xs)
      \<and> (list_all (\<lambda>(b, n). n = length b) (writes s) \<longrightarrow> got_through (writes s) = handed_over (writes s))
      \<and> of_nat (recorded s) = of_nat (length (accepted s)) + log_dropped (the_log s)"
  using log_inv_reachable [OF assms] got_through_all by (auto simp: log_inv_def queue_inv_def count_inv_def)

text \<open>
  No wake-up is lost, and the writer catches up. When the writer sleeps without a permit and no
  producer is between its enqueue and its look at the flag, the queue is empty: a queued line always
  has somebody about to wake the writer. And while the log is running, from every reachable state
  the writer can hand everything accepted so far to the sink without a further line arriving.
\<close>

theorem no_lost_wakeup:
  assumes "log_reachable capacity workers s"
  shows "(pc s = WPark \<and> \<not> permit (gate_of s) \<and> waking s = {} \<longrightarrow> (\<exists>n. queue_holds (queue_of s) n []))
    \<and> (al_running (the_log s) \<and> pc s \<noteq> WDone \<longrightarrow>
        (\<exists>s'. log_step\<^sup>*\<^sup>* s s' \<and> accepted s' = accepted s \<and> handed_over (writes s') = concat (map logged (accepted s))))"
proof -
  obtain xs where q: "queue_inv s xs" and g: "gate_inv s xs"
    using log_inv_reachable [OF assms] by (auto simp: log_inv_def)
  have "\<exists>n. queue_holds (queue_of s) n []" if "pc s = WPark" "\<not> permit (gate_of s)" "waking s = {}"
  proof -
    have "xs = []" using g that by (auto simp: gate_inv_def)
    with q show ?thesis by (auto simp: queue_inv_def)
  qed
  with writer_finishes [OF q g] show ?thesis by blast
qed

text \<open>
  How many lines one call of \<open>drain\<close> takes, given the bytes already in the batch: up to and including
  the first line that brings the batch over its limit.
\<close>

fun lines_taken :: "nat \<Rightarrow> line list \<Rightarrow> nat" where
  "lines_taken bytes [] = 0"
| "lines_taken bytes (l # ls) =
     (if bytes + length (logged l) > BATCH_BYTES then 1 else Suc (lines_taken (bytes + length (logged l)) ls))"

lemma lines_taken_le: "lines_taken b xs \<le> length xs"
  by (induction xs arbitrary: b) auto

text \<open>The number is the least with which the batch is over its limit, or all lines.\<close>

lemma lines_taken_over:
  "lines_taken b xs < length xs \<Longrightarrow> BATCH_BYTES < b + length (concat (map logged (take (lines_taken b xs) xs)))"
proof (induction xs arbitrary: b)
  case (Cons l ls)
  with Cons.IH [of "b + length (logged l)"] show ?case by (auto simp: add.assoc split: if_splits)
qed simp

lemma lines_taken_within:
  "0 < j \<Longrightarrow> j < lines_taken b xs \<Longrightarrow> b + length (concat (map logged (take j xs))) \<le> BATCH_BYTES"
proof (induction xs arbitrary: b j)
  case (Cons l ls)
  then obtain i where j: "j = Suc i" by (cases j) auto
  have fits: "b + length (logged l) \<le> BATCH_BYTES" "i < lines_taken (b + length (logged l)) ls"
    using Cons.prems by (auto simp: j split: if_splits)
  show ?case
  proof (cases "i = 0")
    case True
    with fits show ?thesis by (simp add: j)
  next
    case False
    with Cons.IH [of i "b + length (logged l)"] fits show ?thesis by (simp add: j)
  qed
qed simp

lemma drain_loop_exact:
  "queue_holds q n xs \<Longrightarrow> length xs < fuel \<Longrightarrow>
    \<exists>q'. drain_loop fuel sp q b = Some (q', b @ concat (map logged (take (lines_taken (length b) xs) xs)))
      \<and> queue_holds q' n (drop (lines_taken (length b) xs) xs)"
proof (induction fuel arbitrary: q xs b)
  case (Suc fuel)
  obtain q' b' go where t: "drain_turn sp q b = Some (q', b', go)"
    using drain_turn_total [OF Suc.prems(1)] by blast
  from drain_turn_moves [OF Suc.prems(1) t] show ?case
  proof (elim disjE exE conjE)
    fix y ys
    assume m: "xs = y # ys" "b' = b @ logged y" "queue_holds q' n ys"
    have go: "go = (\<not> length b' > BATCH_BYTES)"
      using t m dequeue_holds [OF Suc.prems(1)]
      by (auto simp: drain_turn_def Let_def split: option.splits sum.splits prod.splits)
    show ?thesis
    proof (cases go)
      case True
      with Suc.IH [OF m(3), of b'] Suc.prems(2) t go m(1,2) show ?thesis by auto
    next
      case False
      with t go m show ?thesis by auto
    qed
  qed (use t in auto)
qed simp

text \<open>
  C28. Draining ends, and takes exactly what the limit of a batch allows. From a queue holding \<open>xs\<close>,
  one more turn than there are lines is enough, and the first \<open>k\<close> lines are moved to the batch in
  order while the rest stays queued. Either that is every line, or the batch is now over its limit
  of 60000 bytes; and it was not over it before the last of them, so the loop stops at the first line
  that brings it over. The answer says whether anything was found.
\<close>

theorem drain_exact:
  assumes "queue_holds q n xs" and "length xs < fuel"
  shows "\<exists>q' k. drain fuel sp q b = Some (q', b @ concat (map logged (take k xs)), xs \<noteq> [])
      \<and> queue_holds q' n (drop k xs) \<and> k \<le> length xs
      \<and> (k = length xs \<or> 60000 < length (b @ concat (map logged (take k xs))))
      \<and> (\<forall>j. 0 < j \<and> j < k \<longrightarrow> length (b @ concat (map logged (take j xs))) \<le> 60000)
      \<and> (xs \<noteq> [] \<longrightarrow> 0 < k)"
proof -
  let ?k = "lines_taken (length b) xs"
  obtain q' where k: "drain_loop fuel sp q b = Some (q', b @ concat (map logged (take ?k xs)))"
    "queue_holds q' n (drop ?k xs)"
    using drain_loop_exact [OF assms] by blast
  have pos: "xs \<noteq> [] \<longrightarrow> 0 < ?k" by (cases xs) auto
  then have "(concat (map logged (take ?k xs)) \<noteq> []) = (xs \<noteq> [])" by (cases xs; cases ?k) auto
  then have "drain fuel sp q b = Some (q', b @ concat (map logged (take ?k xs)), xs \<noteq> [])"
    by (simp add: drain_def k(1))
  moreover have "?k = length xs \<or> 60000 < length (b @ concat (map logged (take ?k xs)))"
    using lines_taken_le [of "length b" xs] lines_taken_over [of "length b" xs]
    unfolding BATCH_BYTES_def le_less length_append by blast
  moreover have "\<forall>j. 0 < j \<and> j < ?k \<longrightarrow> length (b @ concat (map logged (take j xs))) \<le> 60000"
    using lines_taken_within [of _ "length b" xs] by (auto simp: BATCH_BYTES_def)
  ultimately show ?thesis using k(2) pos lines_taken_le by blast
qed

section \<open>Examples\<close>

lemma small_log: "\<exists>lg q. access_log_new 2 1 = Some lg \<and> al_queue lg = q \<and> queue_holds q 2 []
   \<and> al_producers lg = [\<lparr>p_sequence = 0, p_dropped = 0, p_worker = 0, p_enabled = True\<rparr>]
   \<and> al_running lg \<and> al_gate lg = gate_new"
proof -
  have "[0..<64] = 0 # 1 # [2..<64]" by (simp add: upt_conv_Cons)
  then have "next_power_of_two 2 = Some 2" by (simp add: next_power_of_two_def)
  moreover have "is_power_of_two 2" unfolding is_power_of_two_def by (intro bexI [of _ 1]) auto
  then obtain q :: "line queue" where "queue_new 2 = Some q" by (simp add: queue_new_def)
  ultimately show ?thesis using queue_new_rep [of 2 q] queue_holdsI [of q 0 "[]" 2]
    by (auto simp: access_log_new_def with_enabled_def)
qed

lemma drain_turn_empty: "queue_holds q n [] \<Longrightarrow> drain_turn sp q b = Some (q, b, False)"
  by (erule queue_holdsE) (simp add: drain_turn_def dequeue_empty)

lemma one_line_reachable: "\<exists>s. log_reachable 2 1 s \<and> length (accepted s) = 1"
proof -
  obtain lg q where lg: "access_log_new 2 1 = Some lg" "al_queue lg = q" "queue_holds q 2 []"
    "al_producers lg = [\<lparr>p_sequence = 0, p_dropped = 0, p_worker = 0, p_enabled = True\<rparr>]"
    using small_log by blast
  let ?s = "\<lparr>the_log = lg, pc = WStart, batch = [], writes = [], waking = {}, accepted = [], recorded = 0\<rparr>"
  let ?p = "\<lparr>p_sequence = 0, p_dropped = 0, p_worker = 0, p_enabled = True\<rparr>"
  let ?p' = "?p\<lparr>p_sequence := p_sequence ?p + 1\<rparr>"
  obtain l where l: "render ?p' (now_millis None) (p_sequence ?p) sample_record = Some l"
    using render_total [OF now_millis_bound, of ?p' sample_record None "p_sequence ?p"]
    by (auto simp: sample_record_def)
  from lg(3) obtain d where d: "queue_rep q d []" by (rule queue_holdsE)
  with rep_capacity(4) [OF d] enqueue_room [OF d, of "[]" l] obtain q' where "enqueue [] q l = Some (q', Inr ())" by auto
  with l have "record_enqueue [] None sample_record q ?p = Some (q', ?p', Some l)"
    by (simp add: record_enqueue_def)
  then have "log_step ?s (after_enqueue 0 q' ?p' (Some l) ?s)"
    using enqueue_line [of 0 ?s "[]" None sample_record q' ?p' "Some l"] lg by simp
  from log_reachable.step [OF log_reachable.init [OF lg(1)] this] show ?thesis
    by (force simp: after_enqueue_def)
qed

lemma parked_reachable:
  "\<exists>s. log_reachable 2 1 s \<and> pc s = WPark \<and> \<not> permit (gate_of s) \<and> waking s = {} \<and> al_running (the_log s)"
proof -
  obtain lg q where lg: "access_log_new 2 1 = Some lg" "al_queue lg = q" "queue_holds q 2 []"
    "al_running lg" "al_gate lg = gate_new"
    using small_log by blast
  let ?s = "\<lambda>g c. \<lparr>the_log = lg\<lparr>al_gate := g\<rparr>, pc = c, batch = [], writes = [], waking = {}, accepted = [], recorded = 0\<rparr>"
  let ?g = "writer_started gate_new"
  have turn: "drain_turn [] (queue_of (?s g c)) (batch (?s g c)) = Some (q, [], False)" for g c
    using drain_turn_empty [OF lg(3)] lg(2) by simp
  have keep: "(?s g c)\<lparr>the_log := (the_log (?s g c))\<lparr>al_queue := q\<rparr>, batch := [], pc := c'\<rparr> = ?s g c'" for g c c'
    using lg(2) by (cases lg) simp
  have eq: "\<lparr>the_log = lg, pc = WStart, batch = [], writes = [], waking = {}, accepted = [], recorded = 0\<rparr> = ?s gate_new WStart"
    using lg(5) by (cases lg) simp
  have "log_reachable 2 1 (?s gate_new WStart)" using log_reachable.init [OF lg(1)] unfolding eq .
  moreover have "log_step (?s gate_new WStart) (?s ?g (WDrain 0 False))"
    using start [of "?s gate_new WStart"] by (simp add: set_gate_def)
  moreover have "log_step (?s ?g (WDrain 0 False)) (?s ?g WIdle)"
    using drain_done [of "?s ?g (WDrain 0 False)", OF _ turn] keep by (simp add: after_drain_def)
  moreover have "log_step (?s ?g WIdle) (?s ?g WFlag)" using give_up [of "?s ?g WIdle"] lg(4) by simp
  moreover have "log_step (?s ?g WFlag) (?s (?g\<lparr>parked := True\<rparr>) (WDrain 0 True))"
    using flag [of "?s ?g WFlag"] by (simp add: set_gate_def)
  moreover have "log_step (?s (?g\<lparr>parked := True\<rparr>) (WDrain 0 True)) (?s (?g\<lparr>parked := True\<rparr>) WPark)"
    using look_done [of "?s (?g\<lparr>parked := True\<rparr>) (WDrain 0 True)", OF _ turn] keep by (simp add: after_drain_def)
  ultimately have "log_reachable 2 1 (?s (?g\<lparr>parked := True\<rparr>) WPark)" by (meson log_reachable.step)
  then show ?thesis using lg(4) by (force simp: gate_new_def writer_started_def)
qed

theorem log_conserved_witness:
  "\<exists>s xs n. log_reachable 2 1 s \<and> length (accepted s) = 1 \<and> queue_holds (queue_of s) n xs
      \<and> concat (map logged (accepted s)) = handed_over (writes s) @ batch s @ concat (map logged xs)"
  using one_line_reachable log_conserved by blast

theorem no_lost_wakeup_witness:
  "\<exists>s n. log_reachable 2 1 s \<and> pc s = WPark \<and> queue_holds (queue_of s) n []
     \<and> (\<exists>s'. log_step\<^sup>*\<^sup>* s s' \<and> handed_over (writes s') = concat (map logged (accepted s)))"
proof -
  obtain s where s: "log_reachable 2 1 s" "pc s = WPark" "\<not> permit (gate_of s)" "waking s = {}"
      "al_running (the_log s)" using parked_reachable by blast
  from no_lost_wakeup [OF s(1)] s show ?thesis by auto
qed

text \<open>A queue with one line in it, drained into an almost full batch and into an empty one.\<close>

lemma one_line_queue: "\<exists>q. queue_holds q 2 [l :: line]"
proof -
  obtain q where "queue_holds (q :: line queue) 2 []" using small_log by blast
  then obtain d where d: "queue_rep q d []" and n: "2 = length (buffer q)" by (rule queue_holdsE)
  have "length [] < length (buffer q)" using n by simp
  from enqueue_room [OF d this, of "[]" l] n show ?thesis by (auto intro: queue_holdsI)
qed

theorem drain_exact_witness:
  "\<exists>q q'. queue_holds q 2 [\<lparr>line_bytes = ''x'', line_len = 1\<rparr>]
     \<and> drain 2 [] q ''y'' = Some (q', ''yx'' @ [log_newline], True) \<and> queue_holds q' 2 []"
proof -
  let ?l = "\<lparr>line_bytes = ''x'', line_len = 1\<rparr>"
  have l: "logged ?l = ''x'' @ [log_newline]" by (simp add: logged_def line_as_str_def ord_of_def)
  obtain q where q: "queue_holds q 2 [?l]" using one_line_queue by blast
  have "length [?l] < 2" by simp
  from drain_exact [OF q this, of "[]" "''y''"] obtain q' k where
    d: "drain 2 [] q ''y'' = Some (q', ''y'' @ concat (map logged (take k [?l])), [?l] \<noteq> [])"
    "queue_holds q' 2 (drop k [?l])" and "k \<le> length [?l]" "[?l] \<noteq> [] \<longrightarrow> 0 < k" by blast
  then have "k = 1" by simp
  with d q l show ?thesis by auto
qed

end
