(* ===== verification/Metrics.thy ===== *)
theory Metrics
  imports Access_Log
begin

text \<open>
  \<open>components/kallisto_telemetry/src/metrics.rs\<close>: the outcome counters of the workers and the
  Prometheus text of a scrape. Counters are 64-bit words and wrap; sums wrap as in a release build.

  Shown here: a scrape shows, for every outcome, exactly the number of requests observed with it over
  all workers, every request being in one class, and its text is the fixed one around the numbers.
\<close>

section \<open>Counters\<close>

datatype outcome = Ok_outcome | Denied | NotFound_outcome | RateLimited | Sealed_outcome | Error_outcome

definition outcome_of :: "nat \<Rightarrow> outcome" where
  "outcome_of st =
     (if 200 \<le> st \<and> st \<le> 299 then Ok_outcome
      else if st = 403 then Denied
      else if st = 404 then NotFound_outcome
      else if st = 429 then RateLimited
      else if st = 503 then Sealed_outcome
      else Error_outcome)"

fun outcome_label :: "outcome \<Rightarrow> string" where
  "outcome_label Ok_outcome = ''ok''"
| "outcome_label Denied = ''denied''"
| "outcome_label NotFound_outcome = ''not_found''"
| "outcome_label RateLimited = ''rate_limited''"
| "outcome_label Sealed_outcome = ''sealed''"
| "outcome_label Error_outcome = ''error''"

definition ALL_OUTCOMES :: "outcome list" where
  "ALL_OUTCOMES = [Ok_outcome, Denied, NotFound_outcome, RateLimited, Sealed_outcome, Error_outcome]"

record worker_metrics =
  wm_ok :: u64
  wm_denied :: u64
  wm_not_found :: u64
  wm_rate_limited :: u64
  wm_sealed :: u64
  wm_error :: u64

definition worker_metrics_default :: worker_metrics where
  "worker_metrics_default =
     \<lparr>wm_ok = 0, wm_denied = 0, wm_not_found = 0, wm_rate_limited = 0, wm_sealed = 0, wm_error = 0\<rparr>"

fun metrics_get :: "worker_metrics \<Rightarrow> outcome \<Rightarrow> u64" where
  "metrics_get m Ok_outcome = wm_ok m"
| "metrics_get m Denied = wm_denied m"
| "metrics_get m NotFound_outcome = wm_not_found m"
| "metrics_get m RateLimited = wm_rate_limited m"
| "metrics_get m Sealed_outcome = wm_sealed m"
| "metrics_get m Error_outcome = wm_error m"

fun metrics_observe :: "outcome \<Rightarrow> worker_metrics \<Rightarrow> worker_metrics" where
  "metrics_observe Ok_outcome m = m\<lparr>wm_ok := wm_ok m + 1\<rparr>"
| "metrics_observe Denied m = m\<lparr>wm_denied := wm_denied m + 1\<rparr>"
| "metrics_observe NotFound_outcome m = m\<lparr>wm_not_found := wm_not_found m + 1\<rparr>"
| "metrics_observe RateLimited m = m\<lparr>wm_rate_limited := wm_rate_limited m + 1\<rparr>"
| "metrics_observe Sealed_outcome m = m\<lparr>wm_sealed := wm_sealed m + 1\<rparr>"
| "metrics_observe Error_outcome m = m\<lparr>wm_error := wm_error m + 1\<rparr>"

section \<open>The scrape\<close>

record metrics_status =
  ms_sealed :: bool
  ms_file_version :: "nat option"
  ms_secrets :: nat
  ms_tokens :: nat
  ms_enforces :: bool
  ms_log_dropped :: nat
  ms_refresh_failures :: nat

text \<open>\<open>None\<close>: the index into the buffer would underflow.\<close>

definition push_u64 :: "nat \<Rightarrow> string \<Rightarrow> string option" where
  "push_u64 v out =
     (case digit_loop v 20 (replicate 20 (CHR 0x00)) of
        None \<Rightarrow> None
      | Some (i, digits) \<Rightarrow> Some (out @ (if valid_utf8 (drop i digits) then drop i digits else ''0'')))"

definition gauge :: "string \<Rightarrow> nat \<Rightarrow> string \<Rightarrow> string option" where
  "gauge name v out = map_option (\<lambda>out. out @ [log_newline]) (push_u64 v (out @ name @ '' ''))"

definition describe_metric :: "string \<Rightarrow> string \<Rightarrow> string \<Rightarrow> string" where
  "describe_metric name kind help =
     ''# HELP '' @ name @ '' '' @ help @ [log_newline] @ ''# TYPE '' @ name @ '' '' @ kind @ [log_newline]"

fun render_outcomes :: "worker_metrics list \<Rightarrow> outcome list \<Rightarrow> string \<Rightarrow> string option" where
  "render_outcomes ws [] out = Some out"
| "render_outcomes ws (o' # rest) out =
     (let total = sum_list (map (\<lambda>w. metrics_get w o') ws);
          out = out @ ''kallisto_requests_total{outcome='' @ [CHR 0x22] @ outcome_label o' @ [CHR 0x22] @ ''} ''
      in Option.bind (push_u64 (unat total) out) (\<lambda>out. render_outcomes ws rest (out @ [log_newline])))"

definition metrics_render :: "worker_metrics list \<Rightarrow> metrics_status \<Rightarrow> string option" where
  "metrics_render ws st =
     (let out = describe_metric ''kallisto_access_log_dropped_total'' ''counter''
            ''Access log lines discarded because the queue was full.''
      in
      Option.bind (gauge ''kallisto_access_log_dropped_total'' (ms_log_dropped st) out) (\<lambda>out.
      Option.bind (render_outcomes ws ALL_OUTCOMES (out @ describe_metric ''kallisto_requests_total'' ''counter''
            ''Requests answered, by outcome class.'')) (\<lambda>out.
      Option.bind (gauge ''kallisto_sealed'' (if ms_sealed st then 1 else 0)
            (out @ describe_metric ''kallisto_sealed'' ''gauge''
              ''Whether no file has loaded, so every read answers 503.'')) (\<lambda>out.
      Option.bind (gauge ''kallisto_file_version'' (case ms_file_version st of None \<Rightarrow> 0 | Some v \<Rightarrow> v)
            (out @ describe_metric ''kallisto_file_version'' ''gauge''
              ''Content version of the sealed file being served.'')) (\<lambda>out.
      Option.bind (gauge ''kallisto_secrets'' (ms_secrets st)
            (out @ describe_metric ''kallisto_secrets'' ''gauge'' ''Secrets in the file being served.'')) (\<lambda>out.
      Option.bind (gauge ''kallisto_tokens'' (ms_tokens st)
            (out @ describe_metric ''kallisto_tokens'' ''gauge'' ''Tokens in the file being served.'')) (\<lambda>out.
      Option.bind (gauge ''kallisto_authorization_enforced'' (if ms_enforces st then 1 else 0)
            (out @ describe_metric ''kallisto_authorization_enforced'' ''gauge''
              ''Whether the file carries a token table at all.'')) (\<lambda>out.
      gauge ''kallisto_refresh_failures_total'' (ms_refresh_failures st)
            (out @ describe_metric ''kallisto_refresh_failures_total'' ''counter''
              ''Polls that did not yield a servable file.'')))))))))"

section \<open>What a scrape shows\<close>

lemma push_u64_show: "v < 2 ^ 64 \<Longrightarrow> push_u64 v out = Some (out @ show_nat v)"
  using digit_loop_digits [of v 20 "replicate 20 (CHR 0x00)"] show_u64_length [of v] show_nat_valid [of v]
  by (auto simp: push_u64_def)

lemma gauge_show: "v < 2 ^ 64 \<Longrightarrow> gauge name v out = Some (out @ name @ '' '' @ show_nat v @ [log_newline])"
  by (simp add: gauge_def push_u64_show)

definition outcome_line :: "outcome \<Rightarrow> nat \<Rightarrow> string" where
  "outcome_line o' n = ''kallisto_requests_total{outcome='' @ [CHR 0x22] @ outcome_label o' @ [CHR 0x22] @ ''} ''
     @ show_nat n @ [log_newline]"

lemma render_outcomes_show:
  "render_outcomes ws os out =
     Some (out @ concat (map (\<lambda>o'. outcome_line o' (unat (sum_list (map (\<lambda>w. metrics_get w o') ws)))) os))"
proof (induction os arbitrary: out)
  case (Cons o' os)
  have "unat (sum_list (map (\<lambda>w. metrics_get w o') ws)) < 2 ^ 64"
    using unsigned_less [of "sum_list (map (\<lambda>w. metrics_get w o') ws)"] by simp
  with Cons show ?case by (simp add: Let_def push_u64_show outcome_line_def)
qed simp

text \<open>Observing on one worker adds one to one sum.\<close>

lemma get_observe: "metrics_get (metrics_observe o1 m) o2 = metrics_get m o2 + (if o1 = o2 then 1 else 0)"
  by (cases o1; cases o2) auto

fun observe_all :: "(nat \<times> nat) list \<Rightarrow> worker_metrics list \<Rightarrow> worker_metrics list" where
  "observe_all [] ws = ws"
| "observe_all ((i, st) # rest) ws = observe_all rest (ws[i := metrics_observe (outcome_of st) (ws ! i)])"

lemma observe_all_sum:
  "(\<And>i st. (i, st) \<in> set obs \<Longrightarrow> i < length ws) \<Longrightarrow>
   sum_list (map (\<lambda>w. metrics_get w o') (observe_all obs ws)) =
     sum_list (map (\<lambda>w. metrics_get w o') ws) + of_nat (length (filter (\<lambda>(i, st). outcome_of st = o') obs))"
proof (induction obs arbitrary: ws)
  case (Cons a obs)
  obtain i st where a: "a = (i, st)" by (cases a)
  let ?ws = "ws[i := metrics_observe (outcome_of st) (ws ! i)]"
  have i: "i < length ws" using Cons.prems [of i st] a by simp
  have "map (\<lambda>w. metrics_get w o') ?ws = (map (\<lambda>w. metrics_get w o') ws)
      [i := map (\<lambda>w. metrics_get w o') ws ! i + (if outcome_of st = o' then 1 else 0)]"
    using i by (simp add: map_update get_observe)
  then have "sum_list (map (\<lambda>w. metrics_get w o') ?ws) =
      sum_list (map (\<lambda>w. metrics_get w o') ws) + (if outcome_of st = o' then 1 else 0)"
    using sum_list_bump [of i "map (\<lambda>w. metrics_get w o') ws"] i by simp
  moreover have "sum_list (map (\<lambda>w. metrics_get w o') (observe_all obs ?ws)) =
      sum_list (map (\<lambda>w. metrics_get w o') ?ws) + of_nat (length (filter (\<lambda>(i, st). outcome_of st = o') obs))"
    using Cons.prems by (intro Cons.IH) auto
  ultimately show ?case by (simp add: a)
qed simp

lemma outcomes_partition:
  "sum_list (map (\<lambda>o'. length (filter (\<lambda>(i, st). outcome_of st = o') obs)) ALL_OUTCOMES) = length obs"
proof (induction obs)
  case (Cons a obs)
  then show ?case by (cases a; cases "outcome_of (snd a)") (auto simp: ALL_OUTCOMES_def)
qed (simp add: ALL_OUTCOMES_def)

definition status_ok :: "metrics_status \<Rightarrow> bool" where
  "status_ok st \<longleftrightarrow> ms_log_dropped st < 2 ^ 64 \<and> ms_secrets st < 2 ^ 64 \<and> ms_tokens st < 2 ^ 64
     \<and> ms_refresh_failures st < 2 ^ 64 \<and> (case ms_file_version st of None \<Rightarrow> True | Some v \<Rightarrow> v < 2 ^ 64)"

definition metric_lines :: "string \<Rightarrow> string \<Rightarrow> string \<Rightarrow> nat \<Rightarrow> string" where
  "metric_lines name kind help v = describe_metric name kind help @ name @ '' '' @ show_nat v @ [log_newline]"

definition metrics_text :: "(outcome \<Rightarrow> nat) \<Rightarrow> metrics_status \<Rightarrow> string" where
  "metrics_text totals st =
     metric_lines ''kallisto_access_log_dropped_total'' ''counter''
       ''Access log lines discarded because the queue was full.'' (ms_log_dropped st)
     @ describe_metric ''kallisto_requests_total'' ''counter'' ''Requests answered, by outcome class.''
     @ concat (map (\<lambda>o'. outcome_line o' (totals o')) ALL_OUTCOMES)
     @ metric_lines ''kallisto_sealed'' ''gauge'' ''Whether no file has loaded, so every read answers 503.''
         (if ms_sealed st then 1 else 0)
     @ metric_lines ''kallisto_file_version'' ''gauge'' ''Content version of the sealed file being served.''
         (case ms_file_version st of None \<Rightarrow> 0 | Some v \<Rightarrow> v)
     @ metric_lines ''kallisto_secrets'' ''gauge'' ''Secrets in the file being served.'' (ms_secrets st)
     @ metric_lines ''kallisto_tokens'' ''gauge'' ''Tokens in the file being served.'' (ms_tokens st)
     @ metric_lines ''kallisto_authorization_enforced'' ''gauge'' ''Whether the file carries a token table at all.''
         (if ms_enforces st then 1 else 0)
     @ metric_lines ''kallisto_refresh_failures_total'' ''counter'' ''Polls that did not yield a servable file.''
         (ms_refresh_failures st)"

lemma metrics_render_text:
  assumes "status_ok st"
  shows "metrics_render ws st =
     Some (metrics_text (\<lambda>o'. unat (sum_list (map (\<lambda>w. metrics_get w o') ws))) st)"
proof -
  have v: "(case ms_file_version st of None \<Rightarrow> 0 | Some v \<Rightarrow> v) < 2 ^ 64"
    using assms by (auto simp: status_ok_def split: option.splits)
  have b: "(if c then 1 else 0 :: nat) < 2 ^ 64" for c by simp
  have n: "ms_log_dropped st < 2 ^ 64" "ms_secrets st < 2 ^ 64" "ms_tokens st < 2 ^ 64" "ms_refresh_failures st < 2 ^ 64"
    using assms by (simp_all add: status_ok_def)
  show ?thesis
    unfolding metrics_render_def Let_def metrics_text_def metric_lines_def
      gauge_show [OF v] gauge_show [OF b] gauge_show [OF n(1)] gauge_show [OF n(2)] gauge_show [OF n(3)] gauge_show [OF n(4)]
      render_outcomes_show Option.bind.bind_lunit append_assoc ..
qed

text \<open>
  C30. A scrape is exact. After any requests were observed on any of the workers, in any order, the
  text is the fixed text around the status and, for each outcome, the number of requests whose
  status falls in that class, over all workers and modulo \<open>2^64\<close>; every request is in exactly one
  class. Rendering does not panic.
\<close>

theorem scrape_exact:
  assumes "\<forall>(i, s) \<in> set obs. i < n" and "status_ok st"
  shows "metrics_render (observe_all obs (replicate n worker_metrics_default)) st =
      Some (metrics_text (\<lambda>o'. length (filter (\<lambda>(i, s). outcome_of s = o') obs) mod 2 ^ 64) st)
    \<and> sum_list (map (\<lambda>o'. length (filter (\<lambda>(i, s). outcome_of s = o') obs)) ALL_OUTCOMES) = length obs"
proof -
  have "metrics_get worker_metrics_default o' = 0" for o' by (cases o') (simp_all add: worker_metrics_default_def)
  then have zero: "sum_list (map (\<lambda>w. metrics_get w o') (replicate n worker_metrics_default)) = 0" for o'
    by (induction n) auto
  have "unat (sum_list (map (\<lambda>w. metrics_get w o') (observe_all obs (replicate n worker_metrics_default))))
      = length (filter (\<lambda>(i, s). outcome_of s = o') obs) mod 2 ^ 64" for o'
  proof -
    have "i < length (replicate n worker_metrics_default)" if "(i, s) \<in> set obs" for i s using assms(1) that by auto
    from observe_all_sum [OF this] zero show ?thesis by (simp add: unsigned_of_nat take_bit_eq_mod)
  qed
  then show ?thesis using metrics_render_text [OF assms(2)] outcomes_partition [of obs] by simp
qed

definition sample_status :: metrics_status where
  "sample_status = \<lparr>ms_sealed = False, ms_file_version = Some 7, ms_secrets = 2, ms_tokens = 1, ms_enforces = True,
     ms_log_dropped = 0, ms_refresh_failures = 0\<rparr>"

theorem scrape_exact_witness:
  "metrics_render (observe_all [(0, 200), (1, 403), (0, 204)] (replicate 2 worker_metrics_default)) sample_status
    = Some (metrics_text (\<lambda>o'. case o' of Ok_outcome \<Rightarrow> 2 | Denied \<Rightarrow> 1 | _ \<Rightarrow> 0) sample_status)"
proof -
  have counts: "(\<lambda>o'. length (filter (\<lambda>(i, s). outcome_of s = o') [(0 :: nat, 200), (1, 403), (0, 204)]) mod 2 ^ 64)
      = (\<lambda>o'. case o' of Ok_outcome \<Rightarrow> 2 | Denied \<Rightarrow> 1 | _ \<Rightarrow> 0)"
    by (rule ext) (auto simp: outcome_of_def split: outcome.splits)
  have "status_ok sample_status" "\<forall>(i, s) \<in> set [(0 :: nat, 200 :: nat), (1, 403), (0, 204)]. i < 2"
    by (simp_all add: sample_status_def status_ok_def)
  from scrape_exact [OF this(2,1)] show ?thesis unfolding counts by blast
qed

end
