(* ===== verification/Vault_Api.thy ===== *)
theory Vault_Api
  imports Snapshot Rate_Limit Responses Request Metrics
begin

text \<open>
  The read-only Vault KV-v2 surface: \<open>src/server/vault_api/replies.rs\<close> (every answer), \<open>mod.rs\<close>
  (the state of a worker's router) and \<open>kv.rs\<close> (the handlers behind \<open>/v1/{mount}/...\<close>). A handler
  takes the worker's state and returns it changed: the limiter it drew from and the scratch buffer
  of its thread. \<open>None\<close> is a panic. The snapshot table itself is only read.

  Shown here: what every answer of a handler means for the snapshot that was served from and, for
  snapshots built from a file, for the file; reads are released only to a token the file grants
  them to; the handlers return on every valid request.
\<close>

section \<open>replies.rs\<close>

record response =
  rs_status :: nat
  rs_content_type :: string
  rs_retry_after :: "string option"
  rs_body :: string

definition SEALED_MESSAGE :: string where
  "SEALED_MESSAGE = ''Vault is sealed''"

definition DENIED_MESSAGE :: string where
  "DENIED_MESSAGE = ''permission denied''"

definition json_response :: "nat \<Rightarrow> string \<Rightarrow> response" where
  "json_response st body =
     \<lparr>rs_status = st, rs_content_type = ''application/json'', rs_retry_after = None, rs_body = body\<rparr>"

definition sealed_reply :: response where
  "sealed_reply = json_response 503 (errors SEALED_MESSAGE)"

definition denied :: response where
  "denied = json_response 403 (errors DENIED_MESSAGE)"

definition absent :: response where
  "absent = json_response 404 ''{\"errors\":[]}''"

definition too_many :: "nat \<Rightarrow> response" where
  "too_many retry_after_secs =
     \<lparr>rs_status = 429, rs_content_type = ''application/json'',
      rs_retry_after = Some (show_nat retry_after_secs), rs_body = errors ''request rate exceeded''\<rparr>"

definition route_not_found :: "string \<Rightarrow> response" where
  "route_not_found path =
     (let route = (case strip_prefix ''/v1/'' path of Some r \<Rightarrow> r | None \<Rightarrow> path) in
      json_response 404 (errors (''no handler for route \"'' @ route @ ''\". route entry not found.'')))"

definition unknown_route :: "uri \<Rightarrow> response" where
  "unknown_route u = route_not_found (uri_path u)"

section \<open>mod.rs\<close>

record resolved_limits =
  requests_per_second :: nat
  burst :: nat

record telemetry =
  tm_log :: access_log
  tm_workers :: "worker_metrics list"
  tm_fallback_log_key :: log_key
  tm_refresh_failures :: nat

record resolver =
  rv_slot :: slot
  rv_mount :: string
  rv_limits :: resolved_limits
  rv_telemetry :: telemetry

text \<open>
  The random bytes of the fallback key are drawn from the system; \<open>None\<close>: the capacity does not
  fit, or the system generator fails and the constructor panics.
\<close>

definition with_log :: "bytes option \<Rightarrow> nat \<Rightarrow> nat \<Rightarrow> bool \<Rightarrow> telemetry option" where
  "with_log random queue_capacity workers log_enabled =
     (let workers = max workers 1 in
      Option.bind (with_enabled queue_capacity workers log_enabled) (\<lambda>lg.
      Option.bind (log_key_random random) (\<lambda>k.
      Some \<lparr>tm_log = lg, tm_workers = replicate workers worker_metrics_default,
            tm_fallback_log_key = k, tm_refresh_failures = 0\<rparr>)))"

definition telemetry_new :: "bytes option \<Rightarrow> nat \<Rightarrow> nat \<Rightarrow> telemetry option" where
  "telemetry_new random queue_capacity workers = with_log random queue_capacity workers True"

text \<open>
  The producer and the counters of a worker are references into the telemetry, here indices.
  \<open>as_scratch\<close> is the thread-local buffer the barrier opens into.
\<close>

record api_state =
  as_resolver :: resolver
  as_limiter :: rate_limiter
  as_producer :: nat
  as_metrics :: nat
  as_scratch :: bytes

definition state_snapshot :: "api_state \<Rightarrow> snapshot option" where
  "state_snapshot st = slot_load (rv_slot (as_resolver st))"

definition worker_state :: "resolver \<Rightarrow> nat \<Rightarrow> api_state" where
  "worker_state rv worker =
     \<lparr>as_resolver = rv,
      as_limiter = limiter_new (requests_per_second (rv_limits rv)) (burst (rv_limits rv)),
      as_producer = log_producer (tm_log (rv_telemetry rv)) worker,
      as_metrics = worker mod length (tm_workers (rv_telemetry rv)),
      as_scratch = []\<rparr>"

section \<open>kv.rs\<close>

text \<open>\<open>Inl\<close> is the response to give instead of going on.\<close>

definition accept :: "nat \<Rightarrow> api_state \<Rightarrow> uri \<Rightarrow> string \<Rightarrow> api_state \<times> (response + snapshot \<times> string)" where
  "accept elapsed st u action =
     (case try_acquire (as_limiter st) elapsed of
        (l, Inl retry_after) \<Rightarrow> (st\<lparr>as_limiter := l\<rparr>, Inl (too_many retry_after))
      | (l, Inr _) \<Rightarrow>
          (st\<lparr>as_limiter := l\<rparr>,
           (case state_snapshot st of
              None \<Rightarrow> Inl sealed_reply
            | Some sn \<Rightarrow>
                (case extract_mount_and_path (uri_path u) action of
                   None \<Rightarrow> Inl (route_not_found (uri_path u))
                 | Some (mount, path) \<Rightarrow>
                     if mount \<noteq> rv_mount (as_resolver st) then Inl (route_not_found (uri_path u))
                     else Inr (sn, path)))))"

text \<open>The outer option is a panic, the inner one the refusal.\<close>

definition read_refusal :: "hmac_fun \<Rightarrow> snapshot \<Rightarrow> headers \<Rightarrow> uri \<Rightarrow> response option option" where
  "read_refusal hmac sn hs u =
     Option.bind (permits hmac sn (presented_token hs) (policy_path u) Read) (\<lambda>ok.
     if \<not> ok then Some (Some denied)
     else map_option (\<lambda>v. case v of
            Some asked \<Rightarrow> if asked \<noteq> 0 \<and> asked \<noteq> unat (sn_version sn) then Some absent else None
          | None \<Rightarrow> None) (version_param u))"

definition render_secret :: "aead_lib \<Rightarrow> snapshot \<Rightarrow> string \<Rightarrow> bytes \<Rightarrow> bytes \<times> response" where
  "render_secret lib sn path scratch =
     (case with_secret lib sn path
         (\<lambda>v. kv_data v (unat (sn_version sn)) (sn_loaded_at_rfc3339 sn)) scratch of
        Some (buf, Inr body) \<Rightarrow> (buf, json_response 200 body)
      | Some (buf, Inl _) \<Rightarrow> (buf, json_response 500 (errors ''internal error''))
      | None \<Rightarrow> (scratch, absent))"

definition read_secret ::
    "runtime \<Rightarrow> nat \<Rightarrow> api_state \<Rightarrow> string \<Rightarrow> headers \<Rightarrow> uri \<Rightarrow> (api_state \<times> response) option" where
  "read_secret rt elapsed st mtd hs u =
     (if \<not> is_read_method mtd then Some (st, denied)
      else (case accept elapsed st u ''data'' of
        (st, Inl response) \<Rightarrow> Some (st, response)
      | (st, Inr (sn, path)) \<Rightarrow>
          Option.bind (read_refusal (rt_hmac rt) sn hs u) (\<lambda>refusal.
          case refusal of
            Some response \<Rightarrow> Some (st, response)
          | None \<Rightarrow>
              (case render_secret (rt_aead rt) sn path (as_scratch st) of
                 (buf, response) \<Rightarrow> Some (st\<lparr>as_scratch := buf\<rparr>, response)))))"

definition list_prefix :: "string \<Rightarrow> string" where
  "list_prefix path = (if path = [] \<or> ends_with ''/'' path then path else path @ ''/'')"

definition list_children :: "hmac_fun \<Rightarrow> snapshot \<Rightarrow> string \<Rightarrow> string option \<Rightarrow> string \<Rightarrow> response option" where
  "list_children hmac sn mount token path =
     Option.bind (permits hmac sn token (mount @ ''/metadata/'' @ list_prefix path) List) (\<lambda>ok.
     if \<not> ok then Some denied
     else (let keys = children sn (list_prefix path) in
           if keys = [] then Some absent else Some (json_response 200 (list_keys keys))))"

definition describe_secret :: "hmac_fun \<Rightarrow> snapshot \<Rightarrow> string option \<Rightarrow> uri \<Rightarrow> string \<Rightarrow> response option" where
  "describe_secret hmac sn token u path =
     Option.bind (permits hmac sn token (policy_path u) Read) (\<lambda>ok.
     if \<not> ok then Some denied
     else if \<not> has_secret sn path then Some absent
     else Some (json_response 200 (kv_metadata (unat (sn_version sn)) (sn_loaded_at_rfc3339 sn))))"

definition read_metadata ::
    "runtime \<Rightarrow> nat \<Rightarrow> api_state \<Rightarrow> string \<Rightarrow> headers \<Rightarrow> uri \<Rightarrow> (api_state \<times> response) option" where
  "read_metadata rt elapsed st mtd hs u =
     (let listing = is_list_method mtd \<or> is_read_method mtd \<and> wants_list u in
      if \<not> listing \<and> \<not> is_read_method mtd then Some (st, denied)
      else (case accept elapsed st u ''metadata'' of
        (st, Inl response) \<Rightarrow> Some (st, response)
      | (st, Inr (sn, path)) \<Rightarrow>
          (let token = presented_token hs in
           map_option (\<lambda>r. (st, r))
             (if listing then list_children (rt_hmac rt) sn (rv_mount (as_resolver st)) token path
              else describe_secret (rt_hmac rt) sn token u path))))"

definition refuse_write :: "nat \<Rightarrow> api_state \<Rightarrow> api_state \<times> response" where
  "refuse_write elapsed st =
     (case try_acquire (as_limiter st) elapsed of
        (l, Inl retry_after) \<Rightarrow> (st\<lparr>as_limiter := l\<rparr>, too_many retry_after)
      | (l, Inr _) \<Rightarrow> (st\<lparr>as_limiter := l\<rparr>, denied))"

section \<open>The gate\<close>

lemmas reply_defs = json_response_def sealed_reply_def denied_def absent_def too_many_def
  route_not_found_def Let_def

lemma accept_Inr:
  assumes "accept elapsed st u action = (st', Inr (sn, path))" and "CHR ''/'' \<notin> set action"
  shows "state_snapshot st = Some sn" and "snd (try_acquire (as_limiter st) elapsed) = Inr ()"
    and "uri_path u = ''/v1/'' @ rv_mount (as_resolver st) @ ''/'' @ action @ ''/'' @ path"
    and "policy_path u = rv_mount (as_resolver st) @ ''/'' @ action @ ''/'' @ path"
    and "st' = st\<lparr>as_limiter := fst (try_acquire (as_limiter st) elapsed)\<rparr>"
proof -
  have *: "state_snapshot st = Some sn \<and> snd (try_acquire (as_limiter st) elapsed) = Inr ()
    \<and> extract_mount_and_path (uri_path u) action = Some (rv_mount (as_resolver st), path)
    \<and> st' = st\<lparr>as_limiter := fst (try_acquire (as_limiter st) elapsed)\<rparr>"
    using assms(1) by (auto simp: accept_def split: prod.splits sum.splits option.splits if_splits)
  then show "state_snapshot st = Some sn" "snd (try_acquire (as_limiter st) elapsed) = Inr ()"
    "st' = st\<lparr>as_limiter := fst (try_acquire (as_limiter st) elapsed)\<rparr>" by blast+
  show "uri_path u = ''/v1/'' @ rv_mount (as_resolver st) @ ''/'' @ action @ ''/'' @ path"
    using * extract_exact [OF assms(2)] by blast
  show "policy_path u = rv_mount (as_resolver st) @ ''/'' @ action @ ''/'' @ path"
    using * policy_path_extract [OF _ assms(2)] by blast
qed

lemma accept_Inl:
  assumes "accept elapsed st u action = (st', Inl r)"
  shows "st' = st\<lparr>as_limiter := fst (try_acquire (as_limiter st) elapsed)\<rparr>"
    and "(\<exists>n. snd (try_acquire (as_limiter st) elapsed) = Inl n \<and> r = too_many n)
      \<or> state_snapshot st = None \<and> r = sealed_reply
      \<or> state_snapshot st \<noteq> None \<and> r = route_not_found (uri_path u)"
  using assms by (auto simp: accept_def split: prod.splits sum.splits option.splits if_splits)

text \<open>What a handler may change: the limiter and the scratch buffer.\<close>

definition same_server :: "api_state \<Rightarrow> api_state \<Rightarrow> bool" where
  "same_server st st' \<longleftrightarrow> as_resolver st' = as_resolver st \<and> as_producer st' = as_producer st
     \<and> as_metrics st' = as_metrics st"

lemma read_secret_cases:
  assumes "read_secret rt elapsed st mtd hs u = Some (st', r)"
  obtains (not_read) "\<not> is_read_method mtd" "r = denied" "st' = st"
    | (gate) "is_read_method mtd" "accept elapsed st u ''data'' = (st', Inl r)"
    | (denied) sn path where "is_read_method mtd" "accept elapsed st u ''data'' = (st', Inr (sn, path))"
        "permits (rt_hmac rt) sn (presented_token hs) (policy_path u) Read = Some False" "r = denied"
    | (version) sn path v where "is_read_method mtd" "accept elapsed st u ''data'' = (st', Inr (sn, path))"
        "permits (rt_hmac rt) sn (presented_token hs) (policy_path u) Read = Some True"
        "version_param u = Some (Some v)" "v \<noteq> 0" "v \<noteq> unat (sn_version sn)" "r = absent"
    | (served) st1 sn path v where "is_read_method mtd" "accept elapsed st u ''data'' = (st1, Inr (sn, path))"
        "permits (rt_hmac rt) sn (presented_token hs) (policy_path u) Read = Some True"
        "version_param u = Some v" "v \<in> {None, Some 0, Some (unat (sn_version sn))}"
        "render_secret (rt_aead rt) sn path (as_scratch st1) = (as_scratch st', r)"
        "st' = st1\<lparr>as_scratch := as_scratch st'\<rparr>"
proof (cases "is_read_method mtd")
  case False
  with assms show thesis by (intro not_read) (simp_all add: read_secret_def)
next
  case True
  obtain st1 res where a: "accept elapsed st u ''data'' = (st1, res)" by fastforce
  show thesis
  proof (cases res)
    case (Inl x)
    with assms a True show thesis by (intro gate) (simp_all add: read_secret_def)
  next
    case (Inr y)
    obtain sn path where y: "y = (sn, path)" by fastforce
    obtain ok where ok: "permits (rt_hmac rt) sn (presented_token hs) (policy_path u) Read = Some ok"
      using assms a True Inr y by (auto simp: read_secret_def read_refusal_def bind_eq_Some_conv)
    show thesis
    proof (cases ok)
      case False
      with assms a True Inr y ok show thesis
        by (intro denied) (auto simp: read_secret_def read_refusal_def)
    next
      case yes: True
      obtain v where v: "version_param u = Some v"
        using assms a True Inr y ok yes by (auto simp: read_secret_def read_refusal_def bind_eq_Some_conv)
      show thesis
      proof (cases "v \<in> {None, Some 0, Some (unat (sn_version sn))}")
        case here: True
        obtain buf r' where rr: "render_secret (rt_aead rt) sn path (as_scratch st1) = (buf, r')" by fastforce
        have "st' = st1\<lparr>as_scratch := buf\<rparr>" "r = r'"
          using assms a True Inr y ok yes v here rr by (auto simp: read_secret_def read_refusal_def)
        with a True Inr y ok yes v here rr show thesis by (intro served) auto
      next
        case elsewhere: False
        then obtain n where "v = Some n" "n \<noteq> 0" "n \<noteq> unat (sn_version sn)" by (cases v) auto
        with assms a True Inr y ok yes v show thesis
          by (intro version) (auto simp: read_secret_def read_refusal_def)
      qed
    qed
  qed
qed

section \<open>Reading a secret\<close>

lemma policy_path_valid:
  assumes "valid_utf8 (uri_path u)"
  shows "valid_utf8 (policy_path u)"
proof (cases "strip_prefix ''/v1/'' (uri_path u)")
  case (Some r)
  then have "uri_path u = ''/v1/'' @ r" by (simp only: strip_prefix_Some)
  with assms valid_utf8_append_iff [of "''/v1/''" r] Some show ?thesis
    by (simp add: policy_path_def ord_of_def)
qed (simp add: policy_path_def assms)

lemma json_status [simp]: "rs_status (json_response n b) = n" "rs_body (json_response n b) = b"
  by (simp_all add: json_response_def)

lemma reply_status [simp]:
  "rs_status denied = 403" "rs_status absent = 404" "rs_status sealed_reply = 503"
  "rs_status (too_many n) = 429" "rs_status (route_not_found p) = 404"
  by (simp_all add: reply_defs)

text \<open>What the handler answers, read off the file that was loaded.\<close>

definition file_read ::
    "view \<Rightarrow> string \<Rightarrow> string \<Rightarrow> (string option \<Rightarrow> string \<Rightarrow> bool) \<Rightarrow> nat option \<Rightarrow> headers \<Rightarrow> uri \<Rightarrow> response" where
  "file_read v loaded_at mount allowed asked hs u =
     (case extract_mount_and_path (uri_path u) ''data'' of
        Some (m, path) \<Rightarrow>
          if m \<noteq> mount then route_not_found (uri_path u)
          else if \<not> allowed (presented_token hs) (mount @ ''/data/'' @ path) then denied
          else if asked \<notin> {None, Some 0, Some (unat (v_version v))} then absent
          else (case map_of (v_secrets v) path of
                  None \<Rightarrow> absent
                | Some t \<Rightarrow> json_response 200 (kv_data t (unat (v_version v)) loaded_at))
      | None \<Rightarrow> route_not_found (uri_path u))"

text \<open>A file's snapshot, with the assumptions on the libraries it was built with.\<close>

definition loaded_from :: "runtime \<Rightarrow> view \<Rightarrow> snapshot \<Rightarrow> bool" where
  "loaded_from rt v sn \<longleftrightarrow> aead_round_trip (rt_aead rt) \<and> btree_ok (v_secrets v)
     \<and> (\<forall>(p, t) \<in> set (v_secrets v). valid_utf8 t) \<and> (\<exists>dr etag. snapshot_build rt dr v etag = Inr sn)"

lemma loaded_version: "loaded_from rt v sn \<Longrightarrow> sn_version sn = v_version v"
  by (auto simp: loaded_from_def elim: snapshot_build_Inr)

lemma render_from_file:
  assumes "loaded_from rt v sn"
  shows "snd (render_secret (rt_aead rt) sn path scratch) =
    (case map_of (v_secrets v) path of
       None \<Rightarrow> absent
     | Some t \<Rightarrow> json_response 200 (kv_data t (unat (v_version v)) (sn_loaded_at_rfc3339 sn)))"
proof -
  obtain dr etag where "snapshot_build rt dr v etag = Inr sn" using assms by (auto simp: loaded_from_def)
  from with_secret_file [OF _ this, of path "\<lambda>t. kv_data t (unat (sn_version sn)) (sn_loaded_at_rfc3339 sn)" scratch]
    assms loaded_version [OF assms]
  have "map_option snd (with_secret (rt_aead rt) sn path
      (\<lambda>t. kv_data t (unat (sn_version sn)) (sn_loaded_at_rfc3339 sn)) scratch) =
    map_option (\<lambda>t. Inr (kv_data t (unat (v_version v)) (sn_loaded_at_rfc3339 sn))) (map_of (v_secrets v) path)"
    by (auto simp: loaded_from_def)
  then show ?thesis
    by (auto simp: render_secret_def split: option.splits prod.splits sum.splits)
qed

lemma read_secret_total:
  assumes "valid_utf8 (uri_path u)" and "\<And>q. uri_query u = Some q \<Longrightarrow> valid_utf8 q"
  shows "\<exists>st' r. read_secret rt elapsed st mtd hs u = Some (st', r)"
proof -
  obtain st1 res where a: "accept elapsed st u ''data'' = (st1, res)" by fastforce
  have "\<exists>x. read_refusal (rt_hmac rt) sn hs u = Some x" for sn
    using permits_total [OF policy_path_valid [OF assms(1)], of "rt_hmac rt" sn "presented_token hs" Read]
      version_param_total [OF assms(2)]
    by (auto simp: read_refusal_def)
  then show ?thesis
  proof (cases res)
    case (Inr y)
    obtain sn path where "y = (sn, path)" by fastforce
    moreover from \<open>\<And>sn. \<exists>x. read_refusal (rt_hmac rt) sn hs u = Some x\<close>
    obtain x where "read_refusal (rt_hmac rt) sn hs u = Some x" by blast
    ultimately show ?thesis using a Inr
      by (cases x) (auto simp: read_secret_def split: prod.splits)
  qed (use a in \<open>simp add: read_secret_def\<close>)
qed

lemma read_secret_from_file:
  assumes v: "loaded_from rt v sn" and sn: "state_snapshot st = Some sn" and "is_read_method mtd"
    and "snd (try_acquire (as_limiter st) elapsed) = Inr ()"
    and "valid_utf8 (uri_path u)" and asked: "version_param u = Some asked"
  shows "map_option snd (read_secret rt elapsed st mtd hs u) =
    Some (file_read v (sn_loaded_at_rfc3339 sn) (rv_mount (as_resolver st))
      (\<lambda>token path. permits (rt_hmac rt) sn token path Read = Some True) asked hs u)"
proof (cases "extract_mount_and_path (uri_path u) ''data''")
  case (Some mp)
  obtain m path where mp: "mp = (m, path)" by fastforce
  obtain l where l: "try_acquire (as_limiter st) elapsed = (l, Inr ())"
    using assms(4) by (cases "try_acquire (as_limiter st) elapsed") auto
  obtain ok where ok: "permits (rt_hmac rt) sn (presented_token hs) (policy_path u) Read = Some ok"
    using permits_total [OF policy_path_valid [OF assms(5)]] by blast
  have pp: "policy_path u = m @ ''/data/'' @ path"
    using policy_path_extract [of u "''data''" m path] Some mp by simp
  obtain buf r where rr: "render_secret (rt_aead rt) sn path (as_scratch st) = (buf, r)" by fastforce
  then have "r = snd (render_secret (rt_aead rt) sn path (as_scratch st))" by simp
  note r = this [unfolded render_from_file [OF v]]
  show ?thesis
    using assms(3) l sn Some mp ok asked rr r loaded_version [OF v] pp
    by (cases asked) (auto simp: read_secret_def accept_def read_refusal_def file_read_def)
next
  case None
  obtain l where l: "try_acquire (as_limiter st) elapsed = (l, Inr ())"
    using assms(4) by (cases "try_acquire (as_limiter st) elapsed") auto
  with None assms(3) sn show ?thesis by (simp add: read_secret_def accept_def file_read_def)
qed

lemma read_secret_state:
  assumes "read_secret rt elapsed st mtd hs u = Some (st', r)"
  shows "same_server st st'"
  using assms
proof (cases rule: read_secret_cases)
  case (served st1 sn path v)
  from accept_Inr(5) [OF served(2)] have "same_server st st1" by (simp add: same_server_def)
  moreover have "same_server st1 st'" by (subst served(7)) (simp add: same_server_def)
  ultimately show ?thesis by (simp add: same_server_def)
qed (auto simp: same_server_def dest: accept_Inl(1) accept_Inr(5))

text \<open>
  C4. A read is answered from the file. For a worker serving the snapshot of a file, every GET or
  HEAD on the data routes that is not rate limited returns, without a panic, exactly the response
  the file calls for: 404 off the mount, 403 when the policies do not allow the path, 404 for another
  version or an absent path, and otherwise 200 with the file's text for that path. Nothing but the
  worker's limiter and scratch buffer changes.
\<close>

theorem read_refines_file:
  assumes "loaded_from rt v sn" and "state_snapshot st = Some sn" and "is_read_method mtd"
    and "snd (try_acquire (as_limiter st) elapsed) = Inr ()"
    and "valid_utf8 (uri_path u)" and "\<And>q. uri_query u = Some q \<Longrightarrow> valid_utf8 q"
  shows "\<exists>asked st'. version_param u = Some asked
    \<and> read_secret rt elapsed st mtd hs u =
        Some (st', file_read v (sn_loaded_at_rfc3339 sn) (rv_mount (as_resolver st))
          (\<lambda>token path. permits (rt_hmac rt) sn token path Read = Some True) asked hs u)
    \<and> same_server st st'"
proof -
  obtain asked where asked: "version_param u = Some asked"
    using version_param_total [OF assms(6)] by blast
  obtain st' r where r: "read_secret rt elapsed st mtd hs u = Some (st', r)"
    using read_secret_total [OF assms(5,6)] by blast
  with read_secret_from_file [OF assms(1-5) asked, of hs] read_secret_state [OF r] asked
  show ?thesis by auto
qed

text \<open>
  No secret without a grant. Whatever the request and the state of the worker, an answer 200 to
  a read means: the method was GET or HEAD, a permit was available, the URI named a path under the
  mount, and its body is the text the loaded file holds for that path; and when the file has a token
  key, the presented token hashes to a line of the file naming a policy that grants reading that
  path, with no rule denying it.
\<close>

theorem secret_release:
  assumes "loaded_from rt v sn" and "state_snapshot st = Some sn" and "valid_utf8 (uri_path u)"
    and "read_secret rt elapsed st mtd hs u = Some (st', r)" and "rs_status r = 200"
  shows "is_read_method mtd \<and> snd (try_acquire (as_limiter st) elapsed) = Inr ()
    \<and> (\<exists>path t. uri_path u = ''/v1/'' @ rv_mount (as_resolver st) @ ''/data/'' @ path
        \<and> map_of (v_secrets v) path = Some t
        \<and> rs_body r = kv_data t (unat (v_version v)) (sn_loaded_at_rfc3339 sn)
        \<and> (v_token_key v \<noteq> None \<longrightarrow>
             file_grants (rt_hmac rt) v (presented_token hs) (rv_mount (as_resolver st) @ ''/data/'' @ path) Read))"
  using assms(4)
proof (cases rule: read_secret_cases)
  case (served st1 sn' path asked)
  have "CHR ''/'' \<notin> set ''data''" by simp
  note a = accept_Inr [OF served(2) this]
  have sn: "sn' = sn" using a(1) assms(2) by simp
  obtain dr etag where built: "snapshot_build rt dr v etag = Inr sn"
    using assms(1) by (auto simp: loaded_from_def)
  obtain t where t: "map_of (v_secrets v) path = Some t" "rs_body r = kv_data t (unat (v_version v)) (sn_loaded_at_rfc3339 sn)"
    using render_from_file [OF assms(1), of path "as_scratch st1"] served(6) assms(5) sn
    by (auto split: option.splits)
  have "file_grants (rt_hmac rt) v (presented_token hs) (policy_path u) Read" if "v_token_key v \<noteq> None"
    using permits_granted [OF built policy_path_valid [OF assms(3)]] enforces_file [OF built] that served(3) sn by simp
  with a t served(1) show ?thesis by simp
next
  case gate
  with accept_Inl(2) [OF gate(2)] assms(5) show ?thesis by auto
qed (use assms(5) in auto)

section \<open>Metadata and listings\<close>

lemma read_metadata_cases:
  assumes "read_metadata rt elapsed st mtd hs u = Some (st', r)"
  obtains (refused) "\<not> is_list_method mtd" "\<not> is_read_method mtd" "r = denied" "st' = st"
    | (gate) "accept elapsed st u ''metadata'' = (st', Inl r)"
    | (listing) sn path where "is_list_method mtd \<or> is_read_method mtd \<and> wants_list u"
        "accept elapsed st u ''metadata'' = (st', Inr (sn, path))"
        "list_children (rt_hmac rt) sn (rv_mount (as_resolver st')) (presented_token hs) path = Some r"
    | (described) sn path where "is_read_method mtd" "\<not> wants_list u"
        "accept elapsed st u ''metadata'' = (st', Inr (sn, path))"
        "describe_secret (rt_hmac rt) sn (presented_token hs) u path = Some r"
proof -
  obtain st1 res where a: "accept elapsed st u ''metadata'' = (st1, res)" by fastforce
  show thesis
  proof (cases "is_list_method mtd \<or> is_read_method mtd")
    case False
    with assms show thesis by (intro refused) (auto simp: read_metadata_def)
  next
    case True
    show thesis
    proof (cases res)
      case (Inl x)
      with assms a True show thesis by (intro gate) (auto simp: read_metadata_def Let_def)
    next
      case (Inr y)
      obtain sn path where y: "y = (sn, path)" by fastforce
      show thesis
      proof (cases "is_list_method mtd \<or> is_read_method mtd \<and> wants_list u")
        case yes: True
        with assms a Inr y show thesis by (intro listing) (auto simp: read_metadata_def Let_def)
      next
        case no: False
        with assms a Inr y True show thesis by (intro described) (auto simp: read_metadata_def Let_def)
      qed
    qed
  qed
qed

lemma read_metadata_state:
  assumes "read_metadata rt elapsed st mtd hs u = Some (st', r)"
  shows "same_server st st' \<and> as_scratch st' = as_scratch st"
  using assms
  by (cases rule: read_metadata_cases) (auto simp: same_server_def dest: accept_Inl(1) accept_Inr(5))

lemma list_prefix_valid:
  assumes "valid_utf8 path"
  shows "valid_utf8 (list_prefix path)"
  using assms valid_utf8_append_iff [OF assms, of "''/''"] by (simp add: list_prefix_def ord_of_def)

text \<open>
  C10. Metadata and listings are authorised and show no secret. An answer 200 to a listing means the
  policies allow listing the normalised directory, which ends in a slash or is the mount itself,
  and its body is the immediate children of exactly that directory; an answer 200 to a metadata
  read means the policies allow reading the requested metadata path and the secret exists, and its
  body is computed from the version and the load time alone. No metadata request touches the
  scratch buffer.
\<close>

theorem metadata_release:
  assumes "read_metadata rt elapsed st mtd hs u = Some (st', r)" and "rs_status r = 200"
  shows "same_server st st' \<and> as_scratch st' = as_scratch st
    \<and> (\<exists>sn path. state_snapshot st = Some sn
        \<and> uri_path u = ''/v1/'' @ rv_mount (as_resolver st) @ ''/metadata/'' @ path
        \<and> (if is_list_method mtd \<or> wants_list u
           then permits (rt_hmac rt) sn (presented_token hs)
                  (rv_mount (as_resolver st) @ ''/metadata/'' @ list_prefix path) List = Some True
                \<and> (list_prefix path = [] \<or> last (list_prefix path) = CHR ''/'')
                \<and> children sn (list_prefix path) \<noteq> [] \<and> rs_body r = list_keys (children sn (list_prefix path))
           else permits (rt_hmac rt) sn (presented_token hs)
                  (rv_mount (as_resolver st) @ ''/metadata/'' @ path) Read = Some True
                \<and> has_secret sn path
                \<and> rs_body r = kv_metadata (unat (sn_version sn)) (sn_loaded_at_rfc3339 sn)))"
proof -
  have meta: "CHR ''/'' \<notin> set ''metadata''" by simp
  have keep: "same_server st st' \<and> as_scratch st' = as_scratch st" using assms(1) by (rule read_metadata_state)
  have rslash: "list_prefix path = [] \<or> last (list_prefix path) = CHR ''/''" for path
    by (auto simp: list_prefix_def str_iffs)
  from assms(1) show ?thesis
  proof (cases rule: read_metadata_cases)
    case (listing sn path)
    note a = accept_Inr [OF listing(2) meta]
    have m: "rv_mount (as_resolver st') = rv_mount (as_resolver st)" using keep by (simp add: same_server_def)
    have "permits (rt_hmac rt) sn (presented_token hs) (rv_mount (as_resolver st) @ ''/metadata/'' @ list_prefix path) List = Some True"
      "children sn (list_prefix path) \<noteq> []" "rs_body r = list_keys (children sn (list_prefix path))"
      using listing(3) assms(2) m
      by (auto simp: list_children_def bind_eq_Some_conv Let_def split: if_splits)
    with a keep listing(1) rslash show ?thesis by auto
  next
    case (described sn path)
    note a = accept_Inr [OF described(3) meta]
    have "permits (rt_hmac rt) sn (presented_token hs) (policy_path u) Read = Some True" "has_secret sn path"
      "rs_body r = kv_metadata (unat (sn_version sn)) (sn_loaded_at_rfc3339 sn)"
      using described(4) assms(2)
      by (auto simp: describe_secret_def bind_eq_Some_conv split: if_splits)
    moreover have "\<not> is_list_method mtd"
      using described(1)
      by (auto simp: is_read_method_def is_list_method_def eq_ignore_ascii_case_def to_ascii_lowercase_def ord_of_def)
    ultimately show ?thesis using a keep described(2) by auto
  next
    case gate
    with accept_Inl(2) [OF gate] assms(2) show ?thesis by auto
  qed (use assms(2) in auto)
qed

section \<open>Examples\<close>

lemma sample_lookup:
  "table_lookup clear_hmac sample_token_table ''tok'' =
     Some \<lparr>g_rules = from_rules [\<lparr>rule_path = ''a/*'', capabilities = [''read'']\<rparr>], g_policies = [''p'', ''q''],
       g_token_id = token_hash clear_hmac (TokenKey (replicate 32 3)) ''tok''\<rparr>"
  by (simp add: table_lookup_def sample_token_table_def entry_of_def)

lemma sample_allows: "allows (from_rules [\<lparr>rule_path = ''a/*'', capabilities = [''read'']\<rparr>]) ''a/data/b/c'' Read = Some True"
  by (subst allows_from_rules)
    (simp_all add: ord_of_def pattern_compile_def strip_suffix_def ends_with_def starts_with_def
        segment_of_def covers_glob Let_def join_with_def capability_word_def)

definition sample_state :: "snapshot \<Rightarrow> api_state" where
  "sample_state sn =
     worker_state \<lparr>rv_slot = Some sn, rv_mount = ''a'', rv_limits = \<lparr>requests_per_second = 10, burst = 10\<rparr>,
       rv_telemetry = \<lparr>tm_log = \<lparr>al_queue = \<lparr>buffer = [], enqueue_pos = 0, dequeue_pos = 0\<rparr>, al_producers = [],
           al_running = True, al_gate = gate_new\<rparr>,
         tm_workers = [worker_metrics_default], tm_fallback_log_key = LogKey [], tm_refresh_failures = 0\<rparr>\<rparr> 0"

definition sample_headers :: headers where
  "sample_headers name = (if name = TOKEN_HEADER then Some (Some ''tok'') else None)"

definition sample_uri :: uri where
  "sample_uri = \<lparr>uri_path = ''/v1/a/data/b/c'', uri_query = None\<rparr>"

lemma sample_request:
  "valid_utf8 (uri_path sample_uri)" "uri_query sample_uri = None" "presented_token sample_headers = Some ''tok''"
  "is_read_method ''GET''" "snd (try_acquire (as_limiter (sample_state sn)) 0) = Inr ()"
  "state_snapshot (sample_state sn) = Some sn" "rv_mount (as_resolver (sample_state sn)) = ''a''"
  "extract_mount_and_path (uri_path sample_uri) ''data'' = Some (''a'', ''b/c'')"
  by (simp_all add: sample_uri_def sample_headers_def presented_token_def header_text_def TOKEN_HEADER_def
      is_read_method_def ord_of_def sample_state_def worker_state_def try_acquire_def try_acquire_at_def
      refill_def limiter_new_def sat_mul_def u64_max_def ONE_PERMIT_def state_snapshot_def slot_load_def
      extract_exact Let_def)

lemma sample_loaded: "\<exists>sn. loaded_from sample_runtime sample_view sn"
  using sample_snapshot_built sample_view_ok
  by (auto simp: loaded_from_def sample_runtime_def clear_aead_ok)

lemma sample_tokens: "loaded_from sample_runtime sample_view sn \<Longrightarrow> sn_tokens sn = Some sample_token_table"
proof -
  assume "loaded_from sample_runtime sample_view sn"
  then obtain dr etag where "snapshot_build sample_runtime dr sample_view etag = Inr sn"
    by (auto simp: loaded_from_def)
  then have "build_tokens sample_view = Inr (sn_tokens sn)" by (rule snapshot_build_Inr)
  then show ?thesis using sample_table_built by (simp add: build_tokens_def sample_view_def)
qed

lemma sample_permits:
  "loaded_from sample_runtime sample_view sn \<Longrightarrow>
    permits (rt_hmac sample_runtime) sn (presented_token sample_headers) ''a/data/b/c'' Read = Some True"
  by (simp add: permits_def sample_tokens sample_request sample_lookup sample_allows sample_runtime_def)

lemma sample_file_read:
  "loaded_from sample_runtime sample_view sn \<Longrightarrow>
    file_read sample_view at' ''a'' (\<lambda>token path. permits (rt_hmac sample_runtime) sn token path Read = Some True)
      None sample_headers sample_uri = json_response 200 (kv_data ''2'' 7 at')"
  using sample_permits by (simp add: file_read_def sample_request) (simp add: sample_view_def)

theorem read_refines_file_witness:
  "\<exists>sn st'. loaded_from sample_runtime sample_view sn
     \<and> read_secret sample_runtime 0 (sample_state sn) ''GET'' sample_headers sample_uri
       = Some (st', json_response 200 (kv_data ''2'' 7 (sn_loaded_at_rfc3339 sn)))"
proof -
  obtain sn where sn: "loaded_from sample_runtime sample_view sn" using sample_loaded by blast
  have none: "version_param sample_uri = Some None" by (simp add: version_param_def sample_request(2))
  from read_refines_file [OF sn sample_request(6,4,5,1), where hs = sample_headers] none sample_file_read [OF sn] sn
  show ?thesis by (auto simp: sample_request(2,7))
qed

theorem secret_release_witness:
  "\<exists>sn st' r. loaded_from sample_runtime sample_view sn
     \<and> read_secret sample_runtime 0 (sample_state sn) ''GET'' sample_headers sample_uri = Some (st', r)
     \<and> rs_status r = 200 \<and> file_grants clear_hmac sample_view (Some ''tok'') ''a/data/b/c'' Read"
proof -
  obtain sn where sn: "loaded_from sample_runtime sample_view sn" using sample_loaded by blast
  have none: "version_param sample_uri = Some None" by (simp add: version_param_def sample_request(2))
  have "map_option snd (read_secret sample_runtime 0 (sample_state sn) ''GET'' sample_headers sample_uri) =
      Some (json_response 200 (kv_data ''2'' 7 (sn_loaded_at_rfc3339 sn)))"
    using read_secret_from_file [OF sn sample_request(6,4,5,1) none, where hs = sample_headers] sample_file_read [OF sn]
    by (simp add: sample_request(7))
  then obtain st' r where r: "read_secret sample_runtime 0 (sample_state sn) ''GET'' sample_headers sample_uri = Some (st', r)"
    "rs_status r = 200" by auto
  from secret_release [OF sn sample_request(6,1) r] sample_request(3,7)
  obtain path where p: "uri_path sample_uri = ''/v1/'' @ ''a'' @ ''/data/'' @ path"
    "v_token_key sample_view \<noteq> None \<longrightarrow> file_grants (rt_hmac sample_runtime) sample_view (Some ''tok'') (''a'' @ ''/data/'' @ path) Read"
    by auto
  have "path = ''b/c''" using p(1) by (simp add: sample_uri_def)
  with p(2) have "file_grants clear_hmac sample_view (Some ''tok'') ''a/data/b/c'' Read"
    by (simp add: sample_view_def sample_runtime_def)
  with sn r show ?thesis by blast
qed

theorem metadata_release_witness:
  "\<exists>sn st' r. read_metadata sample_runtime 0 (sample_state sn) ''LIST'' sample_headers
       \<lparr>uri_path = ''/v1/a/metadata/b'', uri_query = None\<rparr> = Some (st', r)
     \<and> rs_status r = 200 \<and> rs_body r = list_keys (children sn ''b/'')"
proof -
  let ?u = "\<lparr>uri_path = ''/v1/a/metadata/b'', uri_query = None\<rparr>"
  let ?v = "sample_view\<lparr>v_tokens := [], v_token_key := None\<rparr>"
  have "build_tokens ?v = Inr None" by (simp add: build_tokens_def)
  then obtain sn where built: "snapshot_build sample_runtime sample_draw ?v None = Inr sn"
    using snapshot_build_total [of sample_runtime sample_draw "replicate 32 9" ?v None]
    by (auto simp: sample_runtime_def sample_draw_def clear_aead_ok KEY_LEN_def)
  have none: "sn_tokens sn = None" using built \<open>build_tokens ?v = Inr None\<close> by (auto elim: snapshot_build_Inr)
  have "sn_sorted_paths sn = [''a'', ''b/c'', ''b/d'']"
  proof -
    obtain b paths where "seal_secrets (rt_aead sample_runtime) (rt_hmac sample_runtime) (sn_log_key sn) b [] [] (v_secrets ?v)
       = Inr (sn_barrier sn, sn_secrets sn, paths)" "sn_sorted_paths sn = sort paths"
      using built by (rule snapshot_build_Inr) blast
    with seal_secrets_paths show ?thesis
      by (fastforce simp: sample_view_def less_eq_char_def)
  qed
  then have kids: "children sn ''b/'' \<noteq> []"
    by (simp add: children_def partition_point_def less_eq_char_def less_char_def strip_prefix_def starts_with_def Let_def)
  have ex: "extract_mount_and_path (uri_path ?u) ''metadata'' = Some (''a'', ''b'')" by (simp add: extract_exact)
  have p: "permits (rt_hmac sample_runtime) sn t path cap = Some True" for t path cap
    by (simp add: permits_def none)
  obtain l where l: "try_acquire (as_limiter (sample_state sn)) 0 = (l, Inr ())"
    using sample_request(5) by (metis prod.collapse)
  have listm: "is_list_method ''LIST''" by (simp add: is_list_method_def eq_ignore_ascii_case_def)
  have "list_prefix ''b'' = ''b/''" by (simp add: list_prefix_def ends_with_def starts_with_def)
  then have "list_children (rt_hmac sample_runtime) sn ''a'' (presented_token sample_headers) ''b'' =
      Some (json_response 200 (list_keys (children sn ''b/'')))"
    using kids by (simp add: list_children_def p Let_def)
  then obtain st' r where r: "read_metadata sample_runtime 0 (sample_state sn) ''LIST'' sample_headers ?u = Some (st', r)"
    "rs_status r = 200"
    using l ex listm sample_request(6,7) by (auto simp: read_metadata_def accept_def Let_def)
  from metadata_release [OF this] listm sample_request(6,7)
  have "rs_body r = list_keys (children sn (list_prefix ''b''))" by auto
  with r \<open>list_prefix ''b'' = ''b/''\<close> show ?thesis by metis
qed

end
