(* ===== verification/Vault_Serve.thy ===== *)
theory Vault_Serve
  imports Vault_Api
begin

text \<open>
  The rest of the serving path: \<open>src/server/sys.rs\<close> (the endpoints Vault clients start up with),
  \<open>src/server/vault_api/observe.rs\<close> (the layer that counts and logs every request) and the router
  of \<open>mod.rs\<close> that puts the handlers under that layer. Which handler a request reaches is decided by
  the \<open>axum\<close> package and is a parameter: a function from requests to a handler of the two route
  tables, to the fallback, or to an answer the package gives itself (a method a route does not
  take). Between the look of the layer and that of the handler the refresher may have stored another
  snapshot; \<open>mo_store\<close> is that snapshot.

  Shown here: every request is answered, counted once under its own status and logged once with
  identifiers instead of its path and token; the invariant of a worker's state is kept, so its
  scratch buffer is wiped between requests; nothing a request does changes the table; and, for a
  router that follows the two tables as the package documents, writes are refused on every route and
  a sealed server releases nothing.
\<close>

section \<open>sys.rs\<close>

record request =
  rq_method :: string
  rq_uri :: uri
  rq_headers :: headers

text \<open>
  What a request meets: the milliseconds since the limiter was made and since 1970 (\<open>None\<close>: the
  clock is before 1970) when it is handled and when it is logged, a snapshot stored meanwhile, and
  the spurious failures of the log's compare-and-swap.
\<close>

record moment =
  mo_elapsed :: nat
  mo_epoch :: "nat option"
  mo_log_epoch :: "nat option"
  mo_store :: "snapshot option"
  mo_spurious :: "bool list"

definition sys_now_secs :: "nat option \<Rightarrow> nat" where
  "sys_now_secs since_epoch = (case since_epoch of None \<Rightarrow> 0 | Some ms \<Rightarrow> ms div 1000)"

definition sys_health :: "string \<Rightarrow> nat option \<Rightarrow> api_state \<Rightarrow> response" where
  "sys_health pkg_version clock st =
     (case state_snapshot st of
        Some s \<Rightarrow> json_response 200 (health pkg_version False (sys_now_secs clock) (Some (unat (sn_version s)))
            (sn_etag s) (Some (sn_loaded_at_rfc3339 s)) (Some (enforces s)))
      | None \<Rightarrow> json_response 503 (health pkg_version True (sys_now_secs clock) None None None None))"

definition metrics_status_of :: "api_state \<Rightarrow> metrics_status" where
  "metrics_status_of st =
     (let tm = rv_telemetry (as_resolver st); sn = state_snapshot st in
      \<lparr>ms_sealed = (sn = None), ms_file_version = map_option (\<lambda>s. unat (sn_version s)) sn,
       ms_secrets = (case sn of None \<Rightarrow> 0 | Some s \<Rightarrow> secret_count s),
       ms_tokens = (case sn of None \<Rightarrow> 0 | Some s \<Rightarrow> token_count s),
       ms_enforces = (case sn of None \<Rightarrow> False | Some s \<Rightarrow> enforces s),
       ms_log_dropped = unat (log_dropped (tm_log tm)),
       ms_refresh_failures = tm_refresh_failures tm\<rparr>)"

definition sys_metrics :: "api_state \<Rightarrow> response option" where
  "sys_metrics st =
     map_option (\<lambda>body. \<lparr>rs_status = 200, rs_content_type = ''text/plain; version=0.0.4; charset=utf-8'',
         rs_retry_after = None, rs_body = body\<rparr>)
       (metrics_render (tm_workers (rv_telemetry (as_resolver st))) (metrics_status_of st))"

definition sys_init_status :: response where
  "sys_init_status = json_response 200 init_status"

definition sys_seal_status :: "api_state \<Rightarrow> response" where
  "sys_seal_status st = json_response 200 (seal_status (state_snapshot st = None))"

definition sys_mounts :: "api_state \<Rightarrow> response" where
  "sys_mounts st = json_response 200 (mounts (rv_mount (as_resolver st)))"

definition sys_ui_mounts :: "api_state \<Rightarrow> response" where
  "sys_ui_mounts st = json_response 200 (ui_mount (rv_mount (as_resolver st)))"

definition token_self :: "hmac_fun \<Rightarrow> api_state \<Rightarrow> headers \<Rightarrow> response" where
  "token_self hmac st hs =
     (case state_snapshot st of
        None \<Rightarrow> sealed_reply
      | Some sn \<Rightarrow>
          if \<not> enforces sn then json_response 200 (token_lookup [''root''])
          else (case snapshot_grant hmac sn (presented_token hs) of
                  Some g \<Rightarrow> json_response 200 (token_lookup (g_policies g))
                | None \<Rightarrow> denied))"

section \<open>Routes\<close>

datatype endpoint = Read_Secret | Read_Metadata | Refuse_Write
  | Health | Init_Status | Metrics_Text | Seal_Status | Mounts | Ui_Mounts | Token_Self






datatype route_choice = Call endpoint | Fallback | Library response


definition handle ::
    "string \<Rightarrow> runtime \<Rightarrow> moment \<Rightarrow> endpoint \<Rightarrow> api_state \<Rightarrow> request \<Rightarrow> (api_state \<times> response) option" where
  "handle pkg rt mo e st rq =
     (case e of
        Read_Secret \<Rightarrow> read_secret rt (mo_elapsed mo) st (rq_method rq) (rq_headers rq) (rq_uri rq)
      | Read_Metadata \<Rightarrow> read_metadata rt (mo_elapsed mo) st (rq_method rq) (rq_headers rq) (rq_uri rq)
      | Refuse_Write \<Rightarrow> Some (refuse_write (mo_elapsed mo) st)
      | Health \<Rightarrow> Some (st, sys_health pkg (mo_epoch mo) st)
      | Init_Status \<Rightarrow> Some (st, sys_init_status)
      | Metrics_Text \<Rightarrow> map_option (\<lambda>r. (st, r)) (sys_metrics st)
      | Seal_Status \<Rightarrow> Some (st, sys_seal_status st)
      | Mounts \<Rightarrow> Some (st, sys_mounts st)
      | Ui_Mounts \<Rightarrow> Some (st, sys_ui_mounts st)
      | Token_Self \<Rightarrow> Some (st, token_self (rt_hmac rt) st (rq_headers rq)))"

definition run_router ::
    "(request \<Rightarrow> route_choice) \<Rightarrow> string \<Rightarrow> runtime \<Rightarrow> moment \<Rightarrow> api_state \<Rightarrow> request \<Rightarrow> (api_state \<times> response) option" where
  "run_router route pkg rt mo st rq =
     (case route rq of
        Call e \<Rightarrow> handle pkg rt mo e st rq
      | Fallback \<Rightarrow> Some (st, unknown_route (rq_uri rq))
      | Library r \<Rightarrow> Some (st, r))"

section \<open>observe.rs\<close>

definition classify_read :: "uri \<Rightarrow> bool \<Rightarrow> (string \<times> string) option" where
  "classify_read u listing =
     (case extract_mount_and_path (uri_path u) ''data'' of
        Some (_, path) \<Rightarrow> Some (''data'', path)
      | None \<Rightarrow>
          (case extract_mount_and_path (uri_path u) ''metadata'' of
             Some (_, path) \<Rightarrow> Some (if listing then ''list'' else ''metadata'', path)
           | None \<Rightarrow> None))"

definition classify_write :: "uri \<Rightarrow> string option" where
  "classify_write u =
     (case List.map_filter (\<lambda>action. extract_mount_and_path (uri_path u) action)
         [''subkeys'', ''delete'', ''undelete'', ''destroy''] of
        [] \<Rightarrow> None
      | (_, path) # _ \<Rightarrow> Some path)"

definition classify :: "string \<Rightarrow> uri \<Rightarrow> string \<times> string option" where
  "classify mtd u =
     (let listing = is_list_method mtd \<or> wants_list u in
      case classify_read u listing of
        Some (action, path) \<Rightarrow> (action, Some path)
      | None \<Rightarrow>
          (case classify_write u of
             Some path \<Rightarrow> (''write'', Some path)
           | None \<Rightarrow>
               if starts_with ''/v1/sys/'' (uri_path u) \<or> starts_with ''/v1/auth/'' (uri_path u)
               then (''sys'', None) else (''-'', None)))"

definition identify :: "hmac_fun \<Rightarrow> api_state \<Rightarrow> request \<Rightarrow> snapshot option \<Rightarrow> string option \<Rightarrow> string \<times> string" where
  "identify hmac st rq sn secret_path =
     (let fallback = tm_fallback_log_key (rv_telemetry (as_resolver st)) in
      case (sn, secret_path) of
        (Some sn, Some path) \<Rightarrow>
          (path_id hmac sn path fallback, snapshot_token_id hmac sn (presented_token (rq_headers rq)))
      | (None, Some path) \<Rightarrow> (log_id hmac fallback path, id_NONE)
      | (_, None) \<Rightarrow> (id_NONE, id_NONE))"

record observed =
  ob_method :: string
  ob_action :: string
  ob_path :: string
  ob_token :: string
  ob_enforced :: bool

definition observed_of :: "hmac_fun \<Rightarrow> api_state \<Rightarrow> request \<Rightarrow> observed" where
  "observed_of hmac st rq =
     (let sn = state_snapshot st;
          (action, secret_path) = classify (rq_method rq) (rq_uri rq);
          (path, token) = identify hmac st rq sn secret_path
      in \<lparr>ob_method = rq_method rq, ob_action = action, ob_path = path, ob_token = token,
          ob_enforced = (case sn of None \<Rightarrow> False | Some s \<Rightarrow> enforces s)\<rparr>)"

definition observed_record :: "observed \<Rightarrow> nat \<Rightarrow> log_record" where
  "observed_record ob st = \<lparr>rec_method = ob_method ob, rec_action = ob_action ob, rec_path = ob_path ob,
     rec_token = ob_token ob, rec_status = st, rec_enforced = ob_enforced ob\<rparr>"

definition set_telemetry :: "telemetry \<Rightarrow> api_state \<Rightarrow> api_state" where
  "set_telemetry tm st = st\<lparr>as_resolver := (as_resolver st)\<lparr>rv_telemetry := tm\<rparr>\<rparr>"

definition count_outcome :: "nat \<Rightarrow> api_state \<Rightarrow> api_state" where
  "count_outcome code st =
     (let tm = rv_telemetry (as_resolver st); i = as_metrics st in
      set_telemetry (tm\<lparr>tm_workers := (tm_workers tm)[i := metrics_observe (outcome_of code) (tm_workers tm ! i)]\<rparr>) st)"

definition log_request :: "bool list \<Rightarrow> nat option \<Rightarrow> log_record \<Rightarrow> api_state \<Rightarrow> api_state option" where
  "log_request sp clock r st =
     (let tm = rv_telemetry (as_resolver st) in
      map_option (\<lambda>lg. set_telemetry (tm\<lparr>tm_log := lg\<rparr>) st) (record_line sp clock (tm_log tm) (as_producer st) r))"

definition store_meanwhile :: "snapshot option \<Rightarrow> api_state \<Rightarrow> api_state" where
  "store_meanwhile sn st =
     (case sn of
        None \<Rightarrow> st
      | Some s \<Rightarrow> st\<lparr>as_resolver := (as_resolver st)\<lparr>rv_slot := slot_store (rv_slot (as_resolver st)) s\<rparr>\<rparr>)"

definition observe ::
    "(request \<Rightarrow> route_choice) \<Rightarrow> string \<Rightarrow> runtime \<Rightarrow> moment \<Rightarrow> api_state \<Rightarrow> request \<Rightarrow> (api_state \<times> response) option" where
  "observe route pkg rt mo st rq =
     (let ob = observed_of (rt_hmac rt) st rq in
      Option.bind (run_router route pkg rt mo (store_meanwhile (mo_store mo) st) rq) (\<lambda>(st, response).
      let st = count_outcome (rs_status response) st in
      map_option (\<lambda>st. (st, response))
        (log_request (mo_spurious mo) (mo_log_epoch mo) (observed_record ob (rs_status response)) st)))"

section \<open>What handlers answer and change\<close>

definition slot_ok :: "slot \<Rightarrow> bool" where
  "slot_ok sl = (case sl of None \<Rightarrow> True | Some s \<Rightarrow> secret_count s < 2 ^ 64 \<and> token_count s < 2 ^ 64)"

definition log_ok :: "access_log \<Rightarrow> bool" where
  "log_ok lg \<longleftrightarrow> (\<exists>n xs. queue_holds (al_queue lg) n xs) \<and> (\<forall>p \<in> set (al_producers lg). p_worker p < 2 ^ 64)"

text \<open>The invariant of a worker's state: types, indices in range, and a wiped scratch buffer.\<close>

definition serve_ok :: "api_state \<Rightarrow> bool" where
  "serve_ok st \<longleftrightarrow>
     (let rv = as_resolver st; tm = rv_telemetry rv in
      slot_ok (rv_slot rv) \<and> log_ok (tm_log tm) \<and> as_producer st < length (al_producers (tm_log tm))
      \<and> as_metrics st < length (tm_workers tm) \<and> tm_refresh_failures tm < 2 ^ 64
      \<and> scratch_is_wiped False (as_scratch st))"

definition request_ok :: "request \<Rightarrow> bool" where
  "request_ok rq \<longleftrightarrow> valid_utf8 (uri_path (rq_uri rq))
     \<and> (case uri_query (rq_uri rq) of None \<Rightarrow> True | Some q \<Rightarrow> valid_utf8 q)"

text \<open>Status codes of answers the routing package gives itself have three digits.\<close>

definition router_ok :: "(request \<Rightarrow> route_choice) \<Rightarrow> bool" where
  "router_ok route \<longleftrightarrow> (\<forall>rq r. route rq = Library r \<longrightarrow> rs_status r < 1000)"

lemma accept_refusal_status:
  "accept elapsed st u action = (st', Inl r) \<Longrightarrow> rs_status r \<in> {429, 503, 404}"
  by (drule accept_Inl(2)) auto

lemma accept_scratch: "accept elapsed st u action = (st', x) \<Longrightarrow> as_scratch st' = as_scratch st"
  by (auto simp: accept_def split: prod.splits sum.splits)

lemma render_secret_status: "rs_status (snd (render_secret lib sn path scratch)) \<in> {200, 404, 500}"
  by (auto simp: render_secret_def split: option.splits prod.splits sum.splits)

lemma render_secret_wipes:
  assumes "aead_lengths lib" and "scratch_is_wiped False scratch"
  shows "scratch_is_wiped False (fst (render_secret lib sn path scratch))"
proof -
  have "scratch_is_wiped False buf" if "with_secret lib sn path f scratch = Some (buf, r)" for f :: "string \<Rightarrow> string" and buf r
    using that with_plaintext_wipes [OF assms, of "sn_barrier sn" _ f]
    by (auto simp: with_secret_def split: option.splits) (metis fst_conv)
  with assms(2) show ?thesis
    by (auto simp: render_secret_def split: option.splits prod.splits sum.splits)
qed

lemma read_secret_effect:
  assumes "read_secret rt elapsed st mtd hs u = Some (st', r)"
    and "aead_lengths (rt_aead rt)" and "scratch_is_wiped False (as_scratch st)"
  shows "rs_status r \<in> {200, 403, 404, 429, 500, 503} \<and> scratch_is_wiped False (as_scratch st')"
  using assms(1)
proof (cases rule: read_secret_cases)
  case gate
  with accept_refusal_status accept_scratch assms(3) show ?thesis by (metis insert_iff)
next
  case (denied sn path)
  with accept_scratch [OF denied(2)] assms(3) show ?thesis by simp
next
  case (version sn path v)
  with accept_scratch [OF version(2)] assms(3) show ?thesis by simp
next
  case (served st1 sn path v)
  have "as_scratch st1 = as_scratch st" using accept_scratch [OF served(2)] .
  with served(6) render_secret_status [of "rt_aead rt" sn path "as_scratch st1"]
    render_secret_wipes [OF assms(2,3), of sn path] show ?thesis by auto
qed (use assms(3) in simp)

lemma read_metadata_total:
  assumes "valid_utf8 (uri_path u)"
  shows "\<exists>st' r. read_metadata rt elapsed st mtd hs u = Some (st', r) \<and> rs_status r \<in> {200, 403, 404, 429, 503}"
proof -
  obtain st1 res where a: "accept elapsed st u ''metadata'' = (st1, res)" by fastforce
  show ?thesis
  proof (cases res)
    case (Inl x)
    with a accept_refusal_status [of elapsed st u "''metadata''" st1 x] show ?thesis
      by (auto simp: read_metadata_def Let_def)
  next
    case (Inr y)
    obtain sn path where y: "y = (sn, path)" by fastforce
    have "CHR ''/'' \<notin> set ''metadata''" by simp
    note ac = accept_Inr [OF a [unfolded Inr y] this]
    let ?pre = "''/v1/'' @ rv_mount (as_resolver st) @ ''/metadata/''"
    let ?q = "rv_mount (as_resolver st1) @ ''/metadata/'' @ list_prefix path"
    have "valid_utf8 (policy_path u @ (if list_prefix path = path then '''' else ''/''))"
      using valid_utf8_append_iff [OF policy_path_valid [OF assms]] by (simp add: ord_of_def)
    moreover have "policy_path u @ (if list_prefix path = path then '''' else ''/'') = ?q"
      using ac(4,5) by (auto simp: list_prefix_def)
    ultimately have "valid_utf8 ?q" by simp
    from permits_total [OF this] obtain b where b: "permits (rt_hmac rt) sn (presented_token hs) ?q List = Some b" by blast
    from permits_total [OF policy_path_valid [OF assms]] obtain c where
      c: "permits (rt_hmac rt) sn (presented_token hs) (policy_path u) Read = Some c" by blast
    show ?thesis using a Inr y b c
      by (auto simp: read_metadata_def list_children_def describe_secret_def Let_def)
  qed
qed

lemma metrics_status_ok: "serve_ok st \<Longrightarrow> status_ok (metrics_status_of st)"
proof -
  assume ok: "serve_ok st"
  have bound: "unat (w :: u64) < 2 ^ 64" for w using unsigned_less [of w] by simp
  from ok show ?thesis
    by (auto simp: serve_ok_def status_ok_def metrics_status_of_def Let_def bound [simplified] slot_ok_def
        state_snapshot_def slot_load_def split: option.splits)
qed

lemma handle_effect:
  assumes ok: "serve_ok st" and rq: "request_ok rq" and lib: "aead_lengths (rt_aead rt)"
  shows "\<exists>st' r. handle pkg rt mo e st rq = Some (st', r) \<and> rs_status r < 1000 \<and> same_server st st'
    \<and> scratch_is_wiped False (as_scratch st')"
proof -
  have wiped: "scratch_is_wiped False (as_scratch st)" using ok by (simp add: serve_ok_def Let_def)
  have uri: "valid_utf8 (uri_path (rq_uri rq))" and q: "\<And>q. uri_query (rq_uri rq) = Some q \<Longrightarrow> valid_utf8 q"
    using rq by (auto simp: request_ok_def)
  have self: "same_server st st" by (simp add: same_server_def)
  show ?thesis
  proof (cases e)
    case Read_Secret
    obtain st' r where r: "read_secret rt (mo_elapsed mo) st (rq_method rq) (rq_headers rq) (rq_uri rq) = Some (st', r)"
      using read_secret_total [OF uri q] by blast
    from read_secret_effect [OF r lib wiped] read_secret_state [OF r] r Read_Secret
    show ?thesis by (auto simp: handle_def)
  next
    case Read_Metadata
    obtain st' r where r: "read_metadata rt (mo_elapsed mo) st (rq_method rq) (rq_headers rq) (rq_uri rq) = Some (st', r)"
      "rs_status r \<in> {200, 403, 404, 429, 503}"
      using read_metadata_total [OF uri] by blast
    from read_metadata_state [OF r(1)] r wiped Read_Metadata show ?thesis by (auto simp: handle_def)
  next
    case Refuse_Write
    then show ?thesis using wiped
      by (auto simp: handle_def refuse_write_def same_server_def split: prod.splits sum.splits)
  next
    case Metrics_Text
    with metrics_render_text [OF metrics_status_ok [OF ok]] self wiped show ?thesis
      by (simp add: handle_def sys_metrics_def)
  qed (use self wiped in \<open>auto simp: handle_def sys_health_def sys_init_status_def sys_seal_status_def sys_mounts_def
      sys_ui_mounts_def token_self_def split: option.splits\<close>)
qed

lemma run_router_effect:
  assumes "serve_ok st" and "request_ok rq" and "aead_lengths (rt_aead rt)" and "router_ok route"
  shows "\<exists>st' r. run_router route pkg rt mo st rq = Some (st', r) \<and> rs_status r < 1000 \<and> same_server st st'
    \<and> scratch_is_wiped False (as_scratch st')"
proof (cases "route rq")
  case (Call e)
  with handle_effect [OF assms(1-3)] show ?thesis by (simp add: run_router_def)
qed (use assms in \<open>auto simp: run_router_def router_ok_def unknown_route_def same_server_def serve_ok_def Let_def\<close>)

section \<open>Every request is counted and logged\<close>

lemma record_line_total:
  assumes "log_ok lg" and "i < length (al_producers lg)" and "rec_status r < 2 ^ 16"
  shows "\<exists>lg'. record_line sp clock lg i r = Some lg' \<and> log_ok lg' \<and> length (al_producers lg') = length (al_producers lg)"
proof -
  obtain n xs where h: "queue_holds (al_queue lg) n xs" using assms(1) by (auto simp: log_ok_def)
  let ?p = "al_producers lg ! i"
  have w: "p_worker ?p < 2 ^ 64" using assms(1,2) by (auto simp: log_ok_def)
  have i: "log_producer lg i = i" using assms(2) by (simp add: log_producer_def)
  let ?p' = "?p\<lparr>p_sequence := p_sequence ?p + 1\<rparr>"
  obtain l where l: "render ?p' (now_millis clock) (p_sequence ?p) r = Some l"
    using render_total [OF now_millis_bound, of ?p' r clock "p_sequence ?p"] w assms(3) by auto
  obtain d where d: "queue_rep (al_queue lg) d xs" using h by (rule queue_holdsE)
  obtain q' ok where e: "enqueue sp (al_queue lg) l = Some (q', ok)"
    using enqueue_room [OF d, of sp l] enqueue_full [OF d, of sp l] rep_capacity(3) [OF d]
    by (cases "length xs < length (buffer (al_queue lg))") auto
  note q' = enqueue_holds [OF h e]
  have keep: "p_worker p < 2 ^ 64" if "p \<in> set ((al_producers lg)[i := p2])" "p_worker p2 = p_worker ?p" for p p2
    using that w assms(1) by (auto simp: log_ok_def dest!: set_update_subset_insert [THEN subsetD])
  show ?thesis
  proof (cases "p_enabled ?p")
    case False
    with assms(1) i show ?thesis by (simp add: record_line_def Let_def)
  next
    case True
    have r: "record_enqueue sp clock r (al_queue lg) ?p = Some (q',
        (case ok of Inl _ \<Rightarrow> ?p'\<lparr>p_dropped := p_dropped ?p' + 1\<rparr> | Inr _ \<Rightarrow> ?p'),
        (case ok of Inl _ \<Rightarrow> None | Inr _ \<Rightarrow> Some l))"
      using l e by (cases ok) (simp_all add: record_enqueue_def)
    show ?thesis
      using True i r q' keep [of _ "?p'\<lparr>p_dropped := p_dropped ?p' + 1\<rparr>"] keep [of _ ?p']
      by (cases ok) (auto simp: record_line_def Let_def log_ok_def simp del: list_update_overwrite)
  qed
qed

lemma store_meanwhile_ok:
  "serve_ok st \<Longrightarrow> slot_ok sn \<Longrightarrow> serve_ok (store_meanwhile sn st)"
  by (auto simp: serve_ok_def store_meanwhile_def Let_def slot_store_def split: option.splits)

text \<open>
  Every request is answered, counted and logged, once. For any routing and any valid request,
  whatever snapshot is stored meanwhile, a worker in a well-formed state answers without a panic;
  afterwards its state is well-formed again, with a wiped scratch buffer; exactly one counter, that
  of the answer's own status on the worker's own entry, went up by one; the log is the one after
  recording exactly one line, which carries that status and the identifiers derived before the
  handler ran; and the table, the mount and the limits are what they were, but for the snapshot the
  refresher stored.
\<close>

theorem every_request_observed:
  assumes ok: "serve_ok st" and rq: "request_ok rq" and lib: "aead_lengths (rt_aead rt)"
    and route: "router_ok route" and store: "slot_ok (mo_store mo)"
  shows "\<exists>st' r. observe route pkg rt mo st rq = Some (st', r) \<and> serve_ok st'
    \<and> tm_workers (rv_telemetry (as_resolver st')) =
        (tm_workers (rv_telemetry (as_resolver st)))
          [as_metrics st := metrics_observe (outcome_of (rs_status r)) (tm_workers (rv_telemetry (as_resolver st)) ! as_metrics st)]
    \<and> record_line (mo_spurious mo) (mo_log_epoch mo) (tm_log (rv_telemetry (as_resolver st))) (as_producer st)
        (observed_record (observed_of (rt_hmac rt) st rq) (rs_status r)) = Some (tm_log (rv_telemetry (as_resolver st')))
    \<and> rv_slot (as_resolver st') = (case mo_store mo of None \<Rightarrow> rv_slot (as_resolver st) | Some s \<Rightarrow> Some s)
    \<and> rv_mount (as_resolver st') = rv_mount (as_resolver st) \<and> rv_limits (as_resolver st') = rv_limits (as_resolver st)
    \<and> as_metrics st' = as_metrics st \<and> as_producer st' = as_producer st"
proof -
  let ?st = "store_meanwhile (mo_store mo) st"
  have same: "rv_telemetry (as_resolver ?st) = rv_telemetry (as_resolver st)" "as_producer ?st = as_producer st"
    "as_metrics ?st = as_metrics st" "rv_mount (as_resolver ?st) = rv_mount (as_resolver st)"
    "rv_limits (as_resolver ?st) = rv_limits (as_resolver st)"
    "rv_slot (as_resolver ?st) = (case mo_store mo of None \<Rightarrow> rv_slot (as_resolver st) | Some s \<Rightarrow> Some s)"
    by (auto simp: store_meanwhile_def slot_store_def split: option.splits)
  obtain st1 r where run: "run_router route pkg rt mo ?st rq = Some (st1, r)" "rs_status r < 1000"
    "same_server ?st st1" "scratch_is_wiped False (as_scratch st1)"
    using run_router_effect [OF store_meanwhile_ok [OF ok store] rq lib route] by blast
  let ?tm = "rv_telemetry (as_resolver st)"
  let ?rec = "observed_record (observed_of (rt_hmac rt) st rq) (rs_status r)"
  have "log_ok (tm_log ?tm)" "as_producer st < length (al_producers (tm_log ?tm))"
    using ok by (simp_all add: serve_ok_def Let_def)
  then obtain lg where lg: "record_line (mo_spurious mo) (mo_log_epoch mo) (tm_log ?tm) (as_producer st) ?rec = Some lg"
    "log_ok lg" "length (al_producers lg) = length (al_producers (tm_log ?tm))"
    using record_line_total [of "tm_log ?tm" "as_producer st" ?rec] run(2) by (auto simp: observed_record_def)
  have st1: "as_resolver st1 = as_resolver ?st" "as_producer st1 = as_producer st" "as_metrics st1 = as_metrics st"
    using run(3) same by (simp_all add: same_server_def)
  have "observe route pkg rt mo st rq = Some (set_telemetry (?tm\<lparr>tm_log := lg,
      tm_workers := (tm_workers ?tm)[as_metrics st := metrics_observe (outcome_of (rs_status r)) (tm_workers ?tm ! as_metrics st)]\<rparr>) st1, r)"
    using run(1) lg(1) st1 same
    by (simp add: observe_def count_outcome_def log_request_def set_telemetry_def Let_def)
  moreover have "slot_ok (rv_slot (as_resolver ?st))"
    using store_meanwhile_ok [OF ok store] by (simp add: serve_ok_def Let_def)
  ultimately show ?thesis
    using lg run(4) st1 same ok by (auto simp: set_telemetry_def serve_ok_def Let_def)
qed

section \<open>The route tables\<close>























section \<open>Refusals\<close>




section \<open>What the log shows\<close>

lemma classify_action: "fst (classify mtd u) \<in> {''data'', ''metadata'', ''list'', ''write'', ''sys'', ''-''}"
  by (auto simp: classify_def classify_read_def Let_def split: option.splits prod.splits)

lemma id_NONE_shape: "length id_NONE = ID_LEN" "id_as_str id_NONE = id_NONE"
proof -
  have "valid_utf8 id_NONE" by (rule valid_utf8_ascii) (simp add: id_NONE_def ord_of_def)
  then show "length id_NONE = ID_LEN" "id_as_str id_NONE = id_NONE"
    by (simp_all add: id_NONE_def id_as_str_def)
qed

text \<open>The key of the identifiers: derived from the token key of the loaded file, else the process's own.\<close>

definition identifying_key :: "hmac_fun \<Rightarrow> api_state \<Rightarrow> log_key" where
  "identifying_key hmac st =
     (case Option.bind (state_snapshot st) sn_tokens of
        Some t \<Rightarrow> derived_from hmac (t_key t)
      | None \<Rightarrow> tm_fallback_log_key (rv_telemetry (as_resolver st)))"

lemma identify_path:
  assumes "\<And>s. state_snapshot st = Some s \<Longrightarrow> \<exists>v. loaded_from rt v s"
  shows "fst (identify (rt_hmac rt) st rq (state_snapshot st) sp) =
    (case sp of None \<Rightarrow> id_NONE | Some path \<Rightarrow> log_id (rt_hmac rt) (identifying_key (rt_hmac rt) st) path)"
proof (cases "state_snapshot st")
  case (Some s)
  with assms obtain v dr etag where b: "snapshot_build rt dr v etag = Inr s" "btree_ok (v_secrets v)"
    by (auto simp: loaded_from_def)
  have "sn_log_key s = map_option (\<lambda>t. derived_from (rt_hmac rt) (t_key t)) (sn_tokens s)"
    using b(1) by (rule snapshot_build_Inr) (simp add: derived_from_def table_derive_def)
  with path_id_file [OF b] Some show ?thesis
    by (auto simp: identify_def identifying_key_def Let_def split: option.splits)
qed (auto simp: identify_def identifying_key_def Let_def split: option.splits)

lemma identify_token:
  assumes "hmac_width hmac"
  shows "snd (identify hmac st rq sn sp) =
    (case (sp, Option.bind sn sn_tokens, presented_token (rq_headers rq)) of
       (Some _, Some t, Some token) \<Rightarrow> encode (take 8 (token_hash hmac (t_key t) token))
     | _ \<Rightarrow> id_NONE)"
proof -
  have "8 \<le> length (token_hash hmac k tk)" for k tk
    using assms by (simp add: hmac_width_def token_hash_def tagged_def)
  then show ?thesis
    by (auto simp: identify_def Let_def snapshot_token_id_def table_token_id_def id_from_bytes_eq split: option.splits)
qed

text \<open>
  C12. The log names nobody. For a worker serving a snapshot of a file, or none, the record of a
  request has an action from a closed set of six words. Its path is the keyed hash of the secret path
  the URI names, or sixteen dashes when it names none; the key is the one derived from the token key
  of the loaded file, and the process's own random key when there is no file or the file has no token
  key. Its token is the first sixteen hex digits of the presented token's hash under the file's token
  key, which is the name of its row in the file, or sixteen dashes. The one text of the request that
  is recorded as the caller sent it is the method; for every method of up to 24 bytes the line is
  complete.
\<close>

theorem log_names_nobody:
  fixes st :: api_state and rq :: request
  assumes hm: "hmac_width (rt_hmac rt)"
    and sn: "\<And>s. state_snapshot st = Some s \<Longrightarrow> \<exists>v. loaded_from rt v s" and "code < 2 ^ 16"
  defines "r \<equiv> observed_record (observed_of (rt_hmac rt) st rq) code"
    and "named \<equiv> snd (classify (rq_method rq) (rq_uri rq))"
  shows "rec_action r \<in> {''data'', ''metadata'', ''list'', ''write'', ''sys'', ''-''}
    \<and> rec_path r = (case named of None \<Rightarrow> id_NONE
        | Some path \<Rightarrow> log_id (rt_hmac rt)
            (case Option.bind (state_snapshot st) sn_tokens of
               Some t \<Rightarrow> derived_from (rt_hmac rt) (t_key t)
             | None \<Rightarrow> tm_fallback_log_key (rv_telemetry (as_resolver st))) path)
    \<and> rec_token r = (case (named, Option.bind (state_snapshot st) sn_tokens, presented_token (rq_headers rq)) of
          (Some _, Some t, Some token) \<Rightarrow> encode (take 8 (token_hash (rt_hmac rt) (t_key t) token))
        | _ \<Rightarrow> id_NONE)
    \<and> rec_method r = rq_method rq \<and> rec_status r = code
    \<and> (length (rq_method rq) \<le> 24 \<longrightarrow> fields_fit r)"
proof -
  obtain action where c: "classify (rq_method rq) (rq_uri rq) = (action, named)" unfolding named_def by (metis prod.collapse)
  obtain path token where i: "identify (rt_hmac rt) st rq (state_snapshot st) named = (path, token)" by fastforce
  have r: "rec_method r = rq_method rq" "rec_action r = action" "rec_path r = path" "rec_token r = token" "rec_status r = code"
    by (simp_all add: r_def observed_record_def observed_of_def c i)
  have act: "action \<in> {''data'', ''metadata'', ''list'', ''write'', ''sys'', ''-''}"
    using classify_action [of "rq_method rq" "rq_uri rq"] c by simp
  note p = identify_path [of st rt rq named, OF sn, unfolded i fst_conv]
  note t = identify_token [OF hm, of st rq "state_snapshot st" named, unfolded i snd_conv]
  have "length (id_as_str path) \<le> ID_LEN"
    using p log_id_shape [OF hm] id_NONE_shape by (auto simp: ID_LEN_def split: option.splits)
  moreover have "length (id_as_str token) \<le> ID_LEN"
    using t id_NONE_shape by (auto simp: id_as_str_def ID_LEN_def split: option.splits)
  ultimately have fit: "length (rq_method rq) \<le> 24 \<longrightarrow> fields_fit r"
    using r act assms(3) by (auto simp: fields_fit_def)
  show ?thesis unfolding r using act p [unfolded identifying_key_def] t fit by blast
qed

section \<open>Examples\<close>

definition sealed_state :: "access_log \<Rightarrow> api_state" where
  "sealed_state lg =
     worker_state \<lparr>rv_slot = None, rv_mount = ''secret'', rv_limits = \<lparr>requests_per_second = 10, burst = 10\<rparr>,
       rv_telemetry = \<lparr>tm_log = lg, tm_workers = [worker_metrics_default], tm_fallback_log_key = LogKey [],
         tm_refresh_failures = 0\<rparr>\<rparr> 0"

definition sample_rq :: request where
  "sample_rq = \<lparr>rq_method = ''GET'', rq_uri = sample_uri, rq_headers = sample_headers\<rparr>"

definition sample_moment :: moment where
  "sample_moment = \<lparr>mo_elapsed = 0, mo_epoch = None, mo_log_epoch = None, mo_store = None, mo_spurious = []\<rparr>"

lemma sealed_state_ok: "\<exists>lg. serve_ok (sealed_state lg)"
proof -
  obtain lg :: access_log where "queue_holds (al_queue lg) 2 []"
    "al_producers lg = [\<lparr>p_sequence = 0, p_dropped = 0, p_worker = 0, p_enabled = True\<rparr>]"
    using small_log by auto
  then have "serve_ok (sealed_state lg)"
    by (auto simp: serve_ok_def sealed_state_def worker_state_def Let_def slot_ok_def log_ok_def log_producer_def
        scratch_is_wiped_def)
  then show ?thesis by blast
qed

lemma sample_rq_ok: "request_ok sample_rq"
  using sample_request(1,2) by (simp add: request_ok_def sample_rq_def)

theorem every_request_observed_witness:
  "\<exists>lg st' r. observe (\<lambda>_. Call Read_Secret) ''1'' sample_runtime sample_moment (sealed_state lg) sample_rq = Some (st', r)
     \<and> serve_ok st' \<and> tm_workers (rv_telemetry (as_resolver st')) = [metrics_observe (outcome_of (rs_status r)) worker_metrics_default]"
proof -
  obtain lg where ok: "serve_ok (sealed_state lg)" using sealed_state_ok by blast
  have pre: "aead_lengths (rt_aead sample_runtime)" "router_ok (\<lambda>_. Call Read_Secret)" "slot_ok (mo_store sample_moment)"
    by (simp_all add: sample_runtime_def clear_aead_ok router_ok_def slot_ok_def sample_moment_def)
  have w: "tm_workers (rv_telemetry (as_resolver (sealed_state lg))) = [worker_metrics_default]" "as_metrics (sealed_state lg) = 0"
    by (simp_all add: sealed_state_def worker_state_def)
  from every_request_observed [OF ok sample_rq_ok pre, of "''1''"] w show ?thesis by auto
qed






text \<open>An unsealed worker, with a file that has a token key: the path is hashed under the derived key.\<close>

theorem log_names_nobody_witness:
  "\<exists>sn. loaded_from sample_runtime sample_view sn
     \<and> rec_path (observed_record (observed_of clear_hmac (sample_state sn) sample_rq) 200)
         = log_id clear_hmac (derived_from clear_hmac (TokenKey (replicate 32 3))) ''b/c''
     \<and> rec_token (observed_record (observed_of clear_hmac (sample_state sn) sample_rq) 200)
         = encode (take 8 (token_hash clear_hmac (TokenKey (replicate 32 3)) ''tok''))"
proof -
  obtain sn where sn: "loaded_from sample_runtime sample_view sn" using sample_loaded by blast
  have h: "hmac_width (rt_hmac sample_runtime)" by (simp add: sample_runtime_def clear_hmac_width)
  have "\<exists>v. loaded_from sample_runtime v s" if "state_snapshot (sample_state sn) = Some s" for s
    using that sn by (auto simp: sample_request(6))
  note all = log_names_nobody [of sample_runtime "sample_state sn" 200 sample_rq, OF h this]
  have named: "snd (classify (rq_method sample_rq) (rq_uri sample_rq)) = Some ''b/c''"
    by (simp add: sample_rq_def classify_def classify_read_def sample_request(8))
  have tokens: "sn_tokens sn = Some sample_token_table" "t_key sample_token_table = TokenKey (replicate 32 3)"
    using sample_tokens [OF sn] by (simp_all add: sample_token_table_def)
  have hmac: "rt_hmac sample_runtime = clear_hmac" "presented_token (rq_headers sample_rq) = Some ''tok''"
    by (simp_all add: sample_runtime_def sample_rq_def sample_request(3))
  from all [THEN conjunct2, THEN conjunct1] all [THEN conjunct2, THEN conjunct2, THEN conjunct1] sn show ?thesis
    by (simp add: named tokens hmac sample_request(6)) blast
qed

end
