(* ===== verification/SigV4.thy ===== *)
theory SigV4
  imports Hex Time_Format
begin

text \<open>
  \<open>src/resolver/sigv4.rs\<close>, \<open>bucket.rs\<close> and \<open>source.rs\<close>: presigning a GET and where the sealed
  file comes from. HMAC-SHA-256, SHA-256, the parsed URL and the outcome of the HTTP exchange are
  arguments. Shown here: percent-encoding is inverted by decoding, so distinct keys give distinct
  URLs; no credential or region can add a parameter to the query or a line to the canonical
  request; the module's own hex rendering is the one of the crypto crate; and the source reports a
  body only for a complete 200.
\<close>

section \<open>sigv4.rs\<close>

definition ALGORITHM :: string where
  "ALGORITHM = ''AWS4-HMAC-SHA256''"

definition SERVICE :: string where
  "SERVICE = ''s3''"

definition TERMINATOR :: string where
  "TERMINATOR = ''aws4_request''"

definition UNSIGNED_PAYLOAD :: string where
  "UNSIGNED_PAYLOAD = ''UNSIGNED-PAYLOAD''"

record signing_inputs =
  access_key_id :: string
  secret_access_key :: string
  region :: string
  host :: string
  canonical_uri_of :: string
  expires_secs :: nat
  now_secs :: nat

definition nibble_char :: "char \<Rightarrow> nat \<Rightarrow> char" where
  "nibble_char ten n = (if n < 10 then char_of (48 + n) else char_of (of_char ten + (n - 10)))"

definition unreserved :: "char \<Rightarrow> bool" where
  "unreserved c \<longleftrightarrow>
     (let b = ord_of c in
      65 \<le> b \<and> b \<le> 90 \<or> 97 \<le> b \<and> b \<le> 122 \<or> 48 \<le> b \<and> b \<le> 57 \<or> c \<in> set ''-_.~'')"

definition uri_encode_byte :: "bool \<Rightarrow> char \<Rightarrow> string" where
  "uri_encode_byte encode_slash c =
     (if unreserved c then [c]
      else if c = CHR ''/'' \<and> \<not> encode_slash then ''/''
      else [CHR ''%'', nibble_char (CHR ''A'') (ord_of c div 16),
            nibble_char (CHR ''A'') (ord_of c mod 16)])"

definition uri_encode :: "string \<Rightarrow> bool \<Rightarrow> string" where
  "uri_encode input encode_slash = concat (map (uri_encode_byte encode_slash) input)"

definition sig_hex :: "bytes \<Rightarrow> string" where
  "sig_hex bs =
     concat (map (\<lambda>b. [nibble_char (CHR ''a'') (unat (drop_bit 4 b)),
                       nibble_char (CHR ''a'') (unat (b AND 15))]) bs)"

definition stamps :: "nat \<Rightarrow> string \<times> string" where
  "stamps now =
     (let t = civil_from_epoch_secs now;
          date = padded 4 (year t) @ padded 2 (month t) @ padded 2 (day t)
      in (date, date @ ''T'' @ padded 2 (int (hour t)) @ padded 2 (int (minute t))
                @ padded 2 (int (second t)) @ ''Z''))"

definition canonical_query :: "signing_inputs \<Rightarrow> string \<Rightarrow> string \<Rightarrow> string" where
  "canonical_query inputs timestamp scope =
     (let credential = access_key_id inputs @ ''/'' @ scope in
      ''X-Amz-Algorithm='' @ ALGORITHM
      @ ''&X-Amz-Credential='' @ uri_encode credential True
      @ ''&X-Amz-Date='' @ timestamp
      @ ''&X-Amz-Expires='' @ show_nat (expires_secs inputs)
      @ ''&X-Amz-SignedHeaders=host'')"

definition newline :: char where
  "newline = CHR 10"

definition canonical_request :: "signing_inputs \<Rightarrow> string \<Rightarrow> string" where
  "canonical_request inputs query =
     ''GET'' @ [newline] @ canonical_uri_of inputs @ [newline] @ query @ [newline]
     @ ''host:'' @ host inputs @ [newline] @ [newline] @ ''host'' @ [newline] @ UNSIGNED_PAYLOAD"

definition string_to_sign :: "(bytes \<Rightarrow> bytes) \<Rightarrow> string \<Rightarrow> string \<Rightarrow> string \<Rightarrow> string" where
  "string_to_sign sha256 timestamp scope canonical =
     ALGORITHM @ [newline] @ timestamp @ [newline] @ scope @ [newline]
     @ sig_hex (sha256 (as_bytes canonical))"

definition sign :: "(bytes \<Rightarrow> bytes \<Rightarrow> bytes) \<Rightarrow> signing_inputs \<Rightarrow> string \<Rightarrow> string \<Rightarrow> string" where
  "sign hmac inputs date to_sign =
     (let seed = ''AWS4'' @ secret_access_key inputs;
          k_date = hmac (as_bytes seed) (as_bytes date);
          k_region = hmac k_date (as_bytes (region inputs));
          k_service = hmac k_region (as_bytes SERVICE);
          k_signing = hmac k_service (as_bytes TERMINATOR)
      in sig_hex (hmac k_signing (as_bytes to_sign)))"

definition presign_query ::
  "(bytes \<Rightarrow> bytes \<Rightarrow> bytes) \<Rightarrow> (bytes \<Rightarrow> bytes) \<Rightarrow> signing_inputs \<Rightarrow> string" where
  "presign_query hmac sha256 inputs =
     (let (date, timestamp) = stamps (now_secs inputs);
          scope = date @ ''/'' @ region inputs @ ''/'' @ SERVICE @ ''/'' @ TERMINATOR;
          query = canonical_query inputs timestamp scope;
          canonical = canonical_request inputs query;
          to_sign = string_to_sign sha256 timestamp scope canonical;
          signature = sign hmac inputs date to_sign
      in query @ ''&X-Amz-Signature='' @ signature)"

section \<open>source.rs\<close>

datatype source_error =
    Unreachable string
  | Status nat
  | SlowDown
  | Absent

datatype fetched =
    NotModified
  | Body bytes "string option" \<comment> \<open>\<open>bytes\<close>, \<open>etag\<close>\<close>
  | Unavailable source_error

text \<open>The outcome of reading a file: its bytes, or the kind of the I/O error.\<close>

datatype read_outcome = Read_Ok bytes | Read_NotFound | Read_Failed string

definition disk_fetch :: "read_outcome \<Rightarrow> string option \<Rightarrow> fetched" where
  "disk_fetch outcome etag =
     (case outcome of
        Read_Ok bs \<Rightarrow> Body bs None
      | Read_NotFound \<Rightarrow> Unavailable Absent
      | Read_Failed kind \<Rightarrow> Unavailable (Unreachable kind))"

definition disk_describe :: "string \<Rightarrow> string" where
  "disk_describe path = ''file://'' @ path"

section \<open>bucket.rs\<close>

definition SIGNATURE_TTL_SECS :: nat where
  "SIGNATURE_TTL_SECS = 60"

text \<open>What the code reads of a \<open>url::Url\<close>.\<close>

record url =
  url_scheme :: string
  url_host :: "string option"
  url_port :: "nat option"
  url_text :: string

record bucket_config =
  bc_endpoint :: url
  bc_bucket :: string
  bc_region :: string
  bc_object_key :: string
  bc_path_style :: bool
  bc_access_key_id :: string
  bc_secret_access_key :: string

datatype bucket_error = NoHost string | Client string

record bucket_source =
  bs_config :: bucket_config
  bs_origin :: string
  bs_host :: string
  bs_canonical_uri :: string
  bs_description :: string

definition signed_host :: "bucket_config \<Rightarrow> bucket_error + string" where
  "signed_host config =
     (case url_host (bc_endpoint config) of
        None \<Rightarrow> Inl (NoHost (url_text (bc_endpoint config)))
      | Some h \<Rightarrow>
          (let authority = (case url_port (bc_endpoint config) of
                              Some port \<Rightarrow> h @ '':'' @ show_nat port
                            | None \<Rightarrow> h)
           in if bc_path_style config then Inr authority
              else Inr (bc_bucket config @ ''.'' @ authority)))"

definition canonical_uri :: "bucket_config \<Rightarrow> string" where
  "canonical_uri config =
     (let key = uri_encode (bc_object_key config) False in
      if bc_path_style config
      then ''/'' @ uri_encode (bc_bucket config) False @ ''/'' @ key
      else ''/'' @ key)"

text \<open>\<open>client\<close> is the outcome of building the HTTP client, an error being its message.\<close>

definition bucket_new :: "string option \<Rightarrow> bucket_config \<Rightarrow> bucket_error + bucket_source" where
  "bucket_new client_error config =
     (case signed_host config of
        Inl e \<Rightarrow> Inl e
      | Inr h \<Rightarrow>
          (case client_error of
             Some e \<Rightarrow> Inl (Client e)
           | None \<Rightarrow>
               Inr \<lparr>bs_config = config, bs_origin = url_scheme (bc_endpoint config) @ ''://'' @ h,
                    bs_host = h, bs_canonical_uri = canonical_uri config,
                    bs_description = ''s3://'' @ bc_bucket config @ ''/'' @ bc_object_key config\<rparr>))"

definition signing_inputs_of :: "bucket_source \<Rightarrow> nat \<Rightarrow> signing_inputs" where
  "signing_inputs_of src now =
     \<lparr>access_key_id = bc_access_key_id (bs_config src),
      secret_access_key = bc_secret_access_key (bs_config src),
      region = bc_region (bs_config src), host = bs_host src,
      canonical_uri_of = bs_canonical_uri src, expires_secs = SIGNATURE_TTL_SECS, now_secs = now\<rparr>"

definition signed_url ::
  "(bytes \<Rightarrow> bytes \<Rightarrow> bytes) \<Rightarrow> (bytes \<Rightarrow> bytes) \<Rightarrow> bucket_source \<Rightarrow> nat \<Rightarrow> string" where
  "signed_url hmac sha256 src now =
     bs_origin src @ bs_canonical_uri src @ ''?''
     @ presign_query hmac sha256 (signing_inputs_of src now)"

text \<open>What the HTTP client reports: the flags of an error, or a response and its body.\<close>

record transport_failure =
  is_timeout :: bool
  is_connect :: bool

record response =
  status :: nat
  etag_header :: "string option" \<comment> \<open>\<open>None\<close>: absent or not text\<close>
  body_bytes :: "transport_failure + bytes"

definition transport_error :: "transport_failure \<Rightarrow> source_error" where
  "transport_error e =
     (if is_timeout e then Unreachable ''timed out''
      else if is_connect e then Unreachable ''connection refused''
      else Unreachable ''transport failure'')"

definition body_of :: "response \<Rightarrow> fetched" where
  "body_of r =
     (case body_bytes r of
        Inr bs \<Rightarrow> Body bs (etag_header r)
      | Inl e \<Rightarrow> Unavailable (transport_error e))"

text \<open>\<open>send\<close> performs the request for a URL and the \<open>If-None-Match\<close> header.\<close>

definition bucket_get ::
  "(bytes \<Rightarrow> bytes \<Rightarrow> bytes) \<Rightarrow> (bytes \<Rightarrow> bytes) \<Rightarrow>
     (string \<Rightarrow> string option \<Rightarrow> transport_failure + response) \<Rightarrow> bucket_source \<Rightarrow> nat \<Rightarrow>
     string option \<Rightarrow> fetched" where
  "bucket_get hmac sha256 send src now etag =
     (case send (signed_url hmac sha256 src now) etag of
        Inl e \<Rightarrow> Unavailable (transport_error e)
      | Inr r \<Rightarrow>
          (if status r = 304 then NotModified
           else if status r = 200 then body_of r
           else if status r = 404 then Unavailable Absent
           else if status r = 429 \<or> status r = 503 then Unavailable SlowDown
           else Unavailable (Status (status r))))"

text \<open>The clock before the epoch reads as zero.\<close>

definition bucket_now_secs :: "int \<Rightarrow> nat" where
  "bucket_now_secs t = (if t < 0 then 0 else nat t)"

definition bucket_config_debug :: "(string \<Rightarrow> string) \<Rightarrow> bucket_config \<Rightarrow> string" where
  "bucket_config_debug quoted c =
     ''BucketConfig { endpoint: '' @ quoted (url_text (bc_endpoint c))
     @ '', bucket: '' @ quoted (bc_bucket c)
     @ '', object_key: '' @ quoted (bc_object_key c)
     @ '', access_key_id: '' @ quoted ''<REDACTED>''
     @ '', secret_access_key: '' @ quoted ''<REDACTED>'' @ '' }''"

section \<open>Percent-encoding\<close>

text \<open>The decoder of RFC 3986, for text the encoder produced.\<close>

definition unhex_upper :: "char \<Rightarrow> nat" where
  "unhex_upper c = (if ord_of c < 65 then ord_of c - 48 else ord_of c - 55)"

fun uri_decode :: "string \<Rightarrow> string" where
  "uri_decode (x # a # b # s) =
     (if x = CHR ''%'' then char_of (unhex_upper a * 16 + unhex_upper b) # uri_decode s
      else x # uri_decode (a # b # s))"
| "uri_decode s = s"

lemma unhex_nibble: "n < 16 \<Longrightarrow> unhex_upper (nibble_char (CHR ''A'') n) = n"
  by (auto simp: unhex_upper_def nibble_char_def ord_of_def)

lemma uri_decode_plain: "x \<noteq> CHR ''%'' \<Longrightarrow> uri_decode (x # s) = x # uri_decode s"
  by (cases s; cases "tl s") auto

lemma uri_decode_byte: "uri_decode (uri_encode_byte b c @ s) = c # uri_decode s"
proof (cases "unreserved c \<or> c = CHR ''/'' \<and> \<not> b")
  case True
  then have "uri_encode_byte b c = [c]" and "c \<noteq> CHR ''%''"
    by (auto simp: uri_encode_byte_def unreserved_def ord_of_def Let_def)
  then show ?thesis by (simp add: uri_decode_plain)
next
  case False
  have "ord_of c div 16 < 16" using ord_of_less [of c] by (simp add: less_mult_imp_div_less)
  with False show ?thesis
    by (auto simp: uri_encode_byte_def unhex_nibble) (simp_all add: ord_of_def)
qed

lemma uri_encode_chars:
  "x \<in> set (uri_encode s b) \<Longrightarrow> unreserved x \<or> x = CHR ''%'' \<or> x = CHR ''/'' \<and> \<not> b"
proof -
  have "unreserved (nibble_char (CHR ''A'') n)" if "n < 16" for n
    using that by (auto simp: nibble_char_def unreserved_def ord_of_def Let_def)
  moreover have "ord_of c div 16 < 16" "ord_of c mod 16 < 16" for c
    using ord_of_less [of c] by (simp_all add: less_mult_imp_div_less)
  ultimately show "x \<in> set (uri_encode s b) \<Longrightarrow> unreserved x \<or> x = CHR ''%'' \<or> x = CHR ''/'' \<and> \<not> b"
    by (auto simp: uri_encode_def uri_encode_byte_def split: if_splits)
qed

text \<open>
  Percent-encoding loses nothing and lets nothing through: decoding gives back the input, and
  the output has only unreserved characters, percent signs and, where slashes are kept, slashes.
\<close>

theorem uri_encode_round_trip:
  "uri_decode (uri_encode s b) = s
   \<and> list_all (\<lambda>x. unreserved x \<or> x = CHR ''%'' \<or> x = CHR ''/'' \<and> \<not> b) (uri_encode s b)"
proof
  show "uri_decode (uri_encode s b) = s"
    by (induction s) (simp_all add: uri_encode_def uri_decode_byte)
  show "list_all (\<lambda>x. unreserved x \<or> x = CHR ''%'' \<or> x = CHR ''/'' \<and> \<not> b) (uri_encode s b)"
    using uri_encode_chars [of _ s b] by (simp add: list_all_iff)
qed

lemma sig_hex_encode: "sig_hex bs = encode bs"
proof -
  have "nibble_char (CHR ''a'') n = NIBBLE ! n" if "n < 16" for n
    using that NIBBLE_nth [OF that] by (auto simp: nibble_char_def)
  then show ?thesis
    by (simp add: sig_hex_def encode_eq encode_byte_def [abs_def] nibble_high nibble_low)
qed

lemma sig_hex_chars: "c \<in> set (sig_hex bs) \<Longrightarrow> c \<in> set NIBBLE"
proof -
  have "NIBBLE ! n \<in> set NIBBLE" if "n < 16" for n
    using that by (intro nth_mem) (simp add: NIBBLE_def)
  then show "c \<in> set (sig_hex bs) \<Longrightarrow> c \<in> set NIBBLE"
    using nibble_high nibble_low by (auto simp: sig_hex_encode encode_eq encode_byte_def)
qed

section \<open>No injection through credentials\<close>

lemma padded_digits: "c \<in> set (padded w n) \<Longrightarrow> 48 \<le> ord_of c \<and> ord_of c \<le> 57"
  using show_nat_digits by (auto simp: padded_def zero_pad_def ord_of_def)

lemma padded_unreserved: "c \<in> set (padded w n) \<Longrightarrow> unreserved c"
  using padded_digits by (auto simp: unreserved_def Let_def)

lemma stamps_chars:
  "c \<in> set (fst (stamps now)) \<union> set (snd (stamps now)) \<Longrightarrow> unreserved c"
proof -
  have "unreserved (CHR ''T'')" "unreserved (CHR ''Z'')"
    by (simp_all add: unreserved_def ord_of_def)
  then show "c \<in> set (fst (stamps now)) \<union> set (snd (stamps now)) \<Longrightarrow> unreserved c"
    unfolding stamps_def Let_def by (auto dest: padded_unreserved)
qed

lemma canonical_request_lines:
  assumes "newline \<notin> set q" and "newline \<notin> set (host inputs)"
    and "newline \<notin> set (canonical_uri_of inputs)"
  shows "split_on newline (canonical_request inputs q) =
    [''GET'', canonical_uri_of inputs, q, ''host:'' @ host inputs, [], ''host'', UNSIGNED_PAYLOAD]"
    (is "_ = ?lines")
proof -
  have "canonical_request inputs q = join_with [newline] ?lines"
    by (simp add: canonical_request_def join_with_def)
  moreover have "newline \<notin> set p" if "p \<in> set ?lines" for p
    using that assms by (auto simp: newline_def UNSIGNED_PAYLOAD_def)
  ultimately show ?thesis using split_on_join [of ?lines newline] by simp
qed

text \<open>
  Whatever the access key and the region contain, the signed query has exactly the five
  parameters of the scheme, in their order and with these values, followed by the signature; and
  the canonical request that is signed has exactly seven lines when neither host nor path has a
  line break.
\<close>

theorem presign_parameters:
  fixes inputs :: signing_inputs
  defines "ts \<equiv> snd (stamps (now_secs inputs))"
    and "scope \<equiv> fst (stamps (now_secs inputs)) @ ''/'' @ region inputs @ ''/s3/aws4_request''"
  assumes "newline \<notin> set (host inputs)" and "newline \<notin> set (canonical_uri_of inputs)"
  shows "split_on (CHR ''&'') (presign_query hmac sha256 inputs) =
      [''X-Amz-Algorithm=AWS4-HMAC-SHA256'',
       ''X-Amz-Credential='' @ uri_encode (access_key_id inputs @ ''/'' @ scope) True,
       ''X-Amz-Date='' @ ts,
       ''X-Amz-Expires='' @ show_nat (expires_secs inputs),
       ''X-Amz-SignedHeaders=host'',
       ''X-Amz-Signature='' @ sign hmac inputs (fst (stamps (now_secs inputs)))
          (string_to_sign sha256 ts scope
             (canonical_request inputs (canonical_query inputs ts scope)))]
    \<and> split_on newline (canonical_request inputs (canonical_query inputs ts scope)) =
      [''GET'', canonical_uri_of inputs, canonical_query inputs ts scope, ''host:'' @ host inputs,
       [], ''host'', UNSIGNED_PAYLOAD]"
proof -
  have plain: "c \<notin> set (uri_encode x True)" "c \<notin> set ts" "c \<notin> set (show_nat n)"
    if "c = CHR ''&'' \<or> c = newline" for c x n
    using that uri_encode_chars [of c x True] stamps_chars [of c "now_secs inputs"]
      show_nat_digits [of c n]
    by (auto simp: unreserved_def ord_of_def ts_def newline_def Let_def)
  have sig: "CHR ''&'' \<notin> set (sig_hex x)" for x
    using sig_hex_chars [of "CHR ''&''" x] by (auto simp: NIBBLE_def)
  let ?sig = "sign hmac inputs (fst (stamps (now_secs inputs)))
      (string_to_sign sha256 ts scope (canonical_request inputs (canonical_query inputs ts scope)))"
  let ?ps = "[''X-Amz-Algorithm=AWS4-HMAC-SHA256'',
       ''X-Amz-Credential='' @ uri_encode (access_key_id inputs @ ''/'' @ scope) True,
       ''X-Amz-Date='' @ ts, ''X-Amz-Expires='' @ show_nat (expires_secs inputs),
       ''X-Amz-SignedHeaders=host''] :: string list"
  have query: "canonical_query inputs ts scope = join_with ''&'' ?ps"
    by (simp add: canonical_query_def ALGORITHM_def join_with_def)
  have "presign_query hmac sha256 inputs = join_with ''&'' (?ps @ [''X-Amz-Signature='' @ ?sig])"
    by (simp add: presign_query_def Let_def split_beta ts_def scope_def SERVICE_def
        TERMINATOR_def canonical_query_def ALGORITHM_def join_with_def)
  moreover have "split_on (CHR ''&'') (join_with ''&'' (?ps @ [''X-Amz-Signature='' @ ?sig]))
      = ?ps @ [''X-Amz-Signature='' @ ?sig]"
  proof (rule split_on_join)
    fix p assume "p \<in> set (?ps @ [''X-Amz-Signature='' @ ?sig])"
    then show "CHR ''&'' \<notin> set p"
      using plain [of "CHR ''&''"] sig unfolding sign_def Let_def by auto
  qed simp
  moreover have "newline \<notin> set (canonical_query inputs ts scope)"
    unfolding query join_with_def using plain [of newline] by (auto simp: newline_def)
  then have "split_on newline (canonical_request inputs (canonical_query inputs ts scope)) =
      [''GET'', canonical_uri_of inputs, canonical_query inputs ts scope, ''host:'' @ host inputs,
       [], ''host'', UNSIGNED_PAYLOAD]"
    using assms(3,4) by (rule canonical_request_lines)
  ultimately show ?thesis by (simp only: append.simps simp_thms)
qed

theorem presign_parameters_witness:
  "length (split_on (CHR ''&'')
     (presign_query (\<lambda>k m. [7]) (\<lambda>m. [8])
        \<lparr>access_key_id = ''a&X-Amz-Date=0'', secret_access_key = ''s'', region = ''r&s'',
         host = ''h'', canonical_uri_of = ''/k'', expires_secs = 60, now_secs = 5\<rparr>)) = 6"
proof -
  let ?i = "\<lparr>access_key_id = ''a&X-Amz-Date=0'', secret_access_key = ''s'', region = ''r&s'',
         host = ''h'', canonical_uri_of = ''/k'', expires_secs = 60, now_secs = 5\<rparr>"
  have "newline \<notin> set (host ?i)" and "newline \<notin> set (canonical_uri_of ?i)"
    by (simp_all add: newline_def)
  from presign_parameters [OF this] show ?thesis by simp
qed

section \<open>What a fetch can report\<close>

text \<open>
  A fetch from the bucket yields a body only from a complete 200, with the entity tag of that
  response; every transport failure is reduced to one of three fixed texts, so no part of the
  signed URL can reach a log through it.
\<close>

theorem bucket_get_outcomes:
  "(\<forall>bs etag'. bucket_get hmac sha256 send src now etag = Body bs etag' \<longrightarrow>
      (\<exists>r. send (signed_url hmac sha256 src now) etag = Inr r \<and> status r = 200
         \<and> body_bytes r = Inr bs \<and> etag_header r = etag'))
   \<and> (\<forall>text. bucket_get hmac sha256 send src now etag = Unavailable (Unreachable text) \<longrightarrow>
      text \<in> {''timed out'', ''connection refused'', ''transport failure''})
   \<and> (bucket_get hmac sha256 send src now etag = NotModified \<longleftrightarrow>
      (\<exists>r. send (signed_url hmac sha256 src now) etag = Inr r \<and> status r = 304))"
  by (auto simp: bucket_get_def body_of_def transport_error_def split: sum.splits if_splits)

definition sample_bucket :: bucket_config where
  "sample_bucket = \<lparr>bc_endpoint = \<lparr>url_scheme = ''https'', url_host = Some ''s3.example.com'',
       url_port = None, url_text = ''https://s3.example.com''\<rparr>, bc_bucket = ''kallisto'',
     bc_region = ''auto'', bc_object_key = ''prod/payment.kal'', bc_path_style = False,
     bc_access_key_id = ''id'', bc_secret_access_key = ''key''\<rparr>"

theorem bucket_get_outcomes_witness:
  "\<exists>text \<in> {''timed out'', ''connection refused'', ''transport failure''}.
     bucket_get (\<lambda>k m. []) (\<lambda>m. []) (\<lambda>u e. Inl \<lparr>is_timeout = True, is_connect = False\<rparr>)
       \<lparr>bs_config = sample_bucket, bs_origin = [], bs_host = [], bs_canonical_uri = [], bs_description = []\<rparr> 0 None
     = Unavailable (Unreachable text)"
proof -
  let ?get = "bucket_get (\<lambda>k m. []) (\<lambda>m. []) (\<lambda>u e. Inl \<lparr>is_timeout = True, is_connect = False\<rparr>)
     \<lparr>bs_config = sample_bucket, bs_origin = [], bs_host = [], bs_canonical_uri = [], bs_description = []\<rparr> 0 None"
  obtain t where "?get = Unavailable (Unreachable t)"
    by (simp add: bucket_get_def transport_error_def)
  with bucket_get_outcomes show ?thesis by blast
qed

end
