(* ===== verification/Refresh.thy ===== *)
theory Refresh
  imports Snapshot SigV4 "HOL-Library.Option_ord"
begin

text \<open>
  \<open>src/resolver/refresh.rs\<close>: the poll loop that adopts a new file or keeps the table it has. The
  state is the refresher (key, slot, cache path, entity tag) and the file system holding the
  encrypted copy; what the source answers, what the generator and the clock give and whether a disk
  write fails are inputs of each tick, so a run is a list of such inputs. Writing the cache is also
  given as the sequence of file-system states a crash can leave behind.

  Shown here: over any run the served version never decreases and a table, once loaded, stays
  loaded; every tick but a load leaves the table as it was; whatever is served comes from a file
  that authenticates under the key; what a crash of the process or of the machine can leave of the
  cache, and that a start from it serves an authentic file or nothing; and that a restart from the
  cache serves what the process last loaded.
\<close>

section \<open>refresh.rs\<close>

definition DEFAULT_INTERVAL :: nat where
  "DEFAULT_INTERVAL = 30"

datatype refresh_error = Seal seal_error | Unservable snapshot_error

datatype tick =
    Unchanged
  | Loaded u64 bool bool \<comment> \<open>\<open>version\<close>, \<open>cached\<close>, \<open>enforces\<close>\<close>
  | Rejected refresh_error
  | SourceDown source_error

type_synonym fs = "string \<rightharpoonup> bytes"

record refresher =
  rf_key :: seal_key
  rf_slot :: slot
  rf_cache_path :: "string option"
  rf_interval :: nat
  rf_etag :: "string option"
  rf_fs :: fs

definition refresher_new :: "seal_key \<Rightarrow> slot \<Rightarrow> string option \<Rightarrow> fs \<Rightarrow> refresher" where
  "refresher_new key slot cache_path files =
     \<lparr>rf_key = key, rf_slot = slot, rf_cache_path = cache_path, rf_interval = DEFAULT_INTERVAL,
      rf_etag = None, rf_fs = files\<rparr>"

definition every :: "refresher \<Rightarrow> nat \<Rightarrow> refresher" where
  "every r interval = r\<lparr>rf_interval := interval\<rparr>"

text \<open>
  \<open>Path::with_extension\<close>, for a path that does not end in a dot component: the last name keeps
  what stands before its last dot, a leading dot apart.
\<close>

definition file_stem :: "string \<Rightarrow> string" where
  "file_stem name =
     (let after = takeWhile (\<lambda>c. c \<noteq> CHR ''.'') (rev name);
          before = rev (drop (Suc (length after)) (rev name))
      in if CHR ''.'' \<notin> set name \<or> before = [] then name else before)"

definition with_extension :: "string \<Rightarrow> string \<Rightarrow> string" where
  "with_extension path ext =
     (let p = rev (dropWhile (\<lambda>c. c = CHR ''/'') (rev path));
          name = rev (takeWhile (\<lambda>c. c \<noteq> CHR ''/'') (rev p));
          dir = take (length p - length name) p
      in if name = [] \<or> name = ''..'' then path else dir @ file_stem name @ ''.'' @ ext)"

text \<open>
  What the disk does: the temporary file cannot be opened; it is opened, and so created or truncated,
  and the write fails after some bytes; or the write succeeds. The rename succeeds or fails.
\<close>

datatype write_outcome = Write_Ok | Open_Fails | Fails_After nat

record disk_outcome =
  write_outcome :: write_outcome
  rename_ok :: bool

definition write_file :: "fs \<Rightarrow> string \<Rightarrow> bytes \<Rightarrow> write_outcome \<Rightarrow> fs \<times> bool" where
  "write_file files path bs result =
     (case result of
        Write_Ok \<Rightarrow> (files(path \<mapsto> bs), True)
      | Open_Fails \<Rightarrow> (files, False)
      | Fails_After k \<Rightarrow> (files(path \<mapsto> take k bs), False))"

definition rename_file :: "fs \<Rightarrow> string \<Rightarrow> string \<Rightarrow> bool \<Rightarrow> fs \<times> bool" where
  "rename_file files from_path to_path ok =
     (if ok then ((files(to_path := files from_path))
                    (from_path := if from_path = to_path then files from_path else None), True)
      else (files, False))"

definition write_cache :: "refresher \<Rightarrow> bytes \<Rightarrow> disk_outcome \<Rightarrow> refresher \<times> bool" where
  "write_cache r bs disk =
     (case rf_cache_path r of
        None \<Rightarrow> (r, True)
      | Some path \<Rightarrow>
          (let temp = with_extension path ''tmp'' in
           case write_file (rf_fs r) temp bs (write_outcome disk) of
             (files, False) \<Rightarrow> (r\<lparr>rf_fs := files\<rparr>, False)
           | (files, True) \<Rightarrow>
               (case rename_file files temp path (rename_ok disk) of
                  (files', ok) \<Rightarrow> (r\<lparr>rf_fs := files'\<rparr>, ok))))"

text \<open>The result, the warnings printed to standard error, and the new state.\<close>

definition unknown_policy_warning :: "(string \<Rightarrow> string) \<Rightarrow> string \<Rightarrow> string" where
  "unknown_policy_warning quoted name =
     ''kallisto: a token refers to policy '' @ quoted name @ '', which the file does not define''"

definition adopt ::
  "runtime \<Rightarrow> (string \<Rightarrow> string) \<Rightarrow> draw \<Rightarrow> disk_outcome \<Rightarrow> refresher \<Rightarrow> bytes \<Rightarrow> string option \<Rightarrow>
     u64 option \<Rightarrow> bool \<Rightarrow> refresher \<times> tick \<times> string list" where
  "adopt rt quoted dr disk r bs etag held write_it =
     (case peek_version bs of
        Inl e \<Rightarrow> (r, Rejected (Seal e), [])
      | Inr offered \<Rightarrow>
          if Some offered = held then (r\<lparr>rf_etag := etag\<rparr>, Unchanged, [])
          else
            (case open_file (rt_aead rt) (rt_from_slice rt) bs (rf_key r) held of
               Inl e \<Rightarrow> (r, Rejected (Seal e), [])
             | Inr opened \<Rightarrow>
                 (case opened_view (rt_from_slice rt) opened of
                    Inl e \<Rightarrow> (r, Rejected (Seal e), [])
                  | Inr v \<Rightarrow>
                      (case snapshot_build rt dr v etag of
                         Inl e \<Rightarrow> (r, Rejected (Unservable e), [])
                       | Inr sn \<Rightarrow>
                           (let warnings = map (unknown_policy_warning quoted) (unknown_policies sn);
                                r' = r\<lparr>rf_slot := slot_store (rf_slot r) sn, rf_etag := etag\<rparr>;
                                (r'', cached) =
                                  (if write_it then write_cache r' bs disk else (r', True))
                            in (r'', Loaded (opened_version opened) cached (enforces sn), warnings))))))"

definition read_file :: "fs \<Rightarrow> string \<Rightarrow> read_outcome" where
  "read_file files path = (case files path of None \<Rightarrow> Read_NotFound | Some bs \<Rightarrow> Read_Ok bs)"

text \<open>
  \<open>io_error\<close>: reading the cache failed with this kind of error instead.
\<close>

definition warm_from_cache ::
  "runtime \<Rightarrow> (string \<Rightarrow> string) \<Rightarrow> draw \<Rightarrow> disk_outcome \<Rightarrow> string option \<Rightarrow> refresher
     \<Rightarrow> refresher \<times> tick \<times> string list" where
  "warm_from_cache rt quoted dr disk io_error r =
     (case rf_cache_path r of
        None \<Rightarrow> (r, SourceDown Absent, [])
      | Some path \<Rightarrow>
          (let outcome = (case io_error of Some k \<Rightarrow> Read_Failed k | None \<Rightarrow> read_file (rf_fs r) path)
           in case disk_fetch outcome None of
                Body bs _ \<Rightarrow> adopt rt quoted dr disk r bs None None False
              | Unavailable e \<Rightarrow> (r, SourceDown e, [])
              | NotModified \<Rightarrow> (r, Unchanged, [])))"

definition poll_once ::
  "runtime \<Rightarrow> (string \<Rightarrow> string) \<Rightarrow> draw \<Rightarrow> disk_outcome \<Rightarrow> (string option \<Rightarrow> fetched) \<Rightarrow> refresher
     \<Rightarrow> refresher \<times> tick \<times> string list" where
  "poll_once rt quoted dr disk fetch r =
     (let held = slot_version (rf_slot r) in
      case fetch (rf_etag r) of
        NotModified \<Rightarrow> (r, Unchanged, [])
      | Unavailable e \<Rightarrow> (r, SourceDown e, [])
      | Body bs etag \<Rightarrow> adopt rt quoted dr disk r bs etag held True)"

text \<open>One wake-up of the loop: what the source, the machine and the disk do during it.\<close>

record event =
  ev_fetch :: "string option \<Rightarrow> fetched"
  ev_draw :: draw
  ev_disk :: disk_outcome

text \<open>\<open>run\<close> over the wake-ups so far: the state and the ticks handed to \<open>observe\<close>.\<close>

fun run_loop ::
  "runtime \<Rightarrow> (string \<Rightarrow> string) \<Rightarrow> refresher \<Rightarrow> event list \<Rightarrow> refresher \<times> tick list" where
  "run_loop rt quoted r [] = (r, [])"
| "run_loop rt quoted r (e # es) =
     (case poll_once rt quoted (ev_draw e) (ev_disk e) (ev_fetch e) r of
        (r', t, _) \<Rightarrow> (case run_loop rt quoted r' es of (r'', ts) \<Rightarrow> (r'', t # ts)))"

section \<open>One tick\<close>

text \<open>A table built from a file that authenticates under a key, with the file's version.\<close>

definition authentic :: "runtime \<Rightarrow> seal_key \<Rightarrow> bytes \<Rightarrow> snapshot \<Rightarrow> bool" where
  "authentic rt key bs sn \<longleftrightarrow>
     (\<exists>n ct body v dr etag. length n = NONCE_LEN \<and> bs = header_write (sn_version sn) n @ ct
        \<and> seal_append_tag (rt_aead rt) (expose key) n (header_write (sn_version sn) n) body = Some ct
        \<and> rt_from_slice rt body = Some v \<and> snapshot_build rt dr v etag = Inr sn)"

lemma write_cache_keeps:
  "rf_slot (fst (write_cache r bs disk)) = rf_slot r" "rf_key (fst (write_cache r bs disk)) = rf_key r"
  "rf_etag (fst (write_cache r bs disk)) = rf_etag r"
  "rf_cache_path (fst (write_cache r bs disk)) = rf_cache_path r"
  by (auto simp: write_cache_def Let_def split: option.splits prod.splits bool.splits)

lemma adopt_not_loaded:
  assumes "adopt rt quoted dr disk r bs etag held w = (r', t, ws)" and "\<nexists>v c e. t = Loaded v c e"
  shows "rf_slot r' = rf_slot r \<and> rf_fs r' = rf_fs r \<and> ws = []"
  using assms
  by (auto simp: adopt_def Let_def split: sum.splits if_splits prod.splits)

lemma adopt_load_parts:
  assumes "adopt rt quoted dr disk r bs etag held w = (r', Loaded v c e, ws)"
  obtains opened view sn where
    "open_file (rt_aead rt) (rt_from_slice rt) bs (rf_key r) held = Inr opened"
    "opened_view (rt_from_slice rt) opened = Inr view" "snapshot_build rt dr view etag = Inr sn"
    "opened_version opened = v" "sn_version sn = v" "\<forall>u. held = Some u \<longrightarrow> u < v"
    "rf_slot r' = Some sn" "rf_etag r' = etag" "e = enforces sn"
    "w \<longrightarrow> write_cache (r\<lparr>rf_slot := Some sn, rf_etag := etag\<rparr>) bs disk = (r', c)"
proof -
  obtain opened view sn offered where peek: "peek_version bs = Inr offered" "held \<noteq> Some offered"
    and op: "open_file (rt_aead rt) (rt_from_slice rt) bs (rf_key r) held = Inr opened"
    and view: "opened_view (rt_from_slice rt) opened = Inr view"
    and sn: "snapshot_build rt dr view etag = Inr sn" and v: "opened_version opened = v"
    and e: "e = enforces sn"
    and w: "(if w then write_cache (r\<lparr>rf_slot := Some sn, rf_etag := etag\<rparr>) bs disk
             else (r\<lparr>rf_slot := Some sn, rf_etag := etag\<rparr>, True)) = (r', c)"
    using assms
    by (auto simp: adopt_def Let_def slot_store_def split: sum.splits if_splits prod.splits)
  have "offered = v" using peek_open_agree [OF op] peek(1) v by simp
  moreover have "sn_version sn = v_version view" using sn by (rule snapshot_build_Inr)
  moreover have ver: "v_version view = v" "\<And>u. held = Some u \<Longrightarrow> u \<le> v"
    using op view v by (auto elim!: open_file_Inr simp: opened_view_def)
  moreover have "rf_slot r' = Some sn" "rf_etag r' = etag"
    using w write_cache_keeps(1,3) [of "r\<lparr>rf_slot := Some sn, rf_etag := etag\<rparr>" bs disk]
    by (cases w; force)+
  ultimately show thesis
    using peek(2) op view sn v e w by (intro that) (auto simp: less_le)
qed

lemma adopt_loaded:
  assumes "adopt rt quoted dr disk r bs etag held w = (r', Loaded v c e, ws)"
    and lib: "aead_authentic (rt_aead rt)"
  shows "\<exists>sn. rf_slot r' = Some sn \<and> authentic rt (rf_key r) bs sn \<and> sn_version sn = v
    \<and> (\<forall>u. held = Some u \<longrightarrow> u < v) \<and> e = enforces sn \<and> rf_etag r' = etag"
proof -
  obtain opened view sn where
    op: "open_file (rt_aead rt) (rt_from_slice rt) bs (rf_key r) held = Inr opened"
    and view: "opened_view (rt_from_slice rt) opened = Inr view"
    and sn: "snapshot_build rt dr view etag = Inr sn"
    and v: "opened_version opened = v" "sn_version sn = v" "\<forall>u. held = Some u \<longrightarrow> u < v"
    and r': "rf_slot r' = Some sn" "rf_etag r' = etag" "e = enforces sn"
    using assms(1) by (rule adopt_load_parts) blast
  obtain n ct where "length n = NONCE_LEN" "bs = header_write v n @ ct"
    "seal_append_tag (rt_aead rt) (expose (rf_key r)) n (header_write v n) (plaintext opened) = Some ct"
    using open_authentic [OF lib op] v by auto
  moreover have "rt_from_slice rt (plaintext opened) = Some view"
    using view by (auto simp: opened_view_def split: option.splits)
  ultimately have "authentic rt (rf_key r) bs sn"
    unfolding authentic_def using sn v(2) by metis
  with r' v show ?thesis by blast
qed

lemma adopt_key: "adopt rt quoted dr disk r bs etag held w = (r', t, ws) \<Longrightarrow> rf_key r' = rf_key r"
proof -
  assume a: "adopt rt quoted dr disk r bs etag held w = (r', t, ws)"
  have "rf_key (fst (write_cache (r\<lparr>rf_slot := s, rf_etag := x\<rparr>) bs disk)) = rf_key r" for s x
    by (simp add: write_cache_keeps)
  with a show ?thesis
    by (auto simp: adopt_def Let_def split: sum.splits if_splits prod.splits) (metis fst_conv)
qed

lemma poll_once_cases:
  assumes "poll_once rt quoted dr disk fetch r = (r', t, ws)"
  obtains (kept) "r' = r" "\<nexists>v c e. t = Loaded v c e"
  | (body) bs etag where "fetch (rf_etag r) = Body bs etag"
      "adopt rt quoted dr disk r bs etag (slot_version (rf_slot r)) True = (r', t, ws)"
  using assms by (auto simp: poll_once_def Let_def split: fetched.splits)

text \<open>
  What one poll does to the table. A poll that is not a load, whether the source was down,
  nothing changed, or the file was forged, stale, unparsable or unservable, leaves the served table
  and the file system exactly as they were. A load installs a table of the reported version, strictly
  newer than the one replaced, built from fetched bytes that authenticate under the seal key.
\<close>

theorem poll_effect:
  assumes lib: "aead_authentic (rt_aead rt)"
    and poll: "poll_once rt quoted dr disk fetch r = (r', t, ws)"
  shows "case t of
      Loaded v _ enf \<Rightarrow>
        (\<exists>sn bs etag. rf_slot r' = Some sn \<and> sn_version sn = v \<and> enf = enforces sn
           \<and> fetch (rf_etag r) = Body bs etag \<and> authentic rt (rf_key r) bs sn \<and> rf_etag r' = etag)
        \<and> slot_version (rf_slot r) < Some v
    | _ \<Rightarrow> rf_slot r' = rf_slot r \<and> rf_fs r' = rf_fs r"
  using poll
proof (cases rule: poll_once_cases)
  case kept
  then show ?thesis by (auto split: tick.splits)
next
  case (body bs etag)
  show ?thesis
  proof (cases "\<exists>v c e. t = Loaded v c e")
    case True
    then obtain v c e where t: "t = Loaded v c e" by blast
    from adopt_loaded [OF body(2) [unfolded t] lib] body t show ?thesis
      by (cases "slot_version (rf_slot r)") auto
  next
    case False
    with adopt_not_loaded [OF body(2)] show ?thesis by (auto split: tick.splits)
  qed
qed

section \<open>Runs\<close>

lemma poll_version_mono:
  assumes "poll_once rt quoted dr disk fetch r = (r', t, ws)"
  shows "slot_version (rf_slot r) \<le> slot_version (rf_slot r')"
  using assms
proof (cases rule: poll_once_cases)
  case kept
  then show ?thesis by simp
next
  case (body bs etag)
  show ?thesis
  proof (cases "\<exists>v c e. t = Loaded v c e")
    case True
    then obtain v c e where t: "t = Loaded v c e" by blast
    from body(2) [unfolded t] obtain sn where "rf_slot r' = Some sn" "sn_version sn = v"
      and lt: "\<forall>u. slot_version (rf_slot r) = Some u \<longrightarrow> u < v"
      by (rule adopt_load_parts) blast
    then have "slot_version (rf_slot r') = Some v" by (simp add: slot_version_def)
    with lt show ?thesis by (cases "slot_version (rf_slot r)") auto
  next
    case False
    with adopt_not_loaded [OF body(2)] show ?thesis by simp
  qed
qed

text \<open>The contract of a loop whose steps keep an invariant and never lower a measure.\<close>

locale monotone_loop =
  fixes step :: "'s \<Rightarrow> 'i \<Rightarrow> 's"
    and inv :: "'s \<Rightarrow> bool"
    and level :: "'s \<Rightarrow> 'v :: linorder"
  assumes step_inv: "inv s \<Longrightarrow> inv (step s i)"
    and step_level: "level s \<le> level (step s i)"
begin

lemma run_inv: "inv s \<Longrightarrow> inv (foldl step s is)"
  by (induction "is" arbitrary: s) (auto intro: step_inv)

lemma run_level: "level s \<le> level (foldl step s is)"
  by (induction "is" arbitrary: s) (auto intro: order_trans [OF step_level])

end

definition poll_step :: "runtime \<Rightarrow> (string \<Rightarrow> string) \<Rightarrow> refresher \<Rightarrow> event \<Rightarrow> refresher" where
  "poll_step rt quoted r e = fst (poll_once rt quoted (ev_draw e) (ev_disk e) (ev_fetch e) r)"

text \<open>What is served, if anything, comes from a file that authenticates under the seal key.\<close>

definition served_authentic :: "runtime \<Rightarrow> seal_key \<Rightarrow> refresher \<Rightarrow> bool" where
  "served_authentic rt key r \<longleftrightarrow>
     rf_key r = key \<and> (\<forall>sn. rf_slot r = Some sn \<longrightarrow> (\<exists>bs. authentic rt key bs sn))"

lemma poll_key: "poll_once rt quoted dr disk fetch r = (r', t, ws) \<Longrightarrow> rf_key r' = rf_key r"
  by (erule poll_once_cases) (auto dest: adopt_key)

lemma poll_step_authentic:
  assumes lib: "aead_authentic (rt_aead rt)" and inv: "served_authentic rt key r"
  shows "served_authentic rt key (poll_step rt quoted r e)"
proof -
  obtain r' t ws where p: "poll_once rt quoted (ev_draw e) (ev_disk e) (ev_fetch e) r = (r', t, ws)"
    by (metis prod_cases3)
  have "served_authentic rt key r'"
    using p
  proof (cases rule: poll_once_cases)
    case (body bs etag)
    show ?thesis
    proof (cases "\<exists>v c e. t = Loaded v c e")
      case True
      then obtain v c e where t: "t = Loaded v c e" by blast
      from adopt_loaded [OF body(2) [unfolded t] lib] inv poll_key [OF p]
      show ?thesis by (auto simp: served_authentic_def)
    next
      case False
      with adopt_not_loaded [OF body(2)] inv poll_key [OF p]
      show ?thesis by (auto simp: served_authentic_def)
    qed
  qed (use inv in simp)
  with p show ?thesis by (simp add: poll_step_def)
qed

interpretation poll_loop: monotone_loop "poll_step rt quoted"
  "\<lambda>r. aead_authentic (rt_aead rt) \<longrightarrow> served_authentic rt key r" "\<lambda>r. slot_version (rf_slot r)"
  for rt quoted key
proof
  show "slot_version (rf_slot r) \<le> slot_version (rf_slot (poll_step rt quoted r e))" for r e
    using poll_version_mono [of rt quoted "ev_draw e" "ev_disk e" "ev_fetch e" r]
    unfolding poll_step_def by (metis prod.collapse)
qed (use poll_step_authentic in blast)

lemma run_loop_foldl: "fst (run_loop rt quoted r es) = foldl (poll_step rt quoted) r es"
  by (induction es arbitrary: r) (auto simp: poll_step_def split: prod.splits, metis fst_conv)

text \<open>
  Over any sequence of polls, whatever the source answers, whatever the disk does: the served
  version never decreases (having no table counts as lowest, so a table once loaded stays loaded),
  and what is served comes from a file that authenticates under the seal key.
\<close>

theorem no_rollback:
  assumes "aead_authentic (rt_aead rt)" and "served_authentic rt key r"
  shows "slot_version (rf_slot r) \<le> slot_version (rf_slot (fst (run_loop rt quoted r es)))
    \<and> served_authentic rt key (fst (run_loop rt quoted r es))"
  unfolding run_loop_foldl
  using poll_loop.run_level [of r rt quoted es] poll_loop.run_inv [of rt key r quoted es] assms
  by blast

section \<open>The encrypted copy on disk\<close>

text \<open>
  What a crash can leave of a file written beside its target and renamed over it: nothing new, the
  temporary file with some of the bytes, or the target under its new contents. The flag says whether
  those contents are sure to be whole. They are when only the process dies, since the kernel keeps
  what was written; and they are when the machine dies but the bytes were synced before the rename.
  \<open>write_cache\<close> does not sync, so after a machine crash the renamed file may hold only some of them.
\<close>

definition crash_states :: "bool \<Rightarrow> fs \<Rightarrow> string \<Rightarrow> string \<Rightarrow> bytes \<Rightarrow> fs list" where
  "crash_states whole files temp path bs =
     files # map (\<lambda>k. files(temp \<mapsto> take k bs)) [0..<Suc (length bs)]
     @ map (\<lambda>k. fst (rename_file (files(temp \<mapsto> take k bs)) temp path True))
         (if whole then [length bs] else [0..<Suc (length bs)])"

lemma write_cache_in_states:
  assumes "rf_cache_path r = Some path"
  shows "rf_fs (fst (write_cache r bs disk)) \<in> set (crash_states True (rf_fs r) (with_extension path ''tmp'') path bs)"
proof (cases "write_outcome disk")
  case (Fails_After k)
  have "take k bs = take (min k (length bs)) bs" by (simp add: min_def)
  moreover have "min k (length bs) \<in> set [0..<Suc (length bs)]" by auto
  ultimately have "(rf_fs r)(with_extension path ''tmp'' \<mapsto> take k bs) \<in>
      (\<lambda>k. (rf_fs r)(with_extension path ''tmp'' \<mapsto> take k bs)) ` set [0..<Suc (length bs)]"
    by (intro image_eqI [of _ _ "min k (length bs)"]) simp_all
  with Fails_After assms show ?thesis
    by (simp only: write_cache_def write_file_def crash_states_def Let_def option.case prod.case
        write_outcome.case bool.case fst_conv set_simps set_append set_map) simp
qed (use assms in \<open>auto simp: write_cache_def write_file_def rename_file_def crash_states_def Let_def\<close>)

lemma write_cache_path:
  assumes "rf_cache_path r = Some path" and "with_extension path ''tmp'' \<noteq> path"
  shows "rf_fs (fst (write_cache r bs disk)) path =
    (if snd (write_cache r bs disk) then Some bs else rf_fs r path)"
  using assms
  by (auto simp: write_cache_def write_file_def rename_file_def Let_def split: write_outcome.splits)

text \<open>A process that starts from whatever the cache holds serves an authentic file, or nothing.\<close>

lemma cold_start_authentic:
  assumes lib: "aead_authentic (rt_aead rt)"
    and warm: "warm_from_cache rt quoted dr disk io (refresher_new key slot_empty (Some path) files) = (r2, t, ws)"
  shows "rf_slot r2 = None
    \<or> (\<exists>sn bs. rf_slot r2 = Some sn \<and> files path = Some bs \<and> authentic rt key bs sn)"
proof -
  let ?r = "refresher_new key slot_empty (Some path) files"
  have r: "rf_slot ?r = None" "rf_key ?r = key" by (simp_all add: refresher_new_def slot_empty_def)
  consider "rf_slot r2 = None" | bs where "files path = Some bs"
      "adopt rt quoted dr disk ?r bs None None False = (r2, t, ws)"
    using warm by (auto simp: warm_from_cache_def refresher_new_def slot_empty_def read_file_def disk_fetch_def
        split: option.splits)
  then show ?thesis
  proof cases
    case (2 bs)
    show ?thesis
    proof (cases "\<exists>v c e. t = Loaded v c e")
      case True
      then obtain v c e where "t = Loaded v c e" by blast
      with adopt_loaded [OF _ lib] 2 r show ?thesis by metis
    next
      case False
      with adopt_not_loaded [OF 2(2)] r show ?thesis by simp
    qed
  qed simp
qed

text \<open>
  C21. What a crash while the cache is written can leave, provided the temporary name differs from
  the cache's, which it does unless the cache path itself ends in \<open>.tmp\<close>. When the process dies, the
  cache path holds what it held before or exactly the new bytes. When the machine dies it may also
  hold only the beginning of the new bytes, down to none, because nothing is synced before the
  rename. The call itself leaves a state of the first kind, the new bytes when it reports success and
  the old cache when opening, writing or renaming the file fails. And whatever is left, a process
  that starts from it serves a table of a file that authenticates under its key, or nothing.
\<close>

theorem cache_write_atomic:
  assumes "rf_cache_path r = Some path" and "with_extension path ''tmp'' \<noteq> path"
    and lib: "aead_authentic (rt_aead rt)"
  shows "list_all (\<lambda>files. files path = rf_fs r path \<or> files path = Some bs)
      (crash_states True (rf_fs r) (with_extension path ''tmp'') path bs)
    \<and> list_all (\<lambda>files. files path = rf_fs r path \<or> (\<exists>k. files path = Some (take k bs)))
      (crash_states False (rf_fs r) (with_extension path ''tmp'') path bs)
    \<and> rf_fs (fst (write_cache r bs disk)) \<in> set (crash_states True (rf_fs r) (with_extension path ''tmp'') path bs)
    \<and> rf_fs (fst (write_cache r bs disk)) path = (if snd (write_cache r bs disk) then Some bs else rf_fs r path)
    \<and> (\<forall>files. case warm_from_cache rt quoted dr disk2 io (refresher_new key slot_empty (Some path) files) of
         (r2, _, _) \<Rightarrow> rf_slot r2 = None
           \<or> (\<exists>sn bs. rf_slot r2 = Some sn \<and> files path = Some bs \<and> authentic rt key bs sn))"
proof (intro conjI)
  show "list_all (\<lambda>files. files path = rf_fs r path \<or> files path = Some bs)
      (crash_states True (rf_fs r) (with_extension path ''tmp'') path bs)"
    "list_all (\<lambda>files. files path = rf_fs r path \<or> (\<exists>k. files path = Some (take k bs)))
      (crash_states False (rf_fs r) (with_extension path ''tmp'') path bs)"
    using assms(2)
    by (auto simp: crash_states_def rename_file_def list_all_iff intro: exI [of _ "length bs"])
  show "\<forall>files. case warm_from_cache rt quoted dr disk2 io (refresher_new key slot_empty (Some path) files) of
         (r2, _, _) \<Rightarrow> rf_slot r2 = None
           \<or> (\<exists>sn bs. rf_slot r2 = Some sn \<and> files path = Some bs \<and> authentic rt key bs sn)"
    by (clarsimp split: prod.split) (use cold_start_authentic [OF lib] in blast)
qed (rule write_cache_in_states [OF assms(1)], rule write_cache_path [OF assms(1,2)])

text \<open>
  The proviso is needed: for a cache path with the extension \<open>tmp\<close> the temporary file is the cache
  itself, and the death of the process alone can leave it truncated.
\<close>

lemma tmp_cache_truncated:
  "with_extension ''/var/lib/kallisto/secrets.tmp'' ''tmp'' = ''/var/lib/kallisto/secrets.tmp''"
  "\<exists>files \<in> set (crash_states True [''/c.tmp'' \<mapsto> [1, 2]] (with_extension ''/c.tmp'' ''tmp'') ''/c.tmp'' [3, 4]).
     files ''/c.tmp'' = Some [3]"
proof -
  show "with_extension ''/var/lib/kallisto/secrets.tmp'' ''tmp'' = ''/var/lib/kallisto/secrets.tmp''"
    by code_simp
  have "with_extension ''/c.tmp'' ''tmp'' = ''/c.tmp''" by code_simp
  then show "\<exists>files \<in> set (crash_states True [''/c.tmp'' \<mapsto> [1, 2]] (with_extension ''/c.tmp'' ''tmp'') ''/c.tmp'' [3, 4]).
     files ''/c.tmp'' = Some [3]"
    by (simp add: crash_states_def)
qed

text \<open>
  And so is the difference between the two crashes: a machine that dies after the rename can come
  back with an empty cache, although the comment in the source excludes a truncated one.
\<close>

lemma unsynced_cache_lost:
  "\<exists>files \<in> set (crash_states False [''/c'' \<mapsto> [1, 2]] ''/c.tmp'' ''/c'' [3, 4]). files ''/c'' = Some []"
  by (simp add: crash_states_def rename_file_def)

section \<open>Cold start\<close>

lemma open_file_unheld:
  "open_file lib fsl bs key held = Inr d \<Longrightarrow> open_file lib fsl bs key None = Inr d"
  by (auto simp: open_file_def split: sum.splits option.splits if_splits)

text \<open>
  C7. A restart resumes where the process stopped. After a poll that loaded a file and reported it
  cached, a new process with the same key and an empty table that warms up from that cache, with a
  working generator, reports the same load and serves what the first process serves. For every path
  both tables give exactly the text the fetched file holds, and for every other path nothing; they
  list the same children under every prefix, and take the same decision for every token, path and
  capability. The version is the same, so the anti-rollback floor survives restarts. What is asked of
  the parser is that its maps are ordered and its texts are UTF-8.
\<close>

theorem cold_start_resumes:
  assumes lib: "aead_total (rt_aead rt)" "aead_round_trip (rt_aead rt)"
    and parser: "parser_ok (rt_from_slice rt)"
    and poll: "poll_once rt quoted dr disk fetch r = (r', Loaded v True enf, ws)"
    and cache: "rf_cache_path r = Some path" "with_extension path ''tmp'' \<noteq> path"
    and fill: "d_fill dr2 = Some key" "length key = KEY_LEN"
  shows "\<exists>r2 ws2 bs etag opened view sn sn2.
       fetch (rf_etag r) = Body bs etag
     \<and> open_file (rt_aead rt) (rt_from_slice rt) bs (rf_key r) None = Inr opened
     \<and> opened_view (rt_from_slice rt) opened = Inr view
     \<and> warm_from_cache rt quoted dr2 disk2 None
         (refresher_new (rf_key r) slot_empty (Some path) (rf_fs r')) = (r2, Loaded v True enf, ws2)
     \<and> rf_slot r' = Some sn \<and> rf_slot r2 = Some sn2 \<and> sn_version sn = v \<and> sn_version sn2 = v
     \<and> (\<forall>q scratch.
          map_option snd (with_secret (rt_aead rt) sn q f scratch) = map_option (\<lambda>t. Inr (f t)) (map_of (v_secrets view) q)
        \<and> map_option snd (with_secret (rt_aead rt) sn2 q f scratch) = map_option (\<lambda>t. Inr (f t)) (map_of (v_secrets view) q))
     \<and> (\<forall>pre. children sn2 pre = children sn pre)
     \<and> (\<forall>presented q cap. permits (rt_hmac rt) sn2 presented q cap = permits (rt_hmac rt) sn presented q cap)"
proof -
  from poll obtain bs etag where fetched: "fetch (rf_etag r) = Body bs etag"
    and adopt: "adopt rt quoted dr disk r bs etag (slot_version (rf_slot r)) True = (r', Loaded v True enf, ws)"
    by (rule poll_once_cases) auto
  then obtain opened view sn where
    op: "open_file (rt_aead rt) (rt_from_slice rt) bs (rf_key r) (slot_version (rf_slot r)) = Inr opened"
    and view: "opened_view (rt_from_slice rt) opened = Inr view"
    and sn: "snapshot_build rt dr view etag = Inr sn" and v: "opened_version opened = v" "sn_version sn = v"
    and r': "rf_slot r' = Some sn" and enf: "enf = enforces sn"
    and w: "write_cache (r\<lparr>rf_slot := Some sn, rf_etag := etag\<rparr>) bs disk = (r', True)"
    using adopt_load_parts by metis
  have cached: "rf_fs r' path = Some bs"
    using write_cache_path [of "r\<lparr>rf_slot := Some sn, rf_etag := etag\<rparr>" path bs disk] w cache by simp
  have "build_tokens view = Inr (sn_tokens sn)" using sn by (rule snapshot_build_Inr)
  from snapshot_build_total [OF lib(1) fill this] obtain sn2 where sn2: "snapshot_build rt dr2 view None = Inr sn2"
    by blast
  note alike = rebuilt_alike [OF sn sn2]
  obtain r2 ws2 where start: "warm_from_cache rt quoted dr2 disk2 None
         (refresher_new (rf_key r) slot_empty (Some path) (rf_fs r')) = (r2, Loaded v True enf, ws2)"
     "rf_slot r2 = Some sn2"
    using cached sn2 alike(2) enf open_file_unheld [OF op] view v peek_open_agree [OF op]
    by (simp add: warm_from_cache_def refresher_new_def read_file_def disk_fetch_def adopt_def slot_store_def)
  have ok: "btree_ok (v_secrets view)" "\<And>p t. (p, t) \<in> set (v_secrets view) \<Longrightarrow> valid_utf8 t"
    using parser view by (force simp: parser_ok_def opened_view_def split: option.splits)+
  have served: "map_option snd (with_secret (rt_aead rt) sn q f scratch) = map_option (\<lambda>t. Inr (f t)) (map_of (v_secrets view) q)"
    "map_option snd (with_secret (rt_aead rt) sn2 q f scratch) = map_option (\<lambda>t. Inr (f t)) (map_of (v_secrets view) q)"
    for q scratch by (rule with_secret_file [OF lib(2) sn ok], assumption,
        rule with_secret_file [OF lib(2) sn2 ok], assumption)
  show ?thesis
    by (intro exI [of _ r2] exI [of _ ws2] exI [of _ bs] exI [of _ etag] exI [of _ opened] exI [of _ view]
        exI [of _ sn] exI [of _ sn2])
      (simp add: start fetched open_file_unheld [OF op] view r' v(2) alike served)
qed

section \<open>Witnesses\<close>

definition sample_event :: event where
  "sample_event = \<lparr>ev_fetch = (\<lambda>_. Body sample_file (Some ''tag'')), ev_draw = sample_draw,
     ev_disk = \<lparr>write_outcome = Write_Ok, rename_ok = True\<rparr>\<rparr>"

definition sample_refresher :: refresher where
  "sample_refresher = refresher_new (SealKey (replicate 32 9)) slot_empty (Some ''/c'') Map.empty"

lemma sample_with_extension: "with_extension ''/c'' ''tmp'' = ''/c.tmp''"
  by code_simp

lemma sample_loads:
  "\<exists>r' ws. poll_once sample_runtime id (ev_draw sample_event) (ev_disk sample_event)
     (ev_fetch sample_event) sample_refresher = (r', Loaded 7 True False, ws)"
proof -
  let ?d = "\<lparr>plaintext = [1, 2, 3], opened_version = 7\<rparr> :: opened"
  have op: "open_file clear_aead sample_from_slice sample_file (SealKey (replicate 32 9)) None = Inr ?d"
    using open_file_unheld [OF sample_opens] .
  have view: "opened_view sample_from_slice ?d = Inr (view_of id sample_contents)"
    by (simp add: opened_view_def sample_from_slice_def)
  have tokens: "build_tokens (view_of id sample_contents) = Inr None"
    by (simp add: build_tokens_def view_of_def sample_contents_def)
  have lib: "aead_total (rt_aead sample_runtime)"
    by (simp add: sample_runtime_def clear_aead_ok)
  have fill: "d_fill sample_draw = Some (replicate 32 9)" "length (replicate 32 9) = KEY_LEN"
    by (simp_all add: sample_draw_def KEY_LEN_def)
  obtain sn where
    sn: "snapshot_build sample_runtime sample_draw (view_of id sample_contents) (Some ''tag'') = Inr sn"
    using snapshot_build_total [OF lib fill tokens] by blast
  then have "build_tokens (view_of id sample_contents) = Inr (sn_tokens sn)"
    by (rule snapshot_build_Inr)
  then have "enforces sn = False"
    by (simp add: enforces_def build_tokens_def view_of_def sample_contents_def)
  with op view sn peek_open_agree [OF op] show ?thesis
    by (simp add: poll_once_def adopt_def sample_event_def sample_refresher_def refresher_new_def
        slot_empty_def slot_version_def sample_runtime_def write_cache_def write_file_def
        rename_file_def Let_def)
qed

theorem poll_effect_witness:
  "\<exists>r' ws sn. poll_once sample_runtime id (ev_draw sample_event) (ev_disk sample_event)
     (ev_fetch sample_event) sample_refresher = (r', Loaded 7 True False, ws)
     \<and> rf_slot r' = Some sn \<and> sn_version sn = 7"
proof -
  obtain r' ws where p: "poll_once sample_runtime id (ev_draw sample_event) (ev_disk sample_event)
     (ev_fetch sample_event) sample_refresher = (r', Loaded 7 True False, ws)"
    using sample_loads by blast
  have "aead_authentic (rt_aead sample_runtime)" by (simp add: sample_runtime_def clear_aead_ok)
  from poll_effect [OF this p] p show ?thesis by auto
qed

theorem no_rollback_witness:
  "slot_version (rf_slot sample_refresher)
     \<le> slot_version (rf_slot (fst (run_loop sample_runtime id sample_refresher [sample_event, sample_event])))"
proof -
  have "aead_authentic (rt_aead sample_runtime)" by (simp add: sample_runtime_def clear_aead_ok)
  moreover have "served_authentic sample_runtime (rf_key sample_refresher) sample_refresher"
    by (simp add: served_authentic_def sample_refresher_def refresher_new_def slot_empty_def)
  ultimately show ?thesis using no_rollback by blast
qed

theorem cache_write_atomic_witness:
  "list_all (\<lambda>files. files ''/c'' = None \<or> files ''/c'' = Some [1, 2])
     (crash_states True Map.empty ''/c.tmp'' ''/c'' [1, 2])
   \<and> rf_fs (fst (write_cache sample_refresher [1, 2] (ev_disk sample_event))) ''/c'' = Some [1, 2]"
proof -
  have r: "rf_cache_path sample_refresher = Some ''/c''" "rf_fs sample_refresher = Map.empty"
    by (simp_all add: sample_refresher_def refresher_new_def)
  have "with_extension ''/c'' ''tmp'' \<noteq> ''/c''" by (simp add: sample_with_extension)
  moreover have "aead_authentic (rt_aead sample_runtime)" by (simp add: sample_runtime_def clear_aead_ok)
  moreover have "snd (write_cache sample_refresher [1, 2] (ev_disk sample_event))"
    by (simp add: write_cache_def r write_file_def rename_file_def sample_event_def Let_def)
  ultimately show ?thesis
    using cache_write_atomic [OF r(1), of sample_runtime "[1, 2]" "ev_disk sample_event"] r(2)
    by (simp add: sample_with_extension)
qed

text \<open>The sample parser returns ordered maps and text.\<close>

lemma sample_parser: "parser_ok sample_from_slice"
  by (auto simp: parser_ok_def sample_from_slice_def view_of_def sample_contents_def btree_ok_def ord_of_def
      split: if_splits)

theorem cold_start_resumes_witness:
  "\<exists>(r' :: refresher) r2 ws2 sn2. warm_from_cache sample_runtime id sample_draw (ev_disk sample_event) None
       (refresher_new (rf_key sample_refresher) slot_empty (Some ''/c'') (rf_fs r'))
       = (r2, Loaded 7 True False, ws2) \<and> rf_slot r2 = Some sn2 \<and> sn_version sn2 = 7
     \<and> map_option snd (with_secret clear_aead sn2 ''app/db'' id []) = Some (Inr ''1'')"
proof -
  obtain r' ws where p: "poll_once sample_runtime id (ev_draw sample_event) (ev_disk sample_event)
     (ev_fetch sample_event) sample_refresher = (r', Loaded 7 True False, ws)"
    using sample_loads by blast
  have lib: "aead_total (rt_aead sample_runtime)" "aead_round_trip (rt_aead sample_runtime)"
    "parser_ok (rt_from_slice sample_runtime)"
    by (simp_all add: sample_runtime_def clear_aead_ok sample_parser)
  have cache: "rf_cache_path sample_refresher = Some ''/c''"
    by (simp add: sample_refresher_def refresher_new_def)
  have tmp: "with_extension ''/c'' ''tmp'' \<noteq> ''/c''" by (simp add: sample_with_extension)
  have fill: "d_fill sample_draw = Some (replicate 32 9)" "length (replicate 32 9) = KEY_LEN"
    by (simp_all add: sample_draw_def KEY_LEN_def)
  from cold_start_resumes [OF lib p cache tmp fill, of "ev_disk sample_event" id]
  obtain r2 ws2 opened view sn2 where
    op: "open_file clear_aead sample_from_slice sample_file (rf_key sample_refresher) None = Inr opened"
    and view: "opened_view sample_from_slice opened = Inr view"
    and w: "warm_from_cache sample_runtime id sample_draw (ev_disk sample_event) None
       (refresher_new (rf_key sample_refresher) slot_empty (Some ''/c'') (rf_fs r')) = (r2, Loaded 7 True False, ws2)"
      "rf_slot r2 = Some sn2" "sn_version sn2 = 7"
    and s: "map_option snd (with_secret clear_aead sn2 ''app/db'' id []) = map_option Inr (map_of (v_secrets view) ''app/db'')"
    by (auto simp: sample_event_def sample_runtime_def)
  have "opened = \<lparr>plaintext = [1, 2, 3], opened_version = 7\<rparr>"
    using op open_file_unheld [OF sample_opens] by (simp add: sample_refresher_def refresher_new_def)
  with view have "view = view_of id sample_contents" by (simp add: opened_view_def sample_from_slice_def)
  with s w show ?thesis by (auto simp: view_of_def sample_contents_def)
qed

end
