(* ===== verification/Config.thy ===== *)
theory Config
  imports Vault_Api Refresh
begin

text \<open>
  \<open>src/config\<close>: the schema of the configuration file and its checks (\<open>file.rs\<close>), the layers that
  override it (\<open>overrides.rs\<close>) and the function that merges them (\<open>mod.rs\<close>). Parameters: the YAML
  reader \<open>from_yaml\<close> (the \<open>serde_norway\<close> package), the reading of an address \<open>parse_ip\<close>, the quoting
  of a string for a message \<open>quoted\<close>, the file system and the environment; the theorems hold for all
  of them. Paths are strings; durations are seconds.

  Shown here: the precedence of the layers, field by field; the resolver binds a loopback address
  unless the flag that accepts the risk was given; which command lines are refused; argument
  parsing terminates.
\<close>

section \<open>file.rs\<close>

datatype ip_addr = V4 nat nat nat nat | V6 "nat list"

fun is_loopback :: "ip_addr \<Rightarrow> bool" where
  "is_loopback (V4 a b c d) = (a = 127)"
| "is_loopback (V6 groups) = (groups = [0, 0, 0, 0, 0, 0, 0, 1])"

definition API_VERSION :: string where
  "API_VERSION = ''kallisto/v1''"

definition KIND :: string where
  "KIND = ''Resolver''"

record listen =
  li_address :: "ip_addr option"
  li_port :: "nat option"

record refresh_spec =
  re_interval_seconds :: "nat option"

record limits =
  lm_requests_per_second_per_worker :: "nat option"
  lm_burst :: "nat option"

record log_spec =
  lo_queue_capacity :: "nat option"
  lo_enabled :: "bool option"

datatype source_spec =
    Bucket_Spec string string string string bool
      \<comment> \<open>endpoint, bucket, object key, region, path style\<close>
  | Disk_Spec string

record spec =
  sp_listen :: "listen option"
  sp_workers :: "nat option"
  sp_cpus :: "nat list option"
  sp_mount :: "string option"
  sp_source :: source_spec
  sp_refresh :: "refresh_spec option"
  sp_cache_dir :: "string option"
  sp_limits :: "limits option"
  sp_log :: "log_spec option"

record file_config =
  fc_api_version :: string
  fc_kind :: string
  fc_spec :: spec

definition default_region :: string where
  "default_region = ''auto''"

datatype config_error =
    Usage string
  | Unreadable_File string string
  | Malformed string string
  | ApiVersion string
  | Kind string
  | NotLoopback ip_addr
  | NoWorkers
  | Missing

definition parse_file :: "(string \<Rightarrow> string + file_config) \<Rightarrow> string \<Rightarrow> string \<Rightarrow> config_error + file_config" where
  "parse_file from_yaml contents path =
     (case from_yaml contents of
        Inl e \<Rightarrow> Inl (Malformed path e)
      | Inr f \<Rightarrow>
          if fc_api_version f \<noteq> API_VERSION then Inl (ApiVersion (fc_api_version f))
          else if fc_kind f \<noteq> KIND then Inl (Kind (fc_kind f))
          else Inr f)"

definition read_config_file ::
    "(string \<Rightarrow> string + string) \<Rightarrow> (string \<Rightarrow> string + file_config) \<Rightarrow> string \<Rightarrow> config_error + file_config" where
  "read_config_file read_to_string from_yaml path =
     (case read_to_string path of
        Inl e \<Rightarrow> Inl (Unreadable_File path e)
      | Inr contents \<Rightarrow> parse_file from_yaml contents path)"

section \<open>mod.rs: defaults and the resolved configuration\<close>

definition DEFAULT_PORT :: nat where "DEFAULT_PORT = 8200"

definition DEFAULT_WORKERS :: nat where "DEFAULT_WORKERS = 2"

definition DEFAULT_MOUNT :: string where "DEFAULT_MOUNT = ''secret''"

definition DEFAULT_RPS :: nat where "DEFAULT_RPS = 20000"

definition DEFAULT_LOG_QUEUE :: nat where "DEFAULT_LOG_QUEUE = 8192"

definition DEFAULT_ADDRESS :: ip_addr where "DEFAULT_ADDRESS = V4 127 0 0 1"

definition CACHE_FILE_NAME :: string where "CACHE_FILE_NAME = ''secrets.kal''"

definition SEAL_KEY_ENV :: string where "SEAL_KEY_ENV = ''KALLISTO_SEAL_KEY''"

definition ACCESS_KEY_ENV :: string where "ACCESS_KEY_ENV = ''KALLISTO_S3_ACCESS_KEY_ID''"

definition SECRET_KEY_ENV :: string where "SECRET_KEY_ENV = ''KALLISTO_S3_SECRET_ACCESS_KEY''"

record resolved_log =
  rg_queue_capacity :: nat
  rg_enabled :: bool

datatype source =
    Bucket string string string string bool
  | Disk string

record config =
  cf_listen :: "ip_addr \<times> nat"
  cf_workers :: nat
  cf_cpus :: "nat list option"
  cf_mount :: string
  cf_source :: source
  cf_refresh_interval :: nat
  cf_cache_path :: "string option"
  cf_limits :: resolved_limits
  cf_log :: resolved_log

section \<open>overrides.rs\<close>

definition conf_newline :: string where "conf_newline = [CHR 0x0A]"

definition em_dash :: string where "em_dash = [CHR 0xE2, CHR 0x80, CHR 0x94]"

definition USAGE :: string where
  "USAGE = concat (map (\<lambda>l. l @ conf_newline)
     [''kallisto-server '' @ em_dash @ '' local read-only secrets resolver'',
      '''',
      ''  --config=PATH            YAML configuration (env: KALLISTO_CONFIG)'',
      ''  --listen-address=IP      address to bind          (env: KALLISTO_LISTEN_ADDRESS)'',
      ''  --listen-port=PORT       port to bind             (env: KALLISTO_LISTEN_PORT)'',
      ''  --workers=N              serving threads, one runtime per core (env: KALLISTO_WORKERS)'',
      ''  --cache-dir=PATH         where the encrypted fallback copy is kept (env: KALLISTO_CACHE_DIR)'',
      ''  --refresh-interval-seconds=N'',
      ''                           how often to check the bucket (env: KALLISTO_REFRESH_INTERVAL_SECONDS)'',
      ''  --i-accept-the-risk      permit binding a non-loopback address'',
      ''  -h, --help               show this message'',
      '''',
      ''The seal key is read from KALLISTO_SEAL_KEY, and bucket credentials from'',
      ''KALLISTO_S3_ACCESS_KEY_ID and KALLISTO_S3_SECRET_ACCESS_KEY. None of the three'',
      ''can be given on the command line or written in the configuration file.''])"

record overrides =
  ov_config_path :: "string option"
  ov_address :: "ip_addr option"
  ov_port :: "nat option"
  ov_workers :: "nat option"
  ov_cache_dir :: "string option"
  ov_refresh_interval_seconds :: "nat option"
  ov_accept_risk :: bool

definition overrides_default :: overrides where
  "overrides_default = \<lparr>ov_config_path = None, ov_address = None, ov_port = None, ov_workers = None,
     ov_cache_dir = None, ov_refresh_interval_seconds = None, ov_accept_risk = False\<rparr>"

definition overrides_from_spec :: "spec \<Rightarrow> overrides" where
  "overrides_from_spec s =
     \<lparr>ov_config_path = None,
      ov_address = Option.bind (sp_listen s) li_address,
      ov_port = Option.bind (sp_listen s) li_port,
      ov_workers = sp_workers s,
      ov_cache_dir = sp_cache_dir s,
      ov_refresh_interval_seconds = Option.bind (sp_refresh s) re_interval_seconds,
      ov_accept_risk = False\<rparr>"

definition or_else :: "'a option \<Rightarrow> 'a option \<Rightarrow> 'a option" where
  "or_else a b = (case a of Some x \<Rightarrow> Some x | None \<Rightarrow> b)"

definition overlay :: "overrides \<Rightarrow> overrides \<Rightarrow> overrides" where
  "overlay self other =
     \<lparr>ov_config_path = or_else (ov_config_path other) (ov_config_path self),
      ov_address = or_else (ov_address other) (ov_address self),
      ov_port = or_else (ov_port other) (ov_port self),
      ov_workers = or_else (ov_workers other) (ov_workers self),
      ov_cache_dir = or_else (ov_cache_dir other) (ov_cache_dir self),
      ov_refresh_interval_seconds = or_else (ov_refresh_interval_seconds other) (ov_refresh_interval_seconds self),
      ov_accept_risk = (ov_accept_risk self \<or> ov_accept_risk other)\<rparr>"

text \<open>\<open>parse\<close> is the \<open>FromStr\<close> of the type wanted.\<close>

definition parse_value ::
    "(string \<Rightarrow> string) \<Rightarrow> (string \<Rightarrow> 'a option) \<Rightarrow> string \<Rightarrow> string \<Rightarrow> string \<Rightarrow> config_error + 'a" where
  "parse_value quoted parse flag raw expected =
     (case parse raw of
        Some v \<Rightarrow> Inr v
      | None \<Rightarrow> Inl (Usage (flag @ '' expects '' @ expected @ '', got '' @ quoted raw)))"

definition parse_u16 :: "string \<Rightarrow> nat option" where
  "parse_u16 = parse_unsigned 65535"

definition parse_env ::
    "(string \<Rightarrow> string) \<Rightarrow> (string \<Rightarrow> 'a option) \<Rightarrow> (string \<Rightarrow> string option) \<Rightarrow> string \<Rightarrow> string
       \<Rightarrow> config_error + 'a option" where
  "parse_env quoted parse read var expected =
     (case read var of
        None \<Rightarrow> Inr None
      | Some raw \<Rightarrow>
          (case parse_value quoted parse var raw expected of
             Inl e \<Rightarrow> Inl e
           | Inr v \<Rightarrow> Inr (Some v)))"

definition try_result :: "'e + 'a \<Rightarrow> ('a \<Rightarrow> 'e + 'b) \<Rightarrow> 'e + 'b" where
  "try_result r f = (case r of Inl e \<Rightarrow> Inl e | Inr a \<Rightarrow> f a)"

definition from_env ::
    "(string \<Rightarrow> string) \<Rightarrow> (string \<Rightarrow> ip_addr option) \<Rightarrow> (string \<Rightarrow> string option) \<Rightarrow> config_error + overrides" where
  "from_env quoted parse_ip get =
     (let read = (\<lambda>var. case get var of Some v \<Rightarrow> if v = [] then None else Some v | None \<Rightarrow> None) in
      try_result (parse_env quoted parse_ip read ''KALLISTO_LISTEN_ADDRESS'' ''an IP'') (\<lambda>addr.
      try_result (parse_env quoted parse_u16 read ''KALLISTO_LISTEN_PORT'' ''a port'') (\<lambda>prt.
      try_result (parse_env quoted parse_u64 read ''KALLISTO_WORKERS'' ''a number'') (\<lambda>wrk.
      try_result (parse_env quoted parse_u64 read ''KALLISTO_REFRESH_INTERVAL_SECONDS'' ''a number'') (\<lambda>ris.
      Inr \<lparr>ov_config_path = read ''KALLISTO_CONFIG'', ov_address = addr, ov_port = prt, ov_workers = wrk,
           ov_cache_dir = read ''KALLISTO_CACHE_DIR'', ov_refresh_interval_seconds = ris,
           ov_accept_risk = False\<rparr>)))))"

definition refusal :: "(string \<Rightarrow> string) \<Rightarrow> string \<Rightarrow> config_error" where
  "refusal quoted flag =
     (if flag = ''-h'' \<or> flag = ''--help'' then Usage USAGE
      else if flag = ''--seal-key'' then
        Usage (''the seal key is never a command-line argument '' @ em_dash
          @ '' every process on this host can read those. Set '' @ SEAL_KEY_ENV @ '' instead.'')
      else Usage (''unrecognised argument '' @ quoted flag @ conf_newline @ conf_newline @ USAGE))"

text \<open>The closure that fetches a flag's value, with the arguments that are left.\<close>

definition flag_value :: "string \<Rightarrow> string option \<Rightarrow> string list \<Rightarrow> config_error + (string \<times> string list)" where
  "flag_value flag inline args =
     (case inline of
        Some v \<Rightarrow> Inr (v, args)
      | None \<Rightarrow> (case args of
                  v # rest \<Rightarrow> Inr (v, rest)
                | [] \<Rightarrow> Inl (Usage (flag @ '' requires a value''))))"

definition apply_flag ::
    "(string \<Rightarrow> string) \<Rightarrow> (string \<Rightarrow> ip_addr option) \<Rightarrow> overrides \<Rightarrow> string \<Rightarrow> string option \<Rightarrow> string list
       \<Rightarrow> config_error + (overrides \<times> string list)" where
  "apply_flag quoted parse_ip out flag inline args =
     (if flag = ''--config'' then
        try_result (flag_value flag inline args) (\<lambda>(v, args). Inr (out\<lparr>ov_config_path := Some v\<rparr>, args))
      else if flag = ''--listen-address'' then
        try_result (flag_value flag inline args) (\<lambda>(v, args).
          try_result (parse_value quoted parse_ip flag v ''an IP'') (\<lambda>x. Inr (out\<lparr>ov_address := Some x\<rparr>, args)))
      else if flag = ''--listen-port'' then
        try_result (flag_value flag inline args) (\<lambda>(v, args).
          try_result (parse_value quoted parse_u16 flag v ''a port'') (\<lambda>x. Inr (out\<lparr>ov_port := Some x\<rparr>, args)))
      else if flag = ''--workers'' then
        try_result (flag_value flag inline args) (\<lambda>(v, args).
          try_result (parse_value quoted parse_u64 flag v ''a number'') (\<lambda>x. Inr (out\<lparr>ov_workers := Some x\<rparr>, args)))
      else if flag = ''--cache-dir'' then
        try_result (flag_value flag inline args) (\<lambda>(v, args). Inr (out\<lparr>ov_cache_dir := Some v\<rparr>, args))
      else if flag = ''--refresh-interval-seconds'' then
        try_result (flag_value flag inline args) (\<lambda>(v, args).
          try_result (parse_value quoted parse_u64 flag v ''a number'')
            (\<lambda>x. Inr (out\<lparr>ov_refresh_interval_seconds := Some x\<rparr>, args)))
      else if flag = ''--i-accept-the-risk'' then Inr (out\<lparr>ov_accept_risk := True\<rparr>, args)
      else Inl (refusal quoted flag))"

definition split_flag :: "string \<Rightarrow> string \<times> string option" where
  "split_flag arg = (case split_once (CHR ''='') arg of Some (f, v) \<Rightarrow> (f, Some v) | None \<Rightarrow> (arg, None))"

lemma flag_value_shorter: "flag_value flag inline args = Inr (v, rest) \<Longrightarrow> length rest \<le> length args"
  by (auto simp: flag_value_def split: option.splits list.splits)

lemma apply_flag_shorter:
  "apply_flag quoted parse_ip out flag inline args = Inr (out', rest) \<Longrightarrow> length rest \<le> length args"
  by (auto simp: apply_flag_def try_result_def dest: flag_value_shorter split: if_splits sum.splits prod.splits)

function parse_args ::
    "(string \<Rightarrow> string) \<Rightarrow> (string \<Rightarrow> ip_addr option) \<Rightarrow> overrides \<Rightarrow> string list \<Rightarrow> config_error + overrides" where
  "parse_args quoted parse_ip out [] = Inr out"
| "parse_args quoted parse_ip out (arg # args) =
     (case apply_flag quoted parse_ip out (fst (split_flag arg)) (snd (split_flag arg)) args of
        Inl e \<Rightarrow> Inl e
      | Inr (out, args) \<Rightarrow> parse_args quoted parse_ip out args)"
  by pat_completeness auto
termination
  by (relation "measure (\<lambda>(_, _, _, args). length args)") (auto dest: apply_flag_shorter)

section \<open>mod.rs: merging\<close>

definition bind_address :: "overrides \<Rightarrow> config_error + ip_addr" where
  "bind_address merged =
     (let address = (case ov_address merged of Some a \<Rightarrow> a | None \<Rightarrow> DEFAULT_ADDRESS) in
      if \<not> is_loopback address \<and> \<not> ov_accept_risk merged then Inl (NotLoopback address) else Inr address)"

definition worker_count :: "overrides \<Rightarrow> config_error + nat" where
  "worker_count merged =
     (let workers = (case ov_workers merged of Some w \<Rightarrow> w | None \<Rightarrow> DEFAULT_WORKERS) in
      if workers = 0 then Inl NoWorkers else Inr workers)"

definition refresh_interval :: "overrides \<Rightarrow> nat" where
  "refresh_interval merged =
     (case ov_refresh_interval_seconds merged of Some s \<Rightarrow> s | None \<Rightarrow> DEFAULT_INTERVAL)"

definition limits_from_spec :: "limits option \<Rightarrow> resolved_limits" where
  "limits_from_spec l =
     (let rps = (case Option.bind l lm_requests_per_second_per_worker of Some r \<Rightarrow> r | None \<Rightarrow> DEFAULT_RPS) in
      \<lparr>requests_per_second = rps, burst = (case Option.bind l lm_burst of Some b \<Rightarrow> b | None \<Rightarrow> rps)\<rparr>)"

definition log_from_spec :: "log_spec option \<Rightarrow> resolved_log" where
  "log_from_spec l =
     \<lparr>rg_queue_capacity = max (case Option.bind l lo_queue_capacity of Some c \<Rightarrow> c | None \<Rightarrow> DEFAULT_LOG_QUEUE) 2,
      rg_enabled = (case Option.bind l lo_enabled of Some e \<Rightarrow> e | None \<Rightarrow> True)\<rparr>"

fun source_from :: "source_spec \<Rightarrow> source" where
  "source_from (Bucket_Spec ep bkt key reg style) = Bucket ep bkt key reg style"
| "source_from (Disk_Spec path) = Disk path"

text \<open>\<open>Path::join\<close> with a relative name.\<close>

definition path_join :: "string \<Rightarrow> string \<Rightarrow> string" where
  "path_join dir name = (if dir = [] then name else if ends_with ''/'' dir then dir @ name else dir @ ''/'' @ name)"

definition resolve :: "file_config \<Rightarrow> overrides \<Rightarrow> overrides \<Rightarrow> config_error + config" where
  "resolve f env cli =
     (let s = fc_spec f;
          merged = overlay (overlay (overrides_from_spec s) env) cli
      in try_result (bind_address merged) (\<lambda>address.
         try_result (worker_count merged) (\<lambda>workers.
         Inr \<lparr>cf_listen = (address, case ov_port merged of Some p \<Rightarrow> p | None \<Rightarrow> DEFAULT_PORT),
              cf_workers = workers,
              cf_cpus = sp_cpus s,
              cf_mount = (case sp_mount s of Some m \<Rightarrow> m | None \<Rightarrow> DEFAULT_MOUNT),
              cf_source = source_from (sp_source s),
              cf_refresh_interval = refresh_interval merged,
              cf_cache_path = map_option (\<lambda>dir. path_join dir CACHE_FILE_NAME) (ov_cache_dir merged),
              cf_limits = limits_from_spec (sp_limits s),
              cf_log = log_from_spec (sp_log s)\<rparr>)))"

section \<open>What the layers decide\<close>

text \<open>The command line over the environment over the file over the default.\<close>

definition layered :: "'a option \<Rightarrow> 'a option \<Rightarrow> 'a option \<Rightarrow> 'a \<Rightarrow> 'a" where
  "layered cli env in_file dflt =
     (case cli of Some x \<Rightarrow> x | None \<Rightarrow> (case env of Some x \<Rightarrow> x | None \<Rightarrow> (case in_file of Some x \<Rightarrow> x | None \<Rightarrow> dflt)))"

lemma layered_or_else:
  "(case or_else cli (or_else env fil) of Some x \<Rightarrow> x | None \<Rightarrow> dflt) = layered cli env fil dflt"
  by (auto simp: or_else_def layered_def split: option.splits)

text \<open>
  C36. The layers merge as documented. The address, port, worker count and refresh interval are the
  command line's, else the environment's, else the file's, else the default; resolving fails exactly
  when the address so chosen is not a loopback one and no layer accepted the risk, or there would be
  no workers, and the error names which; the log queue has room for two lines at least and the
  burst defaults to the rate.
\<close>

theorem layers_merge:
  fixes f :: file_config and env cli :: overrides
  defines "s \<equiv> overrides_from_spec (fc_spec f)"
    and "risk \<equiv> ov_accept_risk env \<or> ov_accept_risk cli"
  shows "case resolve f env cli of
      Inl e \<Rightarrow>
        (let address = layered (ov_address cli) (ov_address env) (ov_address s) DEFAULT_ADDRESS in
         \<not> is_loopback address \<and> \<not> risk \<and> e = NotLoopback address
         \<or> (is_loopback address \<or> risk) \<and> e = NoWorkers
           \<and> layered (ov_workers cli) (ov_workers env) (ov_workers s) DEFAULT_WORKERS = 0)
    | Inr c \<Rightarrow>
        cf_listen c = (layered (ov_address cli) (ov_address env) (ov_address s) DEFAULT_ADDRESS,
                       layered (ov_port cli) (ov_port env) (ov_port s) DEFAULT_PORT)
        \<and> (is_loopback (fst (cf_listen c)) \<or> risk)
        \<and> cf_workers c = layered (ov_workers cli) (ov_workers env) (ov_workers s) DEFAULT_WORKERS \<and> 0 < cf_workers c
        \<and> cf_refresh_interval c = layered (ov_refresh_interval_seconds cli) (ov_refresh_interval_seconds env)
            (ov_refresh_interval_seconds s) DEFAULT_INTERVAL
        \<and> 2 \<le> rg_queue_capacity (cf_log c)
        \<and> (Option.bind (sp_limits (fc_spec f)) lm_burst = None \<longrightarrow>
             burst (cf_limits c) = requests_per_second (cf_limits c))"
proof -
  have no_risk: "\<not> ov_accept_risk s" by (simp add: s_def overrides_from_spec_def)
  show ?thesis
    by (auto simp: resolve_def try_result_def bind_address_def worker_count_def refresh_interval_def
        overlay_def layered_or_else Let_def no_risk risk_def s_def [symmetric] log_from_spec_def limits_from_spec_def
        split: sum.splits)
qed

lemma flag_value_rest: "flag_value flag inline args = Inr (v, rest) \<Longrightarrow> set rest \<subseteq> set args"
  by (auto simp: flag_value_def split: option.splits list.splits)

lemma apply_flag_effect:
  assumes "apply_flag quoted parse_ip out flag inline args = Inr (out', rest)"
  shows "set rest \<subseteq> set args" and "ov_accept_risk out' \<longleftrightarrow> ov_accept_risk out \<or> flag = ''--i-accept-the-risk''"
  using assms
  by (auto simp: apply_flag_def try_result_def dest: flag_value_rest split: if_splits sum.splits prod.splits)

lemma parse_args_risk:
  "parse_args quoted parse_ip out args = Inr out' \<Longrightarrow> ov_accept_risk out' \<Longrightarrow>
    ov_accept_risk out \<or> (\<exists>arg \<in> set args. fst (split_flag arg) = ''--i-accept-the-risk'')"
proof (induction quoted parse_ip out args rule: parse_args.induct)
  case (2 quoted parse_ip out arg args)
  from 2(2) obtain out1 rest where a: "apply_flag quoted parse_ip out (fst (split_flag arg)) (snd (split_flag arg)) args = Inr (out1, rest)"
    "parse_args quoted parse_ip out1 rest = Inr out'"
    by (auto split: sum.splits)
  from 2(1) [OF a(1) refl a(2) 2(3)] apply_flag_effect [OF a(1)] show ?case by auto
qed simp

lemma from_env_risk: "from_env quoted parse_ip get = Inr env \<Longrightarrow> \<not> ov_accept_risk env"
  by (auto simp: from_env_def try_result_def Let_def split: sum.splits)

text \<open>
  Loopback unless somebody accepted the risk in writing. Whatever the file, the environment and
  the arguments are, if the program gets as far as a resolved configuration and no argument was the
  flag \<open>--i-accept-the-risk\<close>, the address it will bind is a loopback one. A seal key given as an
  argument is refused.
\<close>

theorem loopback_only:
  assumes "parse_args quoted parse_ip overrides_default args = Inr cli"
    and "from_env quoted parse_ip get = Inr env" and "resolve f env cli = Inr c"
    and "\<forall>arg \<in> set args. fst (split_flag arg) \<noteq> ''--i-accept-the-risk''"
  shows "is_loopback (fst (cf_listen c))
    \<and> (\<forall>out arg rest. fst (split_flag arg) = ''--seal-key'' \<longrightarrow> (\<exists>m. parse_args quoted parse_ip out (arg # rest) = Inl (Usage m)))"
proof
  have "\<not> ov_accept_risk cli"
    using parse_args_risk [OF assms(1)] assms(4) by (auto simp: overrides_default_def)
  with from_env_risk [OF assms(2)] assms(3) show "is_loopback (fst (cf_listen c))"
    by (auto simp: resolve_def try_result_def bind_address_def overlay_def overrides_from_spec_def Let_def
        split: sum.splits if_splits)
qed (simp add: apply_flag_def refusal_def)

text \<open>The flag takes no value, and a value given to it is ignored: this accepts the risk.\<close>

lemma accept_risk_false:
  "parse_args quoted parse_ip overrides_default [''--i-accept-the-risk=false''] =
     Inr (overrides_default\<lparr>ov_accept_risk := True\<rparr>)"
  by (simp add: split_flag_def apply_flag_def)

definition sample_config_file :: file_config where
  "sample_config_file = \<lparr>fc_api_version = API_VERSION, fc_kind = KIND, fc_spec = \<lparr>sp_listen = None, sp_workers = None,
     sp_cpus = None, sp_mount = None, sp_source = Disk_Spec ''/x'', sp_refresh = None, sp_cache_dir = None,
     sp_limits = None, sp_log = None\<rparr>\<rparr>"

theorem layers_merge_witness:
  "\<exists>c. resolve sample_config_file overrides_default (overrides_default\<lparr>ov_workers := Some 4\<rparr>) = Inr c \<and> cf_workers c = 4
     \<and> cf_listen c = (V4 127 0 0 1, 8200) \<and> burst (cf_limits c) = 20000"
proof -
  let ?cli = "overrides_default\<lparr>ov_workers := Some 4\<rparr>"
  obtain c where c: "resolve sample_config_file overrides_default ?cli = Inr c"
    by (simp add: resolve_def try_result_def bind_address_def worker_count_def overlay_def or_else_def
        overrides_default_def overrides_from_spec_def sample_config_file_def DEFAULT_ADDRESS_def Let_def)
  then have "requests_per_second (cf_limits c) = 20000"
    by (auto simp: resolve_def try_result_def Let_def limits_from_spec_def sample_config_file_def DEFAULT_RPS_def split: sum.splits)
  with layers_merge [where f = sample_config_file and env = overrides_default and cli = ?cli] c show ?thesis
    by (simp add: layered_def overrides_default_def overrides_from_spec_def sample_config_file_def DEFAULT_ADDRESS_def DEFAULT_PORT_def)
qed

theorem loopback_only_witness:
  "\<exists>cli env c. parse_args id (\<lambda>_. None) overrides_default [''--workers'', ''3''] = Inr cli
     \<and> from_env id (\<lambda>_. None) (\<lambda>_. None) = Inr env \<and> resolve sample_config_file env cli = Inr c \<and> is_loopback (fst (cf_listen c))"
proof -
  have three: "parse_u64 ''3'' = Some 3"
    by (simp add: parse_u64_def parse_unsigned_def digit_value_def ord_of_def u64_max_def)
  have a: "parse_args id (\<lambda>_. None) overrides_default [''--workers'', ''3''] = Inr (overrides_default\<lparr>ov_workers := Some 3\<rparr>)"
    by (simp add: split_flag_def apply_flag_def try_result_def flag_value_def parse_value_def three)
  have e: "from_env id (\<lambda>_. None) (\<lambda>_. None) = Inr overrides_default"
    by (simp add: from_env_def try_result_def parse_env_def overrides_default_def)
  obtain c where c: "resolve sample_config_file overrides_default (overrides_default\<lparr>ov_workers := Some 3\<rparr>) = Inr c"
    by (simp add: resolve_def try_result_def bind_address_def worker_count_def overlay_def or_else_def
        overrides_default_def overrides_from_spec_def sample_config_file_def DEFAULT_ADDRESS_def Let_def)
  have "\<forall>arg \<in> set [''--workers'', ''3'']. fst (split_flag arg) \<noteq> ''--i-accept-the-risk''"
    by (simp add: split_flag_def)
  from loopback_only [OF a e c this] a e c show ?thesis by blast
qed

end
