(* ===== verification/Cpu_Plan.thy ===== *)
theory Cpu_Plan
  imports Config "HOL-Library.Multiset"
begin

text \<open>
  Starting the workers: which logical CPU each is pinned to (\<open>src/event/cpu_plan.rs\<close>), the listening
  socket (\<open>src/server/listener.rs\<close>) and the worker threads (\<open>src/event/worker.rs\<close>). The topology is
  read from two files of the kernel through a parameter that gives a file's text; the socket calls
  and the thread's start-up are the sequences of calls the code makes, each of which may fail.

  Shown here: a plan stays inside the affinity mask, gives every physical core one worker before
  any core gets a second, and touches the core of CPU 0 last; the kernel's CPU list is read back
  exactly; a worker serves only from a socket bound to the resolved address.
\<close>

section \<open>cpu\_plan.rs\<close>

type_synonym core_id = "nat \<times> nat"

record topology =
  tp_cpus :: "(nat \<times> core_id) list"

fun find_map :: "('a \<Rightarrow> 'b option) \<Rightarrow> 'a list \<Rightarrow> 'b option" where
  "find_map f [] = None"
| "find_map f (x # xs) = (case f x of Some y \<Rightarrow> Some y | None \<Rightarrow> find_map f xs)"

definition cpu_range :: "nat \<Rightarrow> nat \<Rightarrow> nat list" where
  "cpu_range low high = [low..<Suc high]"

definition parse_cpu_part :: "string \<Rightarrow> nat list" where
  "parse_cpu_part part =
     (case split_once (CHR ''-'') part of
        Some (low, high) \<Rightarrow>
          (case (parse_u64 (trim low), parse_u64 (trim high)) of
             (Some low, Some high) \<Rightarrow> cpu_range low high
           | _ \<Rightarrow> [])
      | None \<Rightarrow> (case parse_u64 (trim part) of Some cpu \<Rightarrow> [cpu] | None \<Rightarrow> []))"

definition parse_cpu_list :: "string \<Rightarrow> nat list" where
  "parse_cpu_list l =
     concat (map parse_cpu_part (filter (\<lambda>part. part \<noteq> []) (split_on (CHR '','') (trim l))))"

definition read_usize :: "(string \<Rightarrow> string option) \<Rightarrow> string \<Rightarrow> nat option" where
  "read_usize read path = Option.bind (read path) (\<lambda>t. parse_u64 (trim t))"

definition topology_read :: "(string \<Rightarrow> string option) \<Rightarrow> string \<Rightarrow> string \<Rightarrow> topology" where
  "topology_read read status_path sysfs =
     (let allowed = (case Option.bind (read status_path)
              (\<lambda>t. map_option parse_cpu_list (find_map (strip_prefix ''Cpus_allowed_list:'') (text_lines t))) of
            Some l \<Rightarrow> l | None \<Rightarrow> [])
      in \<lparr>tp_cpus = map (\<lambda>cpu.
            let core = read_usize read (path_join sysfs (''cpu'' @ show_nat cpu @ ''/topology/core_id''));
                package = read_usize read (path_join sysfs (''cpu'' @ show_nat cpu @ ''/topology/physical_package_id''))
            in (cpu, case core of
                       None \<Rightarrow> (u64_max, cpu)
                     | Some core \<Rightarrow> (case package of Some p \<Rightarrow> p | None \<Rightarrow> 0, core))) allowed\<rparr>)"

definition of_this_process :: "(string \<Rightarrow> string option) \<Rightarrow> topology" where
  "of_this_process read = topology_read read ''/proc/self/status'' ''/sys/devices/system/cpu''"

text \<open>The ordered map from cores to their CPUs.\<close>

definition core_less :: "core_id \<Rightarrow> core_id \<Rightarrow> bool" where
  "core_less k k' \<longleftrightarrow> fst k < fst k' \<or> fst k = fst k' \<and> snd k < snd k'"

fun push_cpu :: "core_id \<Rightarrow> nat \<Rightarrow> (core_id \<times> nat list) list \<Rightarrow> (core_id \<times> nat list) list" where
  "push_cpu k cpu [] = [(k, [cpu])]"
| "push_cpu k cpu ((k', g) # m) =
     (if k = k' then (k', g @ [cpu]) # m
      else if core_less k k' then (k, [cpu]) # (k', g) # m
      else (k', g) # push_cpu k cpu m)"

definition by_core :: "(nat \<times> core_id) list \<Rightarrow> (core_id \<times> nat list) list" where
  "by_core cpus = foldl (\<lambda>m (cpu, core). push_cpu core cpu m) [] cpus"

fun position :: "('a \<Rightarrow> bool) \<Rightarrow> 'a list \<Rightarrow> nat option" where
  "position P [] = None"
| "position P (x # xs) = (if P x then Some 0 else map_option Suc (position P xs))"

definition cores :: "topology \<Rightarrow> nat list list" where
  "cores t =
     (let cs = sort_key hd (map snd (by_core (tp_cpus t))) in
      case position (\<lambda>g. 0 \<in> set g) cs of
        Some first \<Rightarrow>
          if length cs > 1 then take first cs @ drop (Suc first) cs @ [cs ! first] else cs
      | None \<Rightarrow> cs)"

definition plan :: "nat \<Rightarrow> topology \<Rightarrow> nat list" where
  "plan workers t =
     (let cs = cores t in
      if cs = [] then []
      else map (\<lambda>worker. let core = cs ! (worker mod length cs) in core ! (worker div length cs mod length core))
        [0..<workers])"

definition plan_from :: "nat \<Rightarrow> nat list \<Rightarrow> nat list" where
  "plan_from workers cpus =
     (if cpus = [] then [] else map (\<lambda>worker. cpus ! (worker mod length cpus)) [0..<workers])"

section \<open>Groups of CPUs\<close>

lemma core_less_order: "core_less a b \<or> a = b \<or> core_less b a" "core_less a b \<Longrightarrow> core_less b c \<Longrightarrow> core_less a c" "\<not> core_less a a"
  by (auto simp: core_less_def prod_eq_iff)

lemma push_cpu_keys: "set (map fst (push_cpu k c m)) = insert k (set (map fst m))"
  by (induction k c m rule: push_cpu.induct) auto

lemma push_cpu_sorted: "sorted_wrt core_less (map fst m) \<Longrightarrow> sorted_wrt core_less (map fst (push_cpu k c m))"
proof (induction k c m rule: push_cpu.induct)
  case (2 k cpu k' g m)
  have "core_less k k''" if "core_less k k'" "k'' \<in> set (map fst m)" for k''
  proof (rule core_less_order(2))
    show "core_less k' k''" using 2(2) that(2) by auto
  qed (rule that(1))
  moreover have "\<forall>k'' \<in> set (map fst (push_cpu k cpu m)). core_less k' k''" if "\<not> core_less k k'" "k \<noteq> k'"
    unfolding push_cpu_keys using 2(2) that core_less_order(1) [of k k'] by auto
  ultimately show ?case using 2 by auto
qed simp

lemma sorted_keys_distinct: "sorted_wrt core_less ks \<Longrightarrow> distinct ks"
  by (induction ks) (auto simp: core_less_order(3))

text \<open>What the ordered map holds after some CPUs were pushed: a partition of them by core.\<close>

definition groups_of :: "(core_id \<times> nat list) list \<Rightarrow> (nat \<times> core_id) set \<Rightarrow> bool" where
  "groups_of m seen \<longleftrightarrow> sorted_wrt core_less (map fst m) \<and> (\<forall>(k, g) \<in> set m. g \<noteq> [])
     \<and> (\<forall>c k. (c, k) \<in> seen \<longleftrightarrow> (\<exists>g. (k, g) \<in> set m \<and> c \<in> set g))"

lemma push_cpu_members:
  "sorted_wrt core_less (map fst m) \<Longrightarrow>
    (\<exists>g. (k', g) \<in> set (push_cpu k c m) \<and> c' \<in> set g) \<longleftrightarrow> (k' = k \<and> c' = c) \<or> (\<exists>g. (k', g) \<in> set m \<and> c' \<in> set g)"
proof (induction k c m rule: push_cpu.induct)
  case (2 k cpu k1 g m)
  then show ?case by (cases "k = k1"; cases "core_less k k1") auto
qed auto

lemma push_cpu_nonempty: "(\<forall>(k, g) \<in> set m. g \<noteq> []) \<Longrightarrow> (\<forall>(k', g) \<in> set (push_cpu k c m). g \<noteq> [])"
  by (induction k c m rule: push_cpu.induct) auto

lemma groups_of_push: "groups_of m seen \<Longrightarrow> groups_of (push_cpu k c m) (insert (c, k) seen)"
  by (auto simp: groups_of_def push_cpu_sorted push_cpu_members dest: push_cpu_nonempty)

lemma groups_of_foldl:
  "groups_of m seen \<Longrightarrow> groups_of (foldl (\<lambda>m (cpu, core). push_cpu core cpu m) m cpus) (set cpus \<union> seen)"
proof (induction cpus arbitrary: m seen)
  case (Cons x cpus)
  obtain c k where "x = (c, k)" by (cases x)
  with Cons.IH [OF groups_of_push [OF Cons.prems, of k c]] show ?case by simp
qed simp

lemma groups_of_by_core: "groups_of (by_core cpus) (set cpus)"
  using groups_of_foldl [of "[]" "{}" cpus] by (simp add: by_core_def groups_of_def)

lemma position_Some: "position P xs = Some i \<Longrightarrow> i < length xs \<and> P (xs ! i)"
  by (induction xs arbitrary: i) (auto split: if_splits)

lemma position_None: "position P xs = None \<longleftrightarrow> (\<forall>x \<in> set xs. \<not> P x)"
  by (induction xs) auto

lemma mset_rotate_out: "i < length xs \<Longrightarrow> mset (take i xs @ drop (Suc i) xs @ [xs ! i]) = mset xs"
proof -
  assume "i < length xs"
  then have "mset xs = mset (take i xs @ xs ! i # drop (Suc i) xs)" by (simp only: id_take_nth_drop [symmetric])
  then show ?thesis by simp
qed

lemma cores_mset: "mset (cores t) = mset (map snd (by_core (tp_cpus t)))"
proof -
  let ?cs = "sort_key hd (map snd (by_core (tp_cpus t)))"
  have "mset (cores t) = mset ?cs"
    using mset_rotate_out [of _ ?cs] position_Some [of "\<lambda>g. 0 \<in> set g" ?cs]
    by (auto simp: cores_def Let_def split: option.splits)
  then show ?thesis by simp
qed

section \<open>The plan\<close>

lemma by_core_iff: "(c, k) \<in> set cpus \<longleftrightarrow> (\<exists>g. (k, g) \<in> set (by_core cpus) \<and> c \<in> set g)"
  using groups_of_by_core [of cpus] unfolding groups_of_def by blast

lemma by_core_nonempty: "(k, g) \<in> set (by_core cpus) \<Longrightarrow> g \<noteq> []"
  using groups_of_by_core [of cpus] unfolding groups_of_def by blast

lemma by_core_distinct: "distinct (map fst (by_core cpus))"
  using groups_of_by_core [of cpus] unfolding groups_of_def by (blast intro: sorted_keys_distinct)

lemma by_core_entry:
  assumes "distinct (map fst cpus)" and "(k, g) \<in> set (by_core cpus)" and "c \<in> set g"
  shows "map_of cpus c = Some k"
proof -
  have "(c, k) \<in> set cpus" using assms(2,3) by_core_iff by blast
  with assms(1) show ?thesis by (rule map_of_is_SomeI)
qed

lemma by_core_keys: "set (map fst (by_core cpus)) = snd ` set cpus"
proof (intro equalityI subsetI)
  fix k assume "k \<in> set (map fst (by_core cpus))"
  then obtain g where g: "(k, g) \<in> set (by_core cpus)" by auto
  then have "hd g \<in> set g" using by_core_nonempty by auto
  with g have "(hd g, k) \<in> set cpus" using by_core_iff by blast
  then show "k \<in> snd ` set cpus" by (rule image_eqI [rotated]) simp
next
  fix k assume "k \<in> snd ` set cpus"
  then obtain c where "(c, k) \<in> set cpus" by auto
  then obtain g where "(k, g) \<in> set (by_core cpus)" using by_core_iff by blast
  then show "k \<in> set (map fst (by_core cpus))" by (metis fst_conv image_eqI list.set_map)
qed

definition core_of :: "topology \<Rightarrow> nat \<Rightarrow> core_id" where
  "core_of t c = the (map_of (tp_cpus t) c)"

lemma length_cores: "length (cores t) = card (snd ` set (tp_cpus t))"
proof -
  have "distinct (map fst (by_core (tp_cpus t)))" by (rule by_core_distinct)
  then have "length (by_core (tp_cpus t)) = card (set (map fst (by_core (tp_cpus t))))"
    using distinct_card by fastforce
  moreover have "length (cores t) = length (by_core (tp_cpus t))"
    using cores_mset [of t] by (metis length_map size_mset)
  ultimately show ?thesis by (simp only: by_core_keys)
qed

lemma cores_group:
  assumes "distinct (map fst (tp_cpus t))" and "g \<in> set (cores t)"
  shows "\<exists>k. (k, g) \<in> set (by_core (tp_cpus t)) \<and> g \<noteq> [] \<and> (\<forall>c \<in> set g. c \<in> fst ` set (tp_cpus t) \<and> core_of t c = k)"
proof -
  have "g \<in> set (map snd (by_core (tp_cpus t)))" using assms(2) cores_mset [of t] by (metis set_mset_mset)
  then obtain k where k: "(k, g) \<in> set (by_core (tp_cpus t))" by auto
  moreover have "g \<noteq> []" using k by (rule by_core_nonempty)
  moreover have "c \<in> fst ` set (tp_cpus t) \<and> core_of t c = k" if "c \<in> set g" for c
    using by_core_entry [OF assms(1) k that] by (force simp: core_of_def dest: map_of_SomeD)
  ultimately show ?thesis by blast
qed

lemma cores_distinct:
  assumes d: "distinct (map fst (tp_cpus t))"
  shows "distinct (cores t)"
proof -
  let ?m = "by_core (tp_cpus t)"
  have keys: "distinct (map fst ?m)" by (rule by_core_distinct)
  have "inj_on snd (set ?m)"
  proof (rule inj_onI)
    fix x y assume xy: "x \<in> set ?m" "y \<in> set ?m" "snd x = snd y"
    have "(fst x, snd x) \<in> set ?m" using xy(1) by simp
    then have h: "hd (snd x) \<in> set (snd x)" using by_core_nonempty hd_in_set by blast
    have "map_of (tp_cpus t) (hd (snd x)) = Some (fst x)" using by_core_entry [OF d _ h, of "fst x"] xy(1) by simp
    moreover have "map_of (tp_cpus t) (hd (snd x)) = Some (fst y)"
      using by_core_entry [OF d, of "fst y" "snd y"] xy h by simp
    ultimately have "fst x = fst y" by simp
    with xy(3) show "x = y" by (simp add: prod_eq_iff)
  qed
  moreover have "distinct ?m" using keys by (simp add: distinct_map)
  ultimately have "distinct (map snd ?m)" by (simp add: distinct_map)
  with cores_mset [of t] show ?thesis using mset_eq_imp_distinct_iff by blast
qed

lemma cores_key_inj:
  assumes d: "distinct (map fst (tp_cpus t))" and "a < length (cores t)" and "b < length (cores t)"
    and "c \<in> set (cores t ! a)" and "e \<in> set (cores t ! b)"
  shows "core_of t c = core_of t e \<longleftrightarrow> a = b"
proof -
  obtain k where k: "(k, cores t ! a) \<in> set (by_core (tp_cpus t))" "core_of t c = k"
    using cores_group [OF d nth_mem [OF assms(2)]] assms(4) by blast
  obtain l where l: "(l, cores t ! b) \<in> set (by_core (tp_cpus t))" "core_of t e = l"
    using cores_group [OF d nth_mem [OF assms(3)]] assms(5) by blast
  have keys: "distinct (map fst (by_core (tp_cpus t)))" by (rule by_core_distinct)
  show ?thesis
  proof
    assume "core_of t c = core_of t e"
    then have "cores t ! a = cores t ! b" using k l keys by (metis eq_key_imp_eq_value)
    then show "a = b" using cores_distinct [OF d] assms(2,3) by (simp add: nth_eq_iff_index_eq)
  next
    assume "a = b"
    with k l cores_group [OF d nth_mem [OF assms(2)]] assms(4,5) show "core_of t c = core_of t e" by metis
  qed
qed

lemma plan_nth:
  assumes "i < workers" and "cores t \<noteq> []" and "distinct (map fst (tp_cpus t))"
  shows "plan workers t ! i \<in> set (cores t ! (i mod length (cores t)))"
proof -
  let ?g = "cores t ! (i mod length (cores t))"
  have "?g \<in> set (cores t)" using assms(2) by simp
  then have "?g \<noteq> []" using cores_group [OF assms(3)] by blast
  then have "?g ! (i div length (cores t) mod length ?g) \<in> set ?g" by simp
  with assms show ?thesis by (simp add: plan_def Let_def)
qed

lemma zero_last:
  assumes d: "distinct (map fst (tp_cpus t))" and "a < length (cores t)" and "0 \<in> set (cores t ! a)"
  shows "a = length (cores t) - 1"
proof -
  let ?cs = "sort_key hd (map snd (by_core (tp_cpus t)))"
  have "mset ?cs = mset (cores t)" by (simp add: cores_mset)
  then have eq: "set ?cs = set (cores t)" "length ?cs = length (cores t)"
    by (metis set_mset_mset, metis size_mset)
  have "cores t ! a \<in> set ?cs" using assms(2) eq by simp
  then obtain i where i: "position (\<lambda>g. 0 \<in> set g) ?cs = Some i"
    using position_None [of "\<lambda>g. 0 \<in> set g" ?cs] assms(3) by fastforce
  show ?thesis
  proof (cases "length ?cs > 1")
    case True
    then have c: "cores t = take i ?cs @ drop (Suc i) ?cs @ [?cs ! i]" using i by (simp add: cores_def Let_def)
    then have "last (cores t) = ?cs ! i" "cores t \<noteq> []" by (metis last_append last_snoc append_is_Nil_conv not_Cons_self2)+
    then have "0 \<in> set (cores t ! (length (cores t) - 1))"
      using position_Some [OF i] by (simp add: last_conv_nth)
    with cores_key_inj [OF d assms(2), of "length (cores t) - 1" 0 0] assms(2,3) show ?thesis by auto
  qed (use assms(2) eq in linarith)
qed

text \<open>
  The plan of the workers. For any topology of distinct CPUs, with \<open>n\<close> physical cores, every
  worker is pinned to a CPU of the affinity mask; two workers share a physical core exactly when
  their numbers agree modulo \<open>n\<close>, so no core has a second worker before every core has a first; and
  a worker is put on the core of CPU 0 only after all the other cores were used in its round.
\<close>

theorem plan_spreads:
  assumes "distinct (map fst (tp_cpus t))" and "tp_cpus t \<noteq> []"
  shows "let n = card (snd ` set (tp_cpus t)); p = plan workers t in
      length p = workers \<and> set p \<subseteq> fst ` set (tp_cpus t)
      \<and> (\<forall>i j. i < workers \<and> j < workers \<longrightarrow> (core_of t (p ! i) = core_of t (p ! j) \<longleftrightarrow> i mod n = j mod n))
      \<and> (\<forall>i. i < workers \<and> 0 \<in> fst ` set (tp_cpus t) \<and> core_of t (p ! i) = core_of t 0 \<longrightarrow> i mod n = n - 1)"
proof -
  have n: "length (cores t) = card (snd ` set (tp_cpus t))" by (rule length_cores)
  then have ne: "cores t \<noteq> []" using assms(2) by auto
  have len: "length (plan workers t) = workers" using ne by (simp add: plan_def Let_def)
  note nth = plan_nth [OF _ ne assms(1)]
  have lt: "i mod length (cores t) < length (cores t)" for i using ne by simp
  have sub: "set (plan workers t) \<subseteq> fst ` set (tp_cpus t)"
  proof
    fix c assume "c \<in> set (plan workers t)"
    then obtain i where "i < workers" "c = plan workers t ! i" by (auto simp: in_set_conv_nth len)
    with nth [of i] cores_group [OF assms(1) nth_mem [OF lt [of i]]] show "c \<in> fst ` set (tp_cpus t)" by blast
  qed
  have share: "core_of t (plan workers t ! i) = core_of t (plan workers t ! j) \<longleftrightarrow> i mod length (cores t) = j mod length (cores t)"
    if "i < workers" "j < workers" for i j
    using cores_key_inj [OF assms(1) lt lt nth [OF that(1)] nth [OF that(2)]] .
  have zero: "i mod length (cores t) = length (cores t) - 1"
    if i: "i < workers" and z: "0 \<in> fst ` set (tp_cpus t)" and c: "core_of t (plan workers t ! i) = core_of t 0" for i
  proof -
    obtain k where "(0, k) \<in> set (tp_cpus t)" using z by force
    then obtain g where "(k, g) \<in> set (by_core (tp_cpus t))" "0 \<in> set g"
      using by_core_iff by blast
    moreover have "set (map snd (by_core (tp_cpus t))) = set (cores t)" using cores_mset [of t] by (metis set_mset_mset)
    ultimately obtain a where a: "a < length (cores t)" "0 \<in> set (cores t ! a)"
      by (metis in_set_conv_nth imageI list.set_map snd_conv)
    then have "i mod length (cores t) = a"
      using cores_key_inj [OF assms(1) lt a(1) nth [OF i] a(2)] c by blast
    with zero_last [OF assms(1) a] show ?thesis by simp
  qed
  show ?thesis unfolding Let_def n [symmetric] using len sub share zero by blast
qed

definition sample_topology :: topology where
  "sample_topology = \<lparr>tp_cpus = [(0, (0, 0)), (1, (0, 0)), (2, (0, 1)), (3, (0, 1))]\<rparr>"

theorem plan_spreads_witness:
  "length (plan 3 sample_topology) = 3 \<and> core_of sample_topology (plan 3 sample_topology ! 0) = core_of sample_topology (plan 3 sample_topology ! 2)"
proof -
  have "distinct (map fst (tp_cpus sample_topology))" "tp_cpus sample_topology \<noteq> []"
    by (simp_all add: sample_topology_def)
  note spread = plan_spreads [OF this, of 3]
  have "card (snd ` set (tp_cpus sample_topology)) = 2" by (simp add: sample_topology_def)
  with spread show ?thesis by (simp add: Let_def)
qed

section \<open>The kernel's CPU list\<close>

definition show_cpu_range :: "nat \<times> nat \<Rightarrow> string" where
  "show_cpu_range r = (if fst r = snd r then show_nat (fst r) else show_nat (fst r) @ ''-'' @ show_nat (snd r))"

lemma show_nat_solid: "c \<in> set (show_nat n) \<Longrightarrow> solid c"
  by (auto dest!: show_nat_digits simp: solid_def)

lemma show_cpu_range_chars: "c \<in> set (show_cpu_range r) \<Longrightarrow> solid c \<and> c \<noteq> CHR '',''"
  by (auto simp: show_cpu_range_def solid_def ord_of_def dest!: show_nat_digits split: if_splits)

lemma parse_cpu_part_show:
  assumes "fst r \<le> snd r" and "snd r \<le> u64_max"
  shows "parse_cpu_part (show_cpu_range r) = cpu_range (fst r) (snd r)"
proof -
  have t: "trim (show_nat n) = show_nat n" for n by (rule trim_all_solid) (rule show_nat_solid)
  have p: "parse_u64 (show_nat n) = Some n" if "n \<le> u64_max" for n using that by (simp add: parse_u64_def)
  have no: "CHR ''-'' \<notin> set (show_nat n)" for n by (auto dest!: show_nat_digits simp: ord_of_def)
  show ?thesis
  proof (cases "fst r = snd r")
    case True
    with assms no [of "fst r"] show ?thesis
      by (simp add: parse_cpu_part_def show_cpu_range_def split_once_None [THEN iffD2] t p cpu_range_def)
  next
    case False
    have "split_once (CHR ''-'') (show_nat (fst r) @ CHR ''-'' # show_nat (snd r)) = Some (show_nat (fst r), show_nat (snd r))"
      using no by (simp add: str_iffs)
    with assms False show ?thesis by (simp add: parse_cpu_part_def show_cpu_range_def t p)
  qed
qed

text \<open>
  The affinity mask is read exactly. A list of CPU ranges as the kernel writes it, single
  numbers and ranges separated by commas, with any white space around it, is read back as exactly
  those CPUs in that order.
\<close>

theorem cpu_list_round_trip:
  assumes "rs \<noteq> []" and "\<forall>r \<in> set rs. fst r \<le> snd r \<and> snd r \<le> u64_max"
    and "set v \<subseteq> set white_space" and "set w \<subseteq> set white_space"
  shows "parse_cpu_list (concat v @ join_with '','' (map show_cpu_range rs) @ concat w) =
    concat (map (\<lambda>r. cpu_range (fst r) (snd r)) rs)"
proof -
  let ?l = "join_with '','' (map show_cpu_range rs)"
  have ne: "show_cpu_range r \<noteq> []" for r by (simp add: show_cpu_range_def)
  have split: "split_on (CHR '','') ?l = map show_cpu_range rs"
    using assms(1) show_cpu_range_chars by (intro split_on_join) auto
  have "?l \<noteq> []"
  proof
    assume "?l = []"
    with split have "map show_cpu_range rs = [[]]" by simp
    then show False using ne by (metis list.map_disc_iff list.simps(9) list.inject neq_Nil_conv)
  qed
  moreover have "solid c" if "c \<in> set ?l" for c
  proof -
    have "set ?l \<subseteq> insert (CHR '','') (\<Union>r \<in> set rs. set (show_cpu_range r))"
      by (induction rs) (auto simp: join_with_def)
    with that show_cpu_range_chars show ?thesis by (auto simp: solid_def ord_of_def)
  qed
  ultimately have "trim (concat v @ ?l @ concat w) = ?l"
    using assms(3,4) by (intro trim_surrounded) auto
  then have "parse_cpu_list (concat v @ ?l @ concat w) = concat (map parse_cpu_part (map show_cpu_range rs))"
    using split ne by (simp add: parse_cpu_list_def filter_True)
  also have "map parse_cpu_part (map show_cpu_range rs) = map (\<lambda>r. cpu_range (fst r) (snd r)) rs"
    using assms(2) parse_cpu_part_show by simp
  finally show ?thesis .
qed

theorem cpu_list_round_trip_witness:
  "parse_cpu_list ([CHR 0x09] @ ''0-3,6'') = [0, 1, 2, 3, 6]"
proof -
  have r: "map show_cpu_range [(0, 3), (6, 6)] = [''0-3'', ''6'']"
    by code_simp
  have "[CHR 0x09] \<in> set white_space" by code_simp
  then have w: "set [[CHR 0x09]] \<subseteq> set white_space" by simp
  have "\<forall>r \<in> set [(0, 3), (6, 6)]. fst r \<le> snd r \<and> snd r \<le> u64_max" by (simp add: u64_max_def)
  from cpu_list_round_trip [OF _ this w, of "[]"] show ?thesis
    unfolding r by (simp add: join_with_def cpu_range_def upt_rec)
qed

section \<open>listener.rs\<close>

datatype socket_call = New_Socket bool | Reuse_Port | Reuse_Address | No_Delay | Non_Blocking
  | Bind "ip_addr \<times> nat" | Listen_On nat

text \<open>Calls in order, up to the first that fails; the calls that succeeded and the error.\<close>

fun run_calls :: "('c \<Rightarrow> 'e option) \<Rightarrow> 'c list \<Rightarrow> 'c list \<times> 'e option" where
  "run_calls fails [] = ([], None)"
| "run_calls fails (c # cs) =
     (case fails c of
        Some e \<Rightarrow> ([], Some e)
      | None \<Rightarrow> (case run_calls fails cs of (made, e) \<Rightarrow> (c # made, e)))"

definition is_ipv6 :: "ip_addr \<times> nat \<Rightarrow> bool" where
  "is_ipv6 sa = (case fst sa of V4 _ _ _ _ \<Rightarrow> False | V6 _ \<Rightarrow> True)"

definition bind_reuseport :: "ip_addr \<times> nat \<Rightarrow> socket_call list" where
  "bind_reuseport sa =
     [New_Socket (is_ipv6 sa), Reuse_Port, Reuse_Address, No_Delay, Non_Blocking, Bind sa, Listen_On 1024]"

section \<open>worker.rs\<close>

datatype worker_call = Pin nat | Build_Runtime | Socket socket_call | Set_Non_Blocking | From_Std
  | Make_Router nat | Serve

text \<open>
  What the thread of one worker does, in order; each call after pinning panics the thread when it
  fails. The result of pinning is ignored, so that call counts as one that never fails.
\<close>

definition worker_calls :: "nat \<Rightarrow> ip_addr \<times> nat \<Rightarrow> nat option \<Rightarrow> worker_call list" where
  "worker_calls worker_idx sa pin =
     (case pin of Some cpu \<Rightarrow> [Pin cpu] | None \<Rightarrow> [])
     @ [Build_Runtime] @ map Socket (bind_reuseport sa)
     @ [Set_Non_Blocking, From_Std, Make_Router worker_idx, Serve]"

definition worker_pin :: "nat list \<Rightarrow> nat \<Rightarrow> nat option" where
  "worker_pin pins i = (if i < length pins then Some (pins ! i) else None)"

definition worker_pool :: "nat \<Rightarrow> ip_addr \<times> nat \<Rightarrow> nat list \<Rightarrow> (string \<times> worker_call list) list" where
  "worker_pool num_workers sa pins =
     map (\<lambda>i. (''wrk:'' @ show_nat i, worker_calls i sa (worker_pin pins i))) [0..<num_workers]"

lemma run_calls_prefix: "fst (run_calls fails cs) = takeWhile (\<lambda>c. fails c = None) cs"
proof (induction cs)
  case (Cons c cs)
  then show ?case by (cases "fails c") (simp_all add: case_prod_beta)
qed simp

lemma takeWhile_reached:
  assumes "x \<in> set (takeWhile P (pre @ x # post))" and "x \<notin> set pre"
  shows "\<forall>y \<in> set pre. P y"
proof (rule ccontr)
  assume "\<not> (\<forall>y \<in> set pre. P y)"
  then obtain y where "y \<in> set pre" "\<not> P y" by blast
  then have "takeWhile P (pre @ x # post) = takeWhile P pre" by (rule takeWhile_append1)
  with assms(1) have "x \<in> set (takeWhile P pre)" by (simp only:)
  then show False using assms(2) by (blast dest: set_takeWhileD)
qed

text \<open>
  A worker that serves has bound exactly the given address, with the port shared, and built the
  router of its own index; it is pinned as planned.
\<close>

lemma worker_serves:
  assumes "i < num_workers" and "Serve \<in> set (fst (run_calls fails (snd (worker_pool num_workers sa pins ! i))))"
  shows "fails (Socket (Bind sa)) = None \<and> fails (Socket Reuse_Port) = None \<and> fails (Make_Router i) = None"
proof -
  let ?pre = "(case worker_pin pins i of Some cpu \<Rightarrow> [Pin cpu] | None \<Rightarrow> []) @ [Build_Runtime]
     @ map Socket (bind_reuseport sa) @ [Set_Non_Blocking, From_Std, Make_Router i]"
  have "snd (worker_pool num_workers sa pins ! i) = ?pre @ Serve # []"
    using assms(1) by (simp add: worker_pool_def worker_calls_def)
  then have "Serve \<in> set (takeWhile (\<lambda>c. fails c = None) (?pre @ Serve # []))"
    using assms(2) by (simp only: run_calls_prefix)
  moreover have "Serve \<notin> set ?pre" by (cases "worker_pin pins i") auto
  ultimately have "\<forall>c \<in> set ?pre. fails c = None" by (rule takeWhile_reached)
  then show ?thesis by (simp add: bind_reuseport_def)
qed

end
