(* ===== verification/Server_Main.thy ===== *)
theory Server_Main
  imports Vault_Serve Cpu_Plan
begin

text \<open>
  \<open>cmd/kallisto-server/src/main.rs\<close>: how the resolver is put together. \<open>run\<close> is modelled up to
  the point where it waits for its workers: its result is the assembled server, or why it did not
  start, with the notes printed to standard error, in order; \<open>None\<close> is a panic. The refresh thread
  is modelled over the wake-ups it has had so far.

  Parameters: the machine (arguments, environment, files, the YAML and URL readers, the system
  generator, the outcome of building an HTTP client) and, for the refresh thread, what the
  components below it take.

  Shown here: a server that starts is sealed, listens where the configuration allows, and every
  worker's state satisfies the invariant the request handlers rely on; the refresh thread never
  rolls back, from its cold start on, and counts every failed poll.
\<close>

section \<open>main.rs: starting\<close>

datatype startup_problem =
    Config_Failed config_error
  | Seal_Key_Missing
  | Seal_Key_Bad key_error
  | Endpoint_Bad string string
  | Credential_Missing string
  | Bucket_Failed bucket_error

datatype startup = Startup_Usage string | Startup_Failed startup_problem

definition from_config_error :: "config_error + 'a \<Rightarrow> startup + 'a" where
  "from_config_error r =
     (case r of
        Inl (Usage message) \<Rightarrow> Inl (Startup_Usage message)
      | Inl other \<Rightarrow> Inl (Startup_Failed (Config_Failed other))
      | Inr a \<Rightarrow> Inr a)"

datatype server_note =
    Hardening_Incomplete hardening
  | Serving string "ip_addr \<times> nat" nat string
  | Log_Disabled
  | Workers_Not_Pinned
  | Worker_Cpus "nat list"
  | Loaded_From u64 string
  | No_Token_Table
  | Fallback_Not_Written
  | Refused_File string refresh_error
  | Source_Unavailable string source_error

datatype secret_source = Disk_Source string | Bucket_Source bucket_source

fun source_describe :: "secret_source \<Rightarrow> string" where
  "source_describe (Disk_Source path) = disk_describe path"
| "source_describe (Bucket_Source b) = bs_description b"

record machine =
  mc_args :: "string list"
  mc_var :: "string \<Rightarrow> string option"
  mc_read :: "string \<Rightarrow> string + string"
  mc_from_yaml :: "string \<Rightarrow> string + file_config"
  mc_parse_ip :: "string \<Rightarrow> ip_addr option"
  mc_parse_url :: "string \<Rightarrow> string + url"
  mc_quoted :: "string \<Rightarrow> string"
  mc_client_error :: "string option"
  mc_random :: "bytes option"
  mc_system :: "string \<Rightarrow> string option"
  mc_platform :: platform
  mc_setrlimit :: int
  mc_prctl :: int
  mc_files :: fs

definition main_env :: "machine \<Rightarrow> string \<Rightarrow> string option" where
  "main_env m name = (case mc_var m name of Some v \<Rightarrow> if v = [] then None else Some v | None \<Rightarrow> None)"

definition build_source :: "machine \<Rightarrow> config \<Rightarrow> startup + secret_source" where
  "build_source m cfg =
     (case cf_source cfg of
        Disk path \<Rightarrow> Inr (Disk_Source path)
      | Bucket endpoint bucket object_key reg path_style \<Rightarrow>
          (case mc_parse_url m endpoint of
             Inl e \<Rightarrow> Inl (Startup_Failed (Endpoint_Bad endpoint e))
           | Inr url \<Rightarrow>
               (case main_env m ACCESS_KEY_ENV of
                  None \<Rightarrow> Inl (Startup_Failed (Credential_Missing ACCESS_KEY_ENV))
                | Some access_id \<Rightarrow>
                    (case main_env m SECRET_KEY_ENV of
                       None \<Rightarrow> Inl (Startup_Failed (Credential_Missing SECRET_KEY_ENV))
                     | Some access_secret \<Rightarrow>
                         (case bucket_new (mc_client_error m)
                             \<lparr>bc_endpoint = url, bc_bucket = bucket, bc_region = reg, bc_object_key = object_key,
                              bc_path_style = path_style, bc_access_key_id = access_id,
                              bc_secret_access_key = access_secret\<rparr> of
                            Inl e \<Rightarrow> Inl (Startup_Failed (Bucket_Failed e))
                          | Inr b \<Rightarrow> Inr (Bucket_Source b))))))"

definition worker_cpus :: "machine \<Rightarrow> config \<Rightarrow> nat list \<times> server_note list" where
  "worker_cpus m cfg =
     (let pins = (case cf_cpus cfg of
                    Some cpus \<Rightarrow> plan_from (cf_workers cfg) cpus
                  | None \<Rightarrow> plan (cf_workers cfg) (of_this_process (mc_system m)))
      in (pins, [if pins = [] then Workers_Not_Pinned else Worker_Cpus pins]))"

definition main_seal_key :: "machine \<Rightarrow> startup + seal_key" where
  "main_seal_key m =
     (case main_env m SEAL_KEY_ENV of
        None \<Rightarrow> Inl (Startup_Failed Seal_Key_Missing)
      | Some hex \<Rightarrow>
          (case key_from_hex hex of
             Inl e \<Rightarrow> Inl (Startup_Failed (Seal_Key_Bad e))
           | Inr key \<Rightarrow> Inr key))"

text \<open>The part of \<open>run\<close> before the first note but the hardening's: the configuration and the key.\<close>

definition main_config :: "machine \<Rightarrow> startup + config" where
  "main_config m =
     try_result (from_config_error (parse_args (mc_quoted m) (mc_parse_ip m) overrides_default (mc_args m))) (\<lambda>cli.
     try_result (from_config_error (from_env (mc_quoted m) (mc_parse_ip m) (main_env m))) (\<lambda>environment.
     case or_else (ov_config_path cli) (ov_config_path environment) of
       None \<Rightarrow> from_config_error (Inl Missing)
     | Some path \<Rightarrow>
         try_result (from_config_error (read_config_file (mc_read m) (mc_from_yaml m) path)) (\<lambda>f.
         from_config_error (resolve f environment cli))))"

record server =
  sv_config :: config
  sv_source :: secret_source
  sv_writer :: bool
  sv_refresher :: refresher
  sv_resolver :: resolver
  sv_pool :: "(string \<times> worker_call list) list"

definition start_refresher :: "machine \<Rightarrow> config \<Rightarrow> seal_key \<Rightarrow> refresher" where
  "start_refresher m cfg key = every (refresher_new key slot_empty (cf_cache_path cfg) (mc_files m)) (cf_refresh_interval cfg)"

definition run_main :: "machine \<Rightarrow> ((startup + server) \<times> server_note list) option" where
  "run_main m =
     (let h = harden_process (mc_platform m) (mc_setrlimit m) (mc_prctl m);
          hardened = (if hardening_complete h then [] else [Hardening_Incomplete h])
      in case try_result (main_config m) (\<lambda>cfg. try_result (main_seal_key m) (\<lambda>key.
            try_result (build_source m cfg) (\<lambda>src. Inr (cfg, key, src)))) of
           Inl e \<Rightarrow> Some (Inl e, hardened)
         | Inr (cfg, key, src) \<Rightarrow>
             Option.bind (with_log (mc_random m) (rg_queue_capacity (cf_log cfg)) (cf_workers cfg) (rg_enabled (cf_log cfg))) (\<lambda>tm.
             let pins = worker_cpus m cfg in
             Some (Inr \<lparr>sv_config = cfg, sv_source = src, sv_writer = rg_enabled (cf_log cfg),
                        sv_refresher = start_refresher m cfg key,
                        sv_resolver = \<lparr>rv_slot = slot_empty, rv_mount = cf_mount cfg, rv_limits = cf_limits cfg, rv_telemetry = tm\<rparr>,
                        sv_pool = worker_pool (cf_workers cfg) (cf_listen cfg) (fst pins)\<rparr>,
               hardened @ [Serving (cf_mount cfg) (cf_listen cfg) (cf_workers cfg) (source_describe src)]
               @ (if rg_enabled (cf_log cfg) then [] else [Log_Disabled]) @ snd pins)))"

text \<open>\<open>main\<close> for a server that did not start: the exit code, and whether it speaks on standard output.\<close>

fun startup_exit :: "startup \<Rightarrow> nat \<times> bool" where
  "startup_exit (Startup_Usage _) = (2, True)"
| "startup_exit (Startup_Failed _) = (1, False)"

section \<open>main.rs: the refresh thread\<close>

fun report :: "string \<Rightarrow> tick \<Rightarrow> nat \<Rightarrow> nat \<times> server_note list" where
  "report origin (Loaded version cached enf) failures =
     (failures, [Loaded_From version origin] @ (if enf then [] else [No_Token_Table])
        @ (if cached then [] else [Fallback_Not_Written]))"
| "report origin Unchanged failures = (failures, [])"
| "report origin (Rejected e) failures = ((failures + 1) mod 2 ^ 64, [Refused_File origin e])"
| "report origin (SourceDown e) failures = ((failures + 1) mod 2 ^ 64, [Source_Unavailable origin e])"

fun report_all :: "(string \<times> tick) list \<Rightarrow> nat \<Rightarrow> nat \<times> server_note list" where
  "report_all [] failures = (failures, [])"
| "report_all ((origin, t) # ts) failures =
     (case report origin t failures of (failures, ns) \<Rightarrow>
        (case report_all ts failures of (failures, ns') \<Rightarrow> (failures, ns @ ns')))"

text \<open>The thread after its cold start, its first poll and the wake-ups \<open>es\<close> of its loop.\<close>

record cold_start =
  cs_draw :: draw
  cs_disk :: disk_outcome
  cs_io_error :: "string option"

definition refresh_ticks ::
    "runtime \<Rightarrow> (string \<Rightarrow> string) \<Rightarrow> cold_start \<Rightarrow> event \<Rightarrow> event list \<Rightarrow> refresher \<Rightarrow> refresher \<times> (string \<times> tick) list" where
  "refresh_ticks rt quoted cs first es r =
     (case warm_from_cache rt quoted (cs_draw cs) (cs_disk cs) (cs_io_error cs) r of (r, warm, _) \<Rightarrow>
     (case poll_once rt quoted (ev_draw first) (ev_disk first) (ev_fetch first) r of (r, polled, _) \<Rightarrow>
     (case run_loop rt quoted r es of (r, ticks) \<Rightarrow>
        (r, (''cache'', warm) # (''source'', polled) # map (Pair ''source'') ticks))))"

definition refresh_thread ::
    "runtime \<Rightarrow> (string \<Rightarrow> string) \<Rightarrow> cold_start \<Rightarrow> event \<Rightarrow> event list \<Rightarrow> refresher \<Rightarrow> nat
       \<Rightarrow> refresher \<times> nat \<times> server_note list" where
  "refresh_thread rt quoted cs first es r failures =
     (case refresh_ticks rt quoted cs first es r of (r, ticks) \<Rightarrow>
        (case report_all ticks failures of (failures, notes) \<Rightarrow> (r, failures, notes)))"

section \<open>A server that started\<close>

lemma from_config_error_Inr [simp]: "from_config_error r = Inr x \<longleftrightarrow> r = Inr x"
  by (auto simp: from_config_error_def split: sum.splits config_error.splits)

lemma try_result_Inr [simp]: "try_result r f = Inr y \<longleftrightarrow> (\<exists>x. r = Inr x \<and> f x = Inr y)"
  by (auto simp: try_result_def split: sum.splits)

lemma main_config_Inr:
  assumes "main_config m = Inr cfg"
  obtains cli environment f where "parse_args (mc_quoted m) (mc_parse_ip m) overrides_default (mc_args m) = Inr cli"
    "from_env (mc_quoted m) (mc_parse_ip m) (main_env m) = Inr environment" "resolve f environment cli = Inr cfg"
  using assms by (auto simp: main_config_def split: option.splits)

lemma run_main_Inr:
  assumes "run_main m = Some (Inr sv, notes)"
  obtains key tm where "main_config m = Inr (sv_config sv)" "main_seal_key m = Inr key" "build_source m (sv_config sv) = Inr (sv_source sv)"
    "with_log (mc_random m) (rg_queue_capacity (cf_log (sv_config sv))) (cf_workers (sv_config sv)) (rg_enabled (cf_log (sv_config sv))) = Some tm"
    "sv_resolver sv = \<lparr>rv_slot = slot_empty, rv_mount = cf_mount (sv_config sv), rv_limits = cf_limits (sv_config sv), rv_telemetry = tm\<rparr>"
    "sv_refresher sv = start_refresher m (sv_config sv) key" "sv_writer sv = rg_enabled (cf_log (sv_config sv))"
    "sv_pool sv = worker_pool (cf_workers (sv_config sv)) (cf_listen (sv_config sv)) (fst (worker_cpus m (sv_config sv)))"
  using assms by (auto simp: run_main_def Let_def bind_eq_Some_conv split: sum.splits prod.splits)

lemma resolve_workers: "resolve f environment cli = Inr c \<Longrightarrow> 0 < cf_workers c"
  by (auto simp: resolve_def worker_count_def Let_def split: if_splits)

lemma with_enabled_ok:
  assumes "with_enabled capacity workers enabled = Some lg" and "workers \<le> 2 ^ 64"
  shows "log_ok lg \<and> length (al_producers lg) = max workers 1"
proof -
  obtain cap q where "queue_new (max cap 2) = Some q" "al_queue lg = q"
    and p: "al_producers lg = map (\<lambda>worker. \<lparr>p_sequence = 0, p_dropped = 0, p_worker = worker, p_enabled = enabled\<rparr>) [0..<max workers 1]"
    using assms(1) by (auto simp: with_enabled_def bind_eq_Some_conv)
  then have "queue_holds (al_queue lg) (max cap 2) []" using queue_new_rep by (auto intro: queue_holdsI)
  with p assms(2) show ?thesis by (auto simp: log_ok_def)
qed

lemma with_log_ok:
  assumes "with_log random capacity workers enabled = Some tm" and "workers \<le> 2 ^ 64"
  shows "log_ok (tm_log tm) \<and> length (al_producers (tm_log tm)) = max workers 1 \<and> length (tm_workers tm) = max workers 1
    \<and> tm_refresh_failures tm = 0"
  using assms with_enabled_ok [of capacity "max workers 1" enabled "tm_log tm"]
  by (auto simp: with_log_def Let_def bind_eq_Some_conv)

lemma started_worker_ok:
  assumes "run_main m = Some (Inr sv, ns)" and "cf_workers (sv_config sv) \<le> 2 ^ 64"
  shows "serve_ok (worker_state (sv_resolver sv) i)"
proof -
  obtain tm where tm: "with_log (mc_random m) (rg_queue_capacity (cf_log (sv_config sv))) (cf_workers (sv_config sv)) (rg_enabled (cf_log (sv_config sv))) = Some tm"
    and rv: "sv_resolver sv = \<lparr>rv_slot = slot_empty, rv_mount = cf_mount (sv_config sv), rv_limits = cf_limits (sv_config sv), rv_telemetry = tm\<rparr>"
    using assms(1) by (rule run_main_Inr)
  from with_log_ok [OF tm assms(2)] show ?thesis
    by (simp add: serve_ok_def worker_state_def rv slot_empty_def slot_ok_def log_producer_def scratch_is_wiped_def Let_def)
qed

lemma started_counters:
  assumes "run_main m = Some (Inr sv, ns)"
  shows "tm_workers (rv_telemetry (sv_resolver sv)) = replicate (max (cf_workers (sv_config sv)) 1) worker_metrics_default"
proof -
  obtain tm where "with_log (mc_random m) (rg_queue_capacity (cf_log (sv_config sv))) (cf_workers (sv_config sv)) (rg_enabled (cf_log (sv_config sv))) = Some tm"
    and rv: "rv_telemetry (sv_resolver sv) = tm"
    using assms by (elim run_main_Inr) simp
  then show ?thesis unfolding rv by (auto simp: with_log_def Let_def bind_eq_Some_conv)
qed

text \<open>
  C9. A server that starts is ready to be correct. It has decoded a seal key from the environment;
  it serves nothing yet; unless the risk was accepted on the command line it listens on a loopback
  address only; it has at least one worker, each of which binds the configured address under a name
  of its own and, when it serves, does so with the router of its own index; and the state each
  worker begins with satisfies the invariant of request handling.
\<close>

theorem server_starts:
  assumes "run_main m = Some (Inr sv, notes)" and "cf_workers (sv_config sv) \<le> 2 ^ 64"
  shows "(\<exists>key. main_seal_key m = Inr key \<and> rf_key (sv_refresher sv) = key)
    \<and> rf_slot (sv_refresher sv) = None \<and> rv_slot (sv_resolver sv) = None
    \<and> ((\<forall>arg \<in> set (mc_args m). fst (split_flag arg) \<noteq> ''--i-accept-the-risk'') \<longrightarrow> is_loopback (fst (cf_listen (sv_config sv))))
    \<and> 0 < length (sv_pool sv) \<and> length (sv_pool sv) = cf_workers (sv_config sv) \<and> distinct (map fst (sv_pool sv))
    \<and> (\<forall>i < length (sv_pool sv). Socket (Bind (cf_listen (sv_config sv))) \<in> set (snd (sv_pool sv ! i))
         \<and> (\<forall>fails. Serve \<in> set (fst (run_calls fails (snd (sv_pool sv ! i)))) \<longrightarrow>
              fails (Socket (Bind (cf_listen (sv_config sv)))) = None \<and> fails (Make_Router i) = None)
         \<and> serve_ok (worker_state (sv_resolver sv) i))"
proof -
  let ?c = "sv_config sv"
  obtain key tm where cfg: "main_config m = Inr ?c" and key: "main_seal_key m = Inr key"
    and rv: "sv_resolver sv = \<lparr>rv_slot = slot_empty, rv_mount = cf_mount ?c, rv_limits = cf_limits ?c, rv_telemetry = tm\<rparr>"
    and rf: "sv_refresher sv = start_refresher m ?c key"
    and pool: "sv_pool sv = worker_pool (cf_workers ?c) (cf_listen ?c) (fst (worker_cpus m ?c))"
    using assms(1) by (rule run_main_Inr)
  obtain cli environment f where args: "parse_args (mc_quoted m) (mc_parse_ip m) overrides_default (mc_args m) = Inr cli"
    and env: "from_env (mc_quoted m) (mc_parse_ip m) (main_env m) = Inr environment" and res: "resolve f environment cli = Inr ?c"
    using cfg by (rule main_config_Inr)
  have risk: "is_loopback (fst (cf_listen ?c))" if "\<forall>arg \<in> set (mc_args m). fst (split_flag arg) \<noteq> ''--i-accept-the-risk''"
    using loopback_only [OF args env res that] by blast
  have len: "length (sv_pool sv) = cf_workers ?c" "0 < cf_workers ?c"
    using resolve_workers [OF res] by (simp_all add: pool worker_pool_def)
  have names: "distinct (map fst (sv_pool sv))"
    by (simp add: pool worker_pool_def distinct_map inj_on_def comp_def)
  have bind: "Socket (Bind (cf_listen ?c)) \<in> set (snd (sv_pool sv ! i))" if "i < cf_workers ?c" for i
    using that by (simp add: pool worker_pool_def worker_calls_def bind_reuseport_def)
  have serves: "fails (Socket (Bind (cf_listen ?c))) = None \<and> fails (Make_Router i) = None"
    if "i < cf_workers ?c" "Serve \<in> set (fst (run_calls fails (snd (sv_pool sv ! i))))" for i fails
    using worker_serves [OF that(1) that(2) [unfolded pool]] by simp
  have "serve_ok (worker_state (sv_resolver sv) i)" for i using assms by (rule started_worker_ok)
  with key rf rv risk len names bind serves show ?thesis
    by (simp add: start_refresher_def every_def refresher_new_def slot_empty_def) blast
qed

section \<open>The refresh thread\<close>

fun tick_failed :: "tick \<Rightarrow> bool" where
  "tick_failed (Rejected _) = True"
| "tick_failed (SourceDown _) = True"
| "tick_failed _ = False"

lemma report_all_failures:
  "failures < 2 ^ 64 \<Longrightarrow>
     fst (report_all ticks failures) = (failures + length (filter (tick_failed \<circ> snd) ticks)) mod 2 ^ 64"
proof (induction ticks arbitrary: failures)
  case (Cons x ticks)
  obtain origin t where x: "x = (origin, t)" by fastforce
  obtain f ns where r: "report origin t failures = (f, ns)" by fastforce
  then have f: "f = (failures + (if tick_failed t then 1 else 0)) mod 2 ^ 64" using Cons(2) by (cases t) auto
  then have "f < 2 ^ 64" by simp
  from Cons(1) [OF this] r f show ?case
    by (simp add: x case_prod_beta mod_add_left_eq)
qed simp

lemma warm_authentic:
  assumes "aead_authentic (rt_aead rt)" and "served_authentic rt key r"
    and "warm_from_cache rt quoted dr disk io r = (r', t, ws)"
  shows "served_authentic rt key r'"
proof -
  have "served_authentic rt key r'" if a: "adopt rt quoted dr disk r bs None None False = (r', t, ws)" for bs
  proof (cases "\<exists>v c e. t = Loaded v c e")
    case True
    then obtain v c e where t: "t = Loaded v c e" by blast
    from adopt_loaded [OF a [unfolded t] assms(1)] assms(2) adopt_key [OF a]
    show ?thesis by (auto simp: served_authentic_def)
  next
    case False
    with adopt_not_loaded [OF a] assms(2) adopt_key [OF a] show ?thesis by (auto simp: served_authentic_def)
  qed
  with assms(2,3) show ?thesis
    by (auto simp: warm_from_cache_def Let_def split: option.splits fetched.splits)
qed

lemma refresh_ticks_parts:
  assumes "refresh_ticks rt quoted cs first es r = (r', ticks)"
  obtains r1 warm ws polled ticks' where "warm_from_cache rt quoted (cs_draw cs) (cs_disk cs) (cs_io_error cs) r = (r1, warm, ws)"
    "r' = fst (run_loop rt quoted r1 (first # es))" "snd (run_loop rt quoted r1 (first # es)) = polled # ticks'"
    "ticks = (''cache'', warm) # map (Pair ''source'') (polled # ticks')"
  using assms by (auto simp: refresh_ticks_def split: prod.splits)

lemma run_loop_ticks: "length (snd (run_loop rt quoted r es)) = length es"
  by (induction es arbitrary: r) (auto split: prod.splits, metis snd_conv)

text \<open>From a new process on, whatever is served authenticates, and the cache's version is a floor.\<close>

lemma refresh_ticks_authentic:
  assumes "aead_authentic (rt_aead rt)" and "refresh_ticks rt quoted cs first es (start_refresher m cfg key) = (r, ticks)"
  shows "served_authentic rt key r
    \<and> slot_version (rf_slot (fst (warm_from_cache rt quoted (cs_draw cs) (cs_disk cs) (cs_io_error cs) (start_refresher m cfg key))))
        \<le> slot_version (rf_slot r)"
proof -
  let ?r0 = "start_refresher m cfg key"
  obtain r1 warm ws where warm: "warm_from_cache rt quoted (cs_draw cs) (cs_disk cs) (cs_io_error cs) ?r0 = (r1, warm, ws)"
    and loop: "r = fst (run_loop rt quoted r1 (first # es))"
    using assms(2) by (rule refresh_ticks_parts)
  have "served_authentic rt key ?r0"
    by (simp add: served_authentic_def start_refresher_def every_def refresher_new_def slot_empty_def)
  from warm_authentic [OF assms(1) this warm] have "served_authentic rt key r1" .
  then have "served_authentic rt key r" "slot_version (rf_slot r1) \<le> slot_version (rf_slot r)"
    using poll_loop.run_level [of r1 rt quoted "first # es"] poll_loop.run_inv [of rt key r1 quoted "first # es"] assms(1)
    unfolding loop run_loop_foldl by blast+
  with warm show ?thesis by simp
qed

text \<open>
  C8. The refresh thread. From a new process on, through its cold start from the cache and all its
  polls, the thread serves only tables of files that authenticate under the seal key, and never a
  version below the one the cache gave it. It reports one tick for the cache and one for each poll,
  and the counter behind \<open>kallisto_refresh_failures_total\<close> grows, modulo its width, by exactly the
  number of refused files and unavailable sources among them.
\<close>

theorem refresh_thread_sound:
  assumes "aead_authentic (rt_aead rt)" and "failures < 2 ^ 64"
    and run: "refresh_thread rt quoted cs first es (start_refresher m cfg key) failures = (r, failures', notes)"
  shows "served_authentic rt key r
    \<and> slot_version (rf_slot (fst (warm_from_cache rt quoted (cs_draw cs) (cs_disk cs) (cs_io_error cs) (start_refresher m cfg key))))
        \<le> slot_version (rf_slot r)
    \<and> (\<exists>ticks. refresh_ticks rt quoted cs first es (start_refresher m cfg key) = (r, ticks)
        \<and> length ticks = length es + 2 \<and> map fst ticks = ''cache'' # replicate (Suc (length es)) ''source''
        \<and> failures' = (failures + length (filter (tick_failed \<circ> snd) ticks)) mod 2 ^ 64)"
proof -
  let ?r0 = "start_refresher m cfg key"
  obtain ticks where t: "refresh_ticks rt quoted cs first es ?r0 = (r, ticks)" and f: "failures' = fst (report_all ticks failures)"
    using run by (auto simp: refresh_thread_def split: prod.splits)
  obtain r1 warm polled ticks' where loop: "snd (run_loop rt quoted r1 (first # es)) = polled # ticks'"
    and ticks: "ticks = (''cache'', warm) # map (Pair ''source'') (polled # ticks')"
    using t by (rule refresh_ticks_parts)
  have "length (polled # ticks') = Suc (length es)" using run_loop_ticks [of rt quoted r1 "first # es"] loop by simp
  then show ?thesis
    using refresh_ticks_authentic [OF assms(1) t] t f ticks report_all_failures [OF assms(2), of ticks]
    by (simp add: comp_def map_replicate_const)
qed

text \<open>Without a cache directory, every start counts one failure, even when all is well.\<close>

lemma no_cache_counts:
  assumes "cf_cache_path cfg = None"
  shows "fst (snd (refresh_ticks rt quoted cs first es (start_refresher m cfg key)) ! 0) = ''cache''
    \<and> tick_failed (snd (snd (refresh_ticks rt quoted cs first es (start_refresher m cfg key)) ! 0))"
  using assms by (auto simp: refresh_ticks_def warm_from_cache_def start_refresher_def every_def refresher_new_def split: prod.splits)

section \<open>Starting does not panic\<close>

lemma next_power_of_two_total:
  assumes "n \<le> 2 ^ 63"
  obtains k where "next_power_of_two n = Some (2 ^ k)" "k < 64"
proof -
  let ?ks = "filter (\<lambda>k. n \<le> 2 ^ k) [0..<64]"
  have "63 \<in> set ?ks" using assms by simp
  then obtain k ks where ks: "?ks = k # ks" by (cases ?ks) auto
  then have "k \<in> set ?ks" by (simp only: list.set_intros)
  then have "k < 64" by simp
  moreover have "next_power_of_two n = Some (2 ^ k)" by (simp only: next_power_of_two_def ks list.case)
  ultimately show ?thesis using that by blast
qed

lemma with_log_total:
  assumes "capacity \<le> 2 ^ 63"
  shows "\<exists>tm. with_log (Some bs) capacity workers enabled = Some tm"
proof -
  obtain k where k: "next_power_of_two capacity = Some (2 ^ k)" "k < 64" using assms by (rule next_power_of_two_total)
  have "is_power_of_two (max (2 ^ k) 2)"
  proof (cases k)
    case (Suc j)
    then have "max (2 ^ k) 2 = (2 ^ k :: nat)" by simp
    with k(2) show ?thesis unfolding is_power_of_two_def by (metis atLeastLessThan_upt atLeastLessThan_iff zero_le)
  next
    case 0
    then show ?thesis unfolding is_power_of_two_def by (intro bexI [of _ 1]) simp_all
  qed
  then obtain q :: "line queue" where "queue_new (max (2 ^ k) 2) = Some q" by (simp add: queue_new_def)
  with k show ?thesis by (simp add: with_log_def with_enabled_def log_key_random_def Let_def)
qed

text \<open>Only a failing system generator or a log queue of more than \<open>2 ^ 63\<close> lines makes \<open>run\<close> panic.\<close>

lemma run_main_total:
  assumes "mc_random m = Some bs" and "\<And>cfg. main_config m = Inr cfg \<Longrightarrow> rg_queue_capacity (cf_log cfg) \<le> 2 ^ 63"
  shows "\<exists>r notes. run_main m = Some (r, notes)"
proof -
  have "\<exists>tm. with_log (mc_random m) (rg_queue_capacity (cf_log cfg)) workers enabled = Some tm" if "main_config m = Inr cfg" for cfg workers enabled
    using with_log_total assms that by simp
  then show ?thesis
    by (auto simp: run_main_def Let_def bind_eq_Some_conv split: sum.splits prod.splits)
qed

section \<open>Examples\<close>

definition sample_machine :: machine where
  "sample_machine = \<lparr>mc_args = [''--config'', ''/k''], mc_var = [SEAL_KEY_ENV \<mapsto> encode (replicate 32 9)], mc_read = \<lambda>_. Inr [],
     mc_from_yaml = \<lambda>_. Inr sample_config_file, mc_parse_ip = \<lambda>_. None, mc_parse_url = Inl, mc_quoted = id, mc_client_error = None,
     mc_random = Some (replicate 32 1), mc_system = \<lambda>_. None, mc_platform = Linux, mc_setrlimit = 0, mc_prctl = 0, mc_files = Map.empty\<rparr>"

lemma sample_configured:
  "\<exists>cfg. main_config sample_machine = Inr cfg \<and> cf_workers cfg = 2 \<and> cf_source cfg = Disk ''/x'' \<and> rg_queue_capacity (cf_log cfg) = 8192"
proof -
  have a: "parse_args id (\<lambda>_. None) overrides_default [''--config'', ''/k''] = Inr (overrides_default\<lparr>ov_config_path := Some ''/k''\<rparr>)"
    by (simp add: split_flag_def apply_flag_def try_result_def flag_value_def)
  have e: "from_env id (\<lambda>_. None) (main_env sample_machine) = Inr overrides_default"
    by (simp add: from_env_def try_result_def parse_env_def overrides_default_def main_env_def sample_machine_def SEAL_KEY_ENV_def)
  show ?thesis
    using a e by (simp add: main_config_def sample_machine_def or_else_def try_result_def from_config_error_def read_config_file_def parse_file_def
        sample_config_file_def resolve_def bind_address_def worker_count_def overlay_def overrides_default_def overrides_from_spec_def
        DEFAULT_ADDRESS_def DEFAULT_WORKERS_def log_from_spec_def DEFAULT_LOG_QUEUE_def Let_def)
qed

lemma sample_main_key: "main_seal_key sample_machine = Inr (SealKey (replicate 32 9))"
proof -
  have "key_from_hex (encode (replicate 32 9)) = Inr (SealKey (replicate 32 9))" by code_simp
  moreover have "encode (replicate 32 (9 :: u8)) \<noteq> []" by code_simp
  ultimately show ?thesis by (simp add: main_seal_key_def main_env_def sample_machine_def)
qed

lemma sample_starts:
  "\<exists>sv notes. run_main sample_machine = Some (Inr sv, notes) \<and> cf_workers (sv_config sv) = 2"
proof -
  obtain cfg where cfg: "main_config sample_machine = Inr cfg" "cf_workers cfg = 2" "cf_source cfg = Disk ''/x''"
    "rg_queue_capacity (cf_log cfg) = 8192" using sample_configured by blast
  have src: "build_source sample_machine cfg = Inr (Disk_Source ''/x'')" by (simp add: build_source_def cfg)
  obtain tm where "with_log (mc_random sample_machine) 8192 2 (rg_enabled (cf_log cfg)) = Some tm"
    using with_log_total [of 8192 "replicate 32 1" 2] by (auto simp: sample_machine_def)
  with cfg sample_main_key src show ?thesis by (simp add: run_main_def try_result_def Let_def)
qed

theorem server_starts_witness:
  "\<exists>sv notes. run_main sample_machine = Some (Inr sv, notes) \<and> length (sv_pool sv) = 2
     \<and> is_loopback (fst (cf_listen (sv_config sv))) \<and> serve_ok (worker_state (sv_resolver sv) 1)"
proof -
  obtain sv ns where r: "run_main sample_machine = Some (Inr sv, ns)" and w: "cf_workers (sv_config sv) = 2"
    using sample_starts by blast
  have "\<forall>arg \<in> set (mc_args sample_machine). fst (split_flag arg) \<noteq> ''--i-accept-the-risk''"
    by (simp add: sample_machine_def split_flag_def)
  moreover have "cf_workers (sv_config sv) \<le> 2 ^ 64" using w by simp
  ultimately show ?thesis using server_starts [OF r] r w by (auto dest!: spec [of _ "Suc 0"])
qed

theorem refresh_thread_sound_witness:
  "\<exists>cfg r failures' ns. main_config sample_machine = Inr cfg
     \<and> refresh_thread sample_runtime id \<lparr>cs_draw = sample_draw, cs_disk = ev_disk sample_event, cs_io_error = None\<rparr>
         sample_event [] (start_refresher sample_machine cfg (SealKey (replicate 32 9))) 5 = (r, failures', ns)
     \<and> served_authentic sample_runtime (SealKey (replicate 32 9)) r"
proof -
  obtain cfg where cfg: "main_config sample_machine = Inr cfg" using sample_configured by blast
  obtain r failures' ns where run: "refresh_thread sample_runtime id
      \<lparr>cs_draw = sample_draw, cs_disk = ev_disk sample_event, cs_io_error = None\<rparr> sample_event []
      (start_refresher sample_machine cfg (SealKey (replicate 32 9))) 5 = (r, failures', ns)"
    by (metis prod_cases3)
  have "aead_authentic (rt_aead sample_runtime)" by (simp add: sample_runtime_def clear_aead_ok)
  from refresh_thread_sound [OF this _ run] cfg run show ?thesis by auto
qed

end
