(* ===== verification/Ctl_Args.thy ===== *)
theory Ctl_Args
  imports Config
begin

text \<open>
  \<open>cmd/kallisto-ctl/src/args.rs\<close>: the flag parser of the offline tool. Ordered maps are association
  lists in key order; the separator of repeated values is the character with code one.

  Shown here: policies given on the command line come out as they were given, and a key is refused
  wherever it stands.
\<close>

section \<open>args.rs\<close>

record ctl_args =
  ca_command :: string
  ca_values :: "(string \<times> string) list"
  ca_flags :: "string list"

datatype arg_error = ArgError string

definition TAKES_VALUE :: "string list" where
  "TAKES_VALUE = [''--in'', ''--out'', ''--config'', ''--version'', ''--to'', ''--policy'']"

fun bt_insert :: "string \<Rightarrow> 'v \<Rightarrow> (string \<times> 'v) list \<Rightarrow> (string \<times> 'v) list" where
  "bt_insert k v [] = [(k, v)]"
| "bt_insert k v ((k', v') # m) =
     (if k = k' then (k, v) # m else if k < k' then (k, v) # (k', v') # m else (k', v') # bt_insert k v m)"

definition bt_push :: "string \<Rightarrow> 'v \<Rightarrow> (string \<times> 'v list) list \<Rightarrow> (string \<times> 'v list) list" where
  "bt_push k v m = bt_insert k ((case map_of m k of Some vs \<Rightarrow> vs | None \<Rightarrow> []) @ [v]) m"

definition policy_separator :: char where
  "policy_separator = CHR 0x01"

definition key_refusal :: "string \<Rightarrow> arg_error" where
  "key_refusal flag = ArgError (flag @ '' is never a command-line argument '' @ em_dash
     @ '' every process on this host can read those. Set the environment variable instead.'')"

text \<open>The loop, with the values, the bare flags and all values of each flag so far.\<close>

fun ctl_parse_loop ::
    "(string \<Rightarrow> string) \<Rightarrow> (string \<times> string) list \<Rightarrow> string list \<Rightarrow> (string \<times> string list) list \<Rightarrow> string list
       \<Rightarrow> arg_error + (string \<times> string) list \<times> string list \<times> (string \<times> string list) list" where
  "ctl_parse_loop quoted vals flags repeated [] = Inr (vals, flags, repeated)"
| "ctl_parse_loop quoted vals flags repeated (arg # rest) =
     (let flag = fst (split_flag arg); inline = snd (split_flag arg) in
      if flag = ''--seal-key'' \<or> flag = ''--token-key'' then Inl (key_refusal flag)
      else if flag \<in> set TAKES_VALUE then
        (case inline of
           Some v \<Rightarrow> ctl_parse_loop quoted (bt_insert flag v vals) flags (bt_push flag v repeated) rest
         | None \<Rightarrow>
             (case rest of
                v # rest' \<Rightarrow> ctl_parse_loop quoted (bt_insert flag v vals) flags (bt_push flag v repeated) rest'
              | [] \<Rightarrow> Inl (ArgError (flag @ '' requires a value''))))
      else if starts_with ''--'' flag then
        (if inline \<noteq> None then Inl (ArgError (flag @ '' does not take a value''))
         else ctl_parse_loop quoted vals (flags @ [flag]) repeated rest)
      else Inl (ArgError (''unexpected argument '' @ quoted flag)))"

definition ctl_parse :: "(string \<Rightarrow> string) \<Rightarrow> string list \<Rightarrow> arg_error + ctl_args" where
  "ctl_parse quoted args =
     (case args of
        [] \<Rightarrow> Inl (ArgError ''no command given'')
      | command # rest \<Rightarrow>
          try_result (ctl_parse_loop quoted [] [] [] rest) (\<lambda>(vals, flags, repeated).
            let vals = (case map_of repeated ''--policy'' of
                          Some policies \<Rightarrow> bt_insert ''--policy'' (join_with [policy_separator] policies) vals
                        | None \<Rightarrow> vals)
            in Inr \<lparr>ca_command = command, ca_values = vals, ca_flags = flags\<rparr>))"

definition arg_value :: "ctl_args \<Rightarrow> string \<Rightarrow> string option" where
  "arg_value a flag = map_of (ca_values a) flag"

definition arg_required :: "ctl_args \<Rightarrow> string \<Rightarrow> arg_error + string" where
  "arg_required a flag =
     (case arg_value a flag of Some v \<Rightarrow> Inr v | None \<Rightarrow> Inl (ArgError (flag @ '' is required'')))"

definition arg_number :: "(string \<Rightarrow> string) \<Rightarrow> ctl_args \<Rightarrow> string \<Rightarrow> arg_error + nat option" where
  "arg_number quoted a flag =
     (case arg_value a flag of
        None \<Rightarrow> Inr None
      | Some raw \<Rightarrow>
          (case parse_u64 raw of
             Some n \<Rightarrow> Inr (Some n)
           | None \<Rightarrow> Inl (ArgError (flag @ '' expects a number, got '' @ quoted raw))))"

definition arg_list :: "ctl_args \<Rightarrow> string \<Rightarrow> string list" where
  "arg_list a flag = (case arg_value a flag of Some joined \<Rightarrow> split_on policy_separator joined | None \<Rightarrow> [])"

definition arg_has :: "ctl_args \<Rightarrow> string \<Rightarrow> bool" where
  "arg_has a flag \<longleftrightarrow> flag \<in> set (ca_flags a)"

fun reject_loop :: "(string \<Rightarrow> string) \<Rightarrow> string list \<Rightarrow> string list \<Rightarrow> arg_error + unit" where
  "reject_loop quoted known [] = Inr ()"
| "reject_loop quoted known (flag # rest) =
     (if flag \<notin> set known then Inl (ArgError (''unrecognised argument '' @ quoted flag))
      else reject_loop quoted known rest)"

definition reject_unknown :: "(string \<Rightarrow> string) \<Rightarrow> ctl_args \<Rightarrow> string list \<Rightarrow> arg_error + unit" where
  "reject_unknown quoted a known = reject_loop quoted known (ca_flags a @ map fst (ca_values a))"

section \<open>What comes out of a command line\<close>

lemma map_of_bt_insert: "map_of (bt_insert k v m) k' = (if k' = k then Some v else map_of m k')"
  by (induction k v m rule: bt_insert.induct) auto

lemma bt_insert_keys: "set (map fst (bt_insert k v m)) = insert k (set (map fst m))"
  by (induction k v m rule: bt_insert.induct) auto

lemma map_of_bt_push:
  "map_of (bt_push k v m) k' = (if k' = k then Some ((case map_of m k of Some vs \<Rightarrow> vs | None \<Rightarrow> []) @ [v]) else map_of m k')"
  by (simp add: bt_push_def map_of_bt_insert)

text \<open>Every value of a flag, in order, as the arguments spell it.\<close>

fun given :: "string \<Rightarrow> string list \<Rightarrow> string list" where
  "given flag [] = []"
| "given flag (arg # rest) =
     (let f = fst (split_flag arg) in
      if f \<in> set TAKES_VALUE then
        (case snd (split_flag arg) of
           Some v \<Rightarrow> (if f = flag then [v] else []) @ given flag rest
         | None \<Rightarrow> (case rest of v # rest' \<Rightarrow> (if f = flag then [v] else []) @ given flag rest' | [] \<Rightarrow> []))
      else given flag rest)"

definition all_of :: "(string \<times> 'v list) list \<Rightarrow> string \<Rightarrow> 'v list" where
  "all_of m k = (case map_of m k of Some vs \<Rightarrow> vs | None \<Rightarrow> [])"

lemma all_of_push: "all_of (bt_push k v m) k' = all_of m k' @ (if k' = k then [v] else [])"
  by (simp add: all_of_def map_of_bt_push split: option.splits)

lemma parse_loop_given:
  "ctl_parse_loop quoted vals flags repeated args = Inr (vals', flags', repeated') \<Longrightarrow>
     all_of repeated' flag = all_of repeated flag @ given flag args
     \<and> map_of vals' flag = (if given flag args = [] then map_of vals flag else Some (last (given flag args)))
     \<and> (map_of repeated' flag = None \<longleftrightarrow> map_of repeated flag = None \<and> given flag args = [])"
proof (induction quoted vals flags repeated args rule: ctl_parse_loop.induct)
  case (2 quoted vals flags repeated arg rest)
  let ?f = "fst (split_flag arg)" and ?i = "snd (split_flag arg)"
  have key: "\<not> (?f = ''--seal-key'' \<or> ?f = ''--token-key'')"
    using 2(4) by (auto simp: Let_def)
  show ?case
  proof (cases "?f \<in> set TAKES_VALUE")
    case True
    show ?thesis
    proof (cases ?i)
      case (Some v)
      from 2(2) [OF refl refl key True Some] 2(4) key True Some show ?thesis
        by (auto simp: Let_def all_of_push map_of_bt_insert map_of_bt_push)
    next
      case None
      with 2(4) key True obtain v rest' where r: "rest = v # rest'" by (cases rest) (auto simp: Let_def)
      from 2(1) [OF refl refl key True None r] 2(4) key True None r show ?thesis
        by (auto simp: Let_def all_of_push map_of_bt_insert map_of_bt_push)
    qed
  next
    case False
    from 2(3) [OF refl refl key False] 2(4) key False show ?thesis
      by (auto simp: Let_def split: if_splits)
  qed
qed simp

text \<open>
  The tool's command line. A parsed command line yields, for \<open>--policy\<close>, all the values given,
  in order, when none contains the separator; for any other flag the last value given; and a
  command line that names a key where a flag is expected does not parse at all.
\<close>

theorem ctl_values:
  assumes "ctl_parse quoted (command # args) = Inr a"
  shows "(flag \<noteq> ''--policy'' \<longrightarrow> arg_value a flag = (if given flag args = [] then None else Some (last (given flag args))))
    \<and> ((\<forall>p \<in> set (given ''--policy'' args). policy_separator \<notin> set p) \<longrightarrow> arg_list a ''--policy'' = given ''--policy'' args)
    \<and> ca_command a = command
    \<and> (\<forall>k rest. fst (split_flag k) \<in> {''--seal-key'', ''--token-key''} \<longrightarrow>
         (\<exists>m. ctl_parse quoted (command # k # rest) = Inl (ArgError m)))"
proof -
  obtain vals flags repeated where l: "ctl_parse_loop quoted [] [] [] args = Inr (vals, flags, repeated)"
    and a: "a = \<lparr>ca_command = command, ca_values = (case map_of repeated ''--policy'' of
        Some policies \<Rightarrow> bt_insert ''--policy'' (join_with [policy_separator] policies) vals
      | None \<Rightarrow> vals), ca_flags = flags\<rparr>"
    using assms by (auto simp: ctl_parse_def try_result_def Let_def split: sum.splits prod.splits)
  note g = parse_loop_given [OF l]
  have "arg_value a flag = (if given flag args = [] then None else Some (last (given flag args)))" if "flag \<noteq> ''--policy''"
    using g [of flag] that by (auto simp: a arg_value_def map_of_bt_insert split: option.splits)
  moreover have "arg_list a ''--policy'' = given ''--policy'' args"
    if free: "\<forall>p \<in> set (given ''--policy'' args). policy_separator \<notin> set p"
  proof (cases "map_of repeated ''--policy''")
    case None
    with g [of "''--policy''"] show ?thesis by (simp add: a arg_list_def arg_value_def)
  next
    case (Some ps)
    then have ps: "ps = given ''--policy'' args" "ps \<noteq> []" using g [of "''--policy''"] by (auto simp: all_of_def)
    have "arg_list a ''--policy'' = split_on policy_separator (join_with [policy_separator] ps)"
      using Some by (simp add: a arg_list_def arg_value_def map_of_bt_insert)
    also have "\<dots> = ps" using free ps by (intro split_on_join) auto
    finally show ?thesis using ps by simp
  qed
  moreover have "\<exists>m. ctl_parse quoted (command # k # rest) = Inl (ArgError m)"
    if "fst (split_flag k) \<in> {''--seal-key'', ''--token-key''}" for k rest
    using that by (auto simp: ctl_parse_def try_result_def key_refusal_def Let_def)
  ultimately show ?thesis by (auto simp: a)
qed

theorem ctl_values_witness:
  "\<exists>a. ctl_parse id [''mint-token'', ''--policy'', ''x'', ''--policy=y'', ''--in'', ''f''] = Inr a
     \<and> arg_list a ''--policy'' = [''x'', ''y''] \<and> arg_value a ''--in'' = Some ''f''"
proof -
  let ?args = "[''--policy'', ''x'', ''--policy=y'', ''--in'', ''f'']"
  obtain a where a: "ctl_parse id (''mint-token'' # ?args) = Inr a"
    by (simp add: ctl_parse_def try_result_def split_flag_def TAKES_VALUE_def Let_def)
  have g: "given ''--policy'' ?args = [''x'', ''y'']" "given ''--in'' ?args = [''f'']"
    by (simp_all add: split_flag_def TAKES_VALUE_def Let_def)
  from ctl_values [OF a, of "''--in''"] a g show ?thesis by (auto simp: policy_separator_def)
qed

end
