(* ===== verification/Ctl_Commands.thy ===== *)
theory Ctl_Commands
  imports Ctl_Args
begin

text \<open>
  \<open>cmd/kallisto-ctl\<close>: the commands of the offline tool (\<open>commands.rs\<close>) and its dispatch
  (\<open>main.rs\<close>). A command acts on a world of files and of what was printed; \<open>None\<close> is a panic. The
  texts of messages are abstracted: a failure and a line of output are constructors with the data
  that goes into the text. Parameters: the cryptographic and JSON libraries, the keyed hash, the
  YAML reader, the environment, the random bytes, the process number and what fails while a file is
  written.

  Shown here: writing is all or nothing, in every crash state; a file the tool seals opens again, is
  no rollback of the file it replaces and never has the shape the resolver refuses; what raising a
  version keeps; secrets are printed only when asked for in so many words, what else is said on
  either stream comes from the arguments, and the exit code tells usage from failure.
\<close>

section \<open>commands.rs\<close>

datatype ctl_reason =
    Arg_Problem string
  | Seal_Key_Unset
  | Seal_Key_Unusable key_error
  | Cannot_Read string
  | Cannot_Write string
  | Bad_Plaintext string nat nat
  | Would_Roll_Back string u64 u64
  | Tokens_Without_Key nat
  | Cannot_Seal seal_error
  | Seal_Problem string seal_error string
  | Not_Readable string seal_error
  | Goes_Backwards string u64 u64
  | Cannot_Reseal string seal_error
  | Config_Problem config_error
  | Open_Unconfirmed
  | Cannot_Render
  | Policy_Required
  | File_Without_Token_Key string
  | File_Token_Key_Unusable string hex_error
  | Token_Key_Unset
  | Token_Key_Unusable hex_error
  | Random_Unavailable
  | Unknown_Command string

datatype failure = Usage_Failure ctl_reason | Failed ctl_reason

datatype ctl_output =
    Sealed_Line u64 string nat nat nat
  | Verify_Lines string u64 nat nat nat bool
  | Bumped_Line string u64 u64
  | Valid_Lines string config
  | Contents_Text string
  | Token_Text string
  | Key_Text string
  | Usage_Text

datatype ctl_note =
    Unknown_Policy_Note string string
  | Mint_Notes string "string list"
  | Key_Notes
  | Failure_Note failure

record ctl_world =
  cw_fs :: fs
  cw_stdout :: "ctl_output list"
  cw_stderr :: "ctl_note list"

text \<open>\<open>'j\<close> is \<open>serde_json::Value\<close>; \<open>cl_from_str\<close> reports the line and column of an error.\<close>

record 'j ctl_lib =
  cl_aead :: aead_lib
  cl_hmac :: hmac_fun
  cl_to_vec :: "'j contents \<Rightarrow> bytes option"
  cl_from_slice :: "bytes \<Rightarrow> view option"
  cl_from_str :: "string \<Rightarrow> (nat \<times> nat) + 'j contents"
  cl_value :: "string \<Rightarrow> 'j option"
  cl_null :: 'j
  cl_pretty :: "'j contents \<Rightarrow> string option"
  cl_from_yaml :: "string \<Rightarrow> string + file_config"
  cl_quoted :: "string \<Rightarrow> string"

datatype write_fault = No_Fault | Create_Fault | Write_Fault nat | Sync_Fault | Rename_Fault

record ctl_env =
  ce_var :: "string \<Rightarrow> string option"
  ce_nonce :: "bytes option"
  ce_random :: "bytes option"
  ce_pid :: nat
  ce_fault :: write_fault
  ce_remove_ok :: bool


definition from_arg_error :: "arg_error + 'a \<Rightarrow> failure + 'a" where
  "from_arg_error r = (case r of Inl (ArgError m) \<Rightarrow> Inl (Usage_Failure (Arg_Problem m)) | Inr a \<Rightarrow> Inr a)"

definition ctl_seal_key :: "ctl_env \<Rightarrow> failure + seal_key" where
  "ctl_seal_key env =
     (case ce_var env SEAL_KEY_ENV of
        None \<Rightarrow> Inl (Usage_Failure Seal_Key_Unset)
      | Some hex \<Rightarrow>
          (case key_from_hex hex of
             Inl e \<Rightarrow> Inl (Usage_Failure (Seal_Key_Unusable e))
           | Inr k \<Rightarrow> Inr k))"

definition ctl_read :: "fs \<Rightarrow> string \<Rightarrow> failure + bytes" where
  "ctl_read files path = (case files path of None \<Rightarrow> Inl (Failed (Cannot_Read path)) | Some bs \<Rightarrow> Inr bs)"

definition ctl_read_to_string :: "fs \<Rightarrow> string \<Rightarrow> failure + string" where
  "ctl_read_to_string files path =
     (case files path of
        Some bs \<Rightarrow> if valid_utf8 (text_of bs) then Inr (text_of bs) else Inl (Failed (Cannot_Read path))
      | None \<Rightarrow> Inl (Failed (Cannot_Read path)))"

text \<open>
  \<open>file_name\<close> and \<open>with_file_name\<close> on a path's text: separators and dots at its end are no part of
  the last component.
\<close>

fun trim_tail :: "string \<Rightarrow> string" where
  "trim_tail [] = []"
| "trim_tail (c # p) =
     (if c = CHR ''/'' then trim_tail p
      else if c = CHR ''.'' \<and> starts_with ''/'' p then trim_tail p
      else c # p)"

definition temporary_beside :: "nat \<Rightarrow> string \<Rightarrow> string" where
  "temporary_beside pid path =
     (let p = rev (trim_tail (rev path));
          name = rev (takeWhile (\<lambda>c. c \<noteq> CHR ''/'') (rev p));
          suffix = ''.tmp.'' @ show_nat pid
      in if name = [] \<or> name = ''.'' \<or> name = ''..'' then path_join path suffix else p @ suffix)"

definition write_atomically :: "ctl_env \<Rightarrow> fs \<Rightarrow> string \<Rightarrow> bytes \<Rightarrow> fs \<times> (failure + unit)" where
  "write_atomically env files path bs =
     (let temp = temporary_beside (ce_pid env) path;
          failed = (\<lambda>files. (if ce_remove_ok env then files(temp := None) else files, Inl (Failed (Cannot_Write path))))
      in case ce_fault env of
           Create_Fault \<Rightarrow> failed files
         | Write_Fault k \<Rightarrow> failed (files(temp \<mapsto> take k bs))
         | Sync_Fault \<Rightarrow> failed (files(temp \<mapsto> bs))
         | Rename_Fault \<Rightarrow> failed (files(temp \<mapsto> bs))
         | No_Fault \<Rightarrow> (fst (rename_file (files(temp \<mapsto> bs)) temp path True), Inr ()))"

definition parse_plaintext :: "'j ctl_lib \<Rightarrow> string \<Rightarrow> string \<Rightarrow> failure + 'j contents" where
  "parse_plaintext lib t path =
     (case cl_from_str lib t of Inl (l, c) \<Rightarrow> Inl (Failed (Bad_Plaintext path l c)) | Inr c \<Rightarrow> Inr c)"

text \<open>The warnings of one token; \<open>None\<close>: the first eight bytes of its name end inside a character.\<close>

fun policy_warnings :: "string list \<Rightarrow> string \<Rightarrow> string list \<Rightarrow> ctl_note list option" where
  "policy_warnings defined name [] = Some []"
| "policy_warnings defined name (policy # rest) =
     (if policy \<in> set defined then policy_warnings defined name rest
      else Option.bind (slice_to name (min (length name) 8)) (\<lambda>short.
           map_option ((#) (Unknown_Policy_Note short policy)) (policy_warnings defined name rest)))"

fun token_warnings :: "string list \<Rightarrow> string list btree \<Rightarrow> ctl_note list option" where
  "token_warnings defined [] = Some []"
| "token_warnings defined ((name, policies) # rest) =
     Option.bind (policy_warnings defined name policies) (\<lambda>ws.
     map_option ((@) ws) (token_warnings defined rest))"

definition validate_token_table :: "'j contents \<Rightarrow> ((failure + unit) \<times> ctl_note list) option" where
  "validate_token_table c =
     (if c_tokens c \<noteq> [] \<and> c_token_key c = None
      then Some (Inl (Usage_Failure (Tokens_Without_Key (length (c_tokens c)))), [])
      else map_option (\<lambda>ws. (Inr (), ws)) (token_warnings (map fst (c_policies c)) (c_tokens c)))"

type_synonym ctl_result = "((failure + unit) \<times> ctl_world) option"

definition or_fail :: "ctl_world \<Rightarrow> failure + 'a \<Rightarrow> ('a \<Rightarrow> ctl_result) \<Rightarrow> ctl_result" where
  "or_fail w r k = (case r of Inl f \<Rightarrow> Some (Inl f, w) | Inr a \<Rightarrow> k a)"

definition ctl_print :: "ctl_output \<Rightarrow> ctl_world \<Rightarrow> ctl_world" where
  "ctl_print l w = w\<lparr>cw_stdout := cw_stdout w @ [l]\<rparr>"

definition ctl_note_all :: "ctl_note list \<Rightarrow> ctl_world \<Rightarrow> ctl_world" where
  "ctl_note_all ns w = w\<lparr>cw_stderr := cw_stderr w @ ns\<rparr>"

definition ctl_write :: "ctl_env \<Rightarrow> ctl_world \<Rightarrow> string \<Rightarrow> bytes \<Rightarrow> (ctl_world \<Rightarrow> ctl_result) \<Rightarrow> ctl_result" where
  "ctl_write env w path bs k =
     (case write_atomically env (cw_fs w) path bs of
        (files, Inl f) \<Rightarrow> Some (Inl f, w\<lparr>cw_fs := files\<rparr>)
      | (files, Inr _) \<Rightarrow> k (w\<lparr>cw_fs := files\<rparr>))"

text \<open>The version held by an existing output, when it has a readable header.\<close>

definition held_version :: "fs \<Rightarrow> string \<Rightarrow> u64 option" where
  "held_version files path =
     (case files path of
        None \<Rightarrow> None
      | Some existing \<Rightarrow> (case peek_version existing of Inl _ \<Rightarrow> None | Inr v \<Rightarrow> Some v))"

definition seal_and_write ::
    "'j ctl_lib \<Rightarrow> ctl_env \<Rightarrow> seal_key \<Rightarrow> string \<Rightarrow> 'j contents \<Rightarrow> ctl_world \<Rightarrow> ctl_result" where
  "seal_and_write lib env key output c w =
     Option.bind (validate_token_table c) (\<lambda>(checked, warnings).
     let w = ctl_note_all warnings w in
     or_fail w checked (\<lambda>_.
     or_fail w (case seal (cl_aead lib) (cl_to_vec lib) (ce_nonce env) c key of
         Inl e \<Rightarrow> Inl (Failed (Cannot_Seal e)) | Inr bs \<Rightarrow> Inr bs) (\<lambda>bs.
     ctl_write env w output bs (\<lambda>w.
     Some (Inr (), ctl_print (Sealed_Line (c_version c) output (length (c_secrets c)) (length (c_policies c))
       (length (c_tokens c))) w)))))"

definition run_seal :: "'j ctl_lib \<Rightarrow> ctl_env \<Rightarrow> ctl_args \<Rightarrow> ctl_world \<Rightarrow> ctl_result" where
  "run_seal lib env a w =
     or_fail w (from_arg_error (reject_unknown (cl_quoted lib) a [''--in'', ''--out'', ''--version'', ''--force''])) (\<lambda>_.
     or_fail w (from_arg_error (arg_required a ''--in'')) (\<lambda>input.
     or_fail w (from_arg_error (arg_required a ''--out'')) (\<lambda>output.
     or_fail w (ctl_seal_key env) (\<lambda>key.
     or_fail w (ctl_read_to_string (cw_fs w) input) (\<lambda>t.
     or_fail w (parse_plaintext lib t input) (\<lambda>c.
     or_fail w (from_arg_error (arg_number (cl_quoted lib) a ''--version'')) (\<lambda>version.
     let c = (case version of Some v \<Rightarrow> c\<lparr>c_version := word_of_nat v\<rparr> | None \<Rightarrow> c) in
     case held_version (cw_fs w) output of
       Some held \<Rightarrow>
         if held \<ge> c_version c \<and> \<not> arg_has a ''--force''
         then Some (Inl (Usage_Failure (Would_Roll_Back output held (c_version c))), w)
         else seal_and_write lib env key output c w
     | None \<Rightarrow> seal_and_write lib env key output c w)))))))"

text \<open>The advice added to an error that means a next move of its own.\<close>

fun seal_advice :: "seal_error \<Rightarrow> string" where
  "seal_advice BadMagic = '' '' @ em_dash @ '' this is not a Kallisto sealed file''"
| "seal_advice AuthFailed = '' '' @ em_dash @ '' either the key is wrong or the file has been altered. Both look identical from here, and that is the point of the tag.''"
| "seal_advice (Truncated _ _) = '' '' @ em_dash @ '' the file is incomplete; an upload may have been cut off''"
| "seal_advice _ = []"

definition describe_seal_error :: "seal_error \<Rightarrow> string \<Rightarrow> failure" where
  "describe_seal_error e path = Failed (Seal_Problem path e (seal_advice e))"

text \<open>Reading, opening and viewing a sealed file, as four commands do.\<close>

definition open_input ::
    "'j ctl_lib \<Rightarrow> seal_key \<Rightarrow> string \<Rightarrow> bytes \<Rightarrow> failure + opened" where
  "open_input lib key input bs =
     (case open_file (cl_aead lib) (cl_from_slice lib) bs key None of
        Inl e \<Rightarrow> Inl (describe_seal_error e input)
      | Inr d \<Rightarrow> Inr d)"

definition view_input :: "'j ctl_lib \<Rightarrow> string \<Rightarrow> opened \<Rightarrow> failure + view" where
  "view_input lib input d =
     (case opened_view (cl_from_slice lib) d of
        Inl e \<Rightarrow> Inl (Failed (Not_Readable input e))
      | Inr v \<Rightarrow> Inr v)"


definition owned :: "'j ctl_lib \<Rightarrow> view \<Rightarrow> 'j contents" where
  "owned lib v =
     \<lparr>c_version = v_version v,
      c_secrets = map (\<lambda>(path, raw). (path, case cl_value lib raw of Some j \<Rightarrow> j | None \<Rightarrow> cl_null lib)) (v_secrets v),
      c_policies = v_policies v, c_tokens = v_tokens v, c_token_key = v_token_key v\<rparr>"

text \<open>\<open>held + 1\<close> wraps, as the release profile compiles it.\<close>

definition next_version :: "string \<Rightarrow> u64 \<Rightarrow> nat option \<Rightarrow> failure + u64" where
  "next_version input held to_version =
     (case to_version of
        Some v \<Rightarrow> if word_of_nat v \<le> held then Inl (Usage_Failure (Goes_Backwards input held (word_of_nat v)))
                  else Inr (word_of_nat v)
      | None \<Rightarrow> Inr (held + 1))"

definition run_bump_version :: "'j ctl_lib \<Rightarrow> ctl_env \<Rightarrow> ctl_args \<Rightarrow> ctl_world \<Rightarrow> ctl_result" where
  "run_bump_version lib env a w =
     or_fail w (from_arg_error (reject_unknown (cl_quoted lib) a [''--in'', ''--to''])) (\<lambda>_.
     or_fail w (from_arg_error (arg_required a ''--in'')) (\<lambda>input.
     or_fail w (ctl_read (cw_fs w) input) (\<lambda>bs.
     or_fail w (ctl_seal_key env) (\<lambda>key.
     or_fail w (open_input lib key input bs) (\<lambda>d.
     let held = opened_version d in
     or_fail w (from_arg_error (arg_number (cl_quoted lib) a ''--to'')) (\<lambda>to_version.
     or_fail w (next_version input held to_version) (\<lambda>nxt.
     or_fail w (view_input lib input d) (\<lambda>v.
     or_fail w (case seal (cl_aead lib) (cl_to_vec lib) (ce_nonce env) ((owned lib v)\<lparr>c_version := nxt\<rparr>) key of
         Inl e \<Rightarrow> Inl (Failed (Cannot_Reseal input e)) | Inr bs \<Rightarrow> Inr bs) (\<lambda>resealed.
     ctl_write env w input resealed (\<lambda>w.
     Some (Inr (), ctl_print (Bumped_Line input held nxt) w)))))))))))"








section \<open>main.rs\<close>




section \<open>Writing is all or nothing\<close>

lemma trim_tail_suffix: "\<exists>q. p = q @ trim_tail p \<and> set q \<subseteq> {CHR ''/'', CHR ''.''}"
proof (induction p rule: trim_tail.induct)
  case (2 c p)
  show ?case
  proof (cases "c = CHR ''/'' \<or> (c = CHR ''.'' \<and> starts_with ''/'' p)")
    case True
    then obtain q where "p = q @ trim_tail p" "set q \<subseteq> {CHR ''/'', CHR ''.''}" using 2 by auto
    with True show ?thesis by (intro exI [of _ "c # q"]) auto
  qed auto
qed simp

lemma temporary_is_other: "temporary_beside pid path \<noteq> path"
proof -
  let ?p = "rev (trim_tail (rev path))" and ?suffix = "''.tmp.'' @ show_nat pid"
  obtain q where q: "rev path = q @ trim_tail (rev path)" "set q \<subseteq> {CHR ''/'', CHR ''.''}"
    using trim_tail_suffix by blast
  have "path = ?p @ rev q" using q(1) by (metis rev_append rev_rev_ident)
  moreover have "rev q \<noteq> ?suffix"
  proof
    assume "rev q = ?suffix"
    then have "CHR ''t'' \<in> set (rev q)" by (simp only:) simp
    with q(2) show False by auto
  qed
  ultimately have "?p @ ?suffix \<noteq> path" by (metis same_append_eq)
  moreover have "path_join path ?suffix \<noteq> path" by (auto simp: path_join_def)
  ultimately show ?thesis by (simp add: temporary_beside_def Let_def)
qed

text \<open>
  What a crash can leave of a write. The bytes are synced before the rename, so this is what the death
  of the machine leaves as well as that of the process.
\<close>

definition atomic_trace :: "nat \<Rightarrow> fs \<Rightarrow> string \<Rightarrow> bytes \<Rightarrow> fs list" where
  "atomic_trace pid files path bs = crash_states True files (temporary_beside pid path) path bs"

lemma write_atomically_cases:
  obtains (written) "write_atomically env files path bs = ((files(path \<mapsto> bs))(temporary_beside (ce_pid env) path := None), Inr ())"
  | (refused) files' where "write_atomically env files path bs = (files', Inl (Failed (Cannot_Write path)))"
      "\<And>q. q \<noteq> temporary_beside (ce_pid env) path \<Longrightarrow> files' q = files q"
  using temporary_is_other [of "ce_pid env" path]
  by (cases "ce_fault env") (auto simp: write_atomically_def rename_file_def Let_def fun_upd_twist split: if_splits)

text \<open>
  The tool writes all or nothing. In every file-system state of a write the output path holds
  what it held before or exactly the new bytes, because the temporary file is never the output
  itself; no other file changes. A write that reports success leaves the new bytes and no temporary
  file, and one that fails at any step leaves the old file.
\<close>

theorem ctl_write_atomic:
  "(\<forall>fs' \<in> set (atomic_trace (ce_pid env) files path bs). (fs' path = files path \<or> fs' path = Some bs)
       \<and> (\<forall>q. q \<notin> {path, temporary_beside (ce_pid env) path} \<longrightarrow> fs' q = files q))
   \<and> (case write_atomically env files path bs of
        (files', Inr _) \<Rightarrow> files' path = Some bs \<and> files' (temporary_beside (ce_pid env) path) = None
      | (files', Inl f) \<Rightarrow> f = Failed (Cannot_Write path) \<and> files' path = files path)"
proof (intro conjI)
  note other = temporary_is_other [of "ce_pid env" path]
  then show "\<forall>fs' \<in> set (atomic_trace (ce_pid env) files path bs). (fs' path = files path \<or> fs' path = Some bs)
       \<and> (\<forall>q. q \<notin> {path, temporary_beside (ce_pid env) path} \<longrightarrow> fs' q = files q)"
    by (auto simp: atomic_trace_def crash_states_def rename_file_def)
  show "case write_atomically env files path bs of
        (files', Inr _) \<Rightarrow> files' path = Some bs \<and> files' (temporary_beside (ce_pid env) path) = None
      | (files', Inl f) \<Rightarrow> f = Failed (Cannot_Write path) \<and> files' path = files path"
    by (rule write_atomically_cases [of env files path bs]) (use other in auto)
qed

theorem ctl_write_atomic_witness:
  "list_all (\<lambda>fs'. fs' ''/k'' = Some [1] \<or> fs' ''/k'' = Some [2, 3]) (atomic_trace 7 [''/k'' \<mapsto> [1]] ''/k'' [2, 3])"
  using ctl_write_atomic [of "\<lparr>ce_var = \<lambda>_. None, ce_nonce = None, ce_random = None, ce_pid = 7, ce_fault = No_Fault,
    ce_remove_ok = True\<rparr>" "[''/k'' \<mapsto> [1]]" "''/k''" "[2, 3]"]
  by (simp add: list_all_iff)

section \<open>What a command leaves behind\<close>

lemma or_fail_Inr [simp]:
  "or_fail w r k = Some (Inr u, w') \<longleftrightarrow> (\<exists>a. r = Inr a \<and> k a = Some (Inr u, w'))"
  by (cases r) (auto simp: or_fail_def)

lemma ctl_write_Inr:
  assumes "ctl_write env w path bs k = Some (Inr u, w')"
  shows "k (w\<lparr>cw_fs := ((cw_fs w)(path \<mapsto> bs))(temporary_beside (ce_pid env) path := None)\<rparr>) = Some (Inr u, w')"
  using assms by (cases rule: write_atomically_cases [of env "cw_fs w" path bs]) (auto simp: ctl_write_def)

text \<open>A command that fails leaves every file as it was, a temporary one of its own apart.\<close>

definition keeps_files :: "ctl_env \<Rightarrow> string \<Rightarrow> ctl_world \<Rightarrow> ctl_world \<Rightarrow> bool" where
  "keeps_files env path w w' \<longleftrightarrow>
     (\<forall>q. q \<noteq> temporary_beside (ce_pid env) path \<longrightarrow> cw_fs w' q = cw_fs w q)"

lemma keeps_files_refl [simp]: "cw_fs w' = cw_fs w \<Longrightarrow> keeps_files env path w w'"
  by (simp add: keeps_files_def)

lemma or_fail_Inl [simp]:
  "or_fail w r k = Some (Inl f, w') \<longleftrightarrow> r = Inl f \<and> w' = w \<or> (\<exists>a. r = Inr a \<and> k a = Some (Inl f, w'))"
  by (cases r) (auto simp: or_fail_def)

lemma ctl_print_simps [simp]:
  "cw_fs (ctl_print l w) = cw_fs w" "cw_stdout (ctl_print l w) = cw_stdout w @ [l]"
  "cw_stderr (ctl_print l w) = cw_stderr w" "cw_fs (ctl_note_all ns w) = cw_fs w"
  "cw_stdout (ctl_note_all ns w) = cw_stdout w" "cw_stderr (ctl_note_all ns w) = cw_stderr w @ ns"
  by (simp_all add: ctl_print_def ctl_note_all_def)

lemma ctl_write_Inl:
  assumes "ctl_write env w path bs k = Some (Inl f, w')" and "\<And>v. k v \<noteq> Some (Inl f, w')"
  shows "keeps_files env path w w' \<and> cw_stdout w' = cw_stdout w"
  using assms by (cases rule: write_atomically_cases [of env "cw_fs w" path bs])
    (auto simp: ctl_write_def keeps_files_def)

lemma seal_and_write_Inr:
  assumes "seal_and_write lib env key output c w = Some (Inr u, w')"
  obtains bs where "seal (cl_aead lib) (cl_to_vec lib) (ce_nonce env) c key = Inr bs"
    "c_tokens c = [] \<or> c_token_key c \<noteq> None"
    "cw_fs w' = ((cw_fs w)(output \<mapsto> bs))(temporary_beside (ce_pid env) output := None)"
    "cw_stdout w' = cw_stdout w @ [Sealed_Line (c_version c) output (length (c_secrets c)) (length (c_policies c))
       (length (c_tokens c))]"
proof -
  obtain checked ws where c: "validate_token_table c = Some (checked, ws)"
    using assms by (auto simp: seal_and_write_def bind_eq_Some_conv)
  with assms have ch: "checked = Inr ()" by (auto simp: seal_and_write_def Let_def)
  have "c_tokens c = [] \<or> c_token_key c \<noteq> None"
    using c ch by (auto simp: validate_token_table_def split: if_splits)
  moreover obtain bs where "seal (cl_aead lib) (cl_to_vec lib) (ce_nonce env) c key = Inr bs"
    "ctl_write env (ctl_note_all ws w) output bs (\<lambda>w. Some (Inr (), ctl_print (Sealed_Line (c_version c) output
       (length (c_secrets c)) (length (c_policies c)) (length (c_tokens c))) w)) = Some (Inr u, w')"
    using assms c by (auto simp: seal_and_write_def Let_def split: sum.splits)
  ultimately show ?thesis using that ctl_write_Inr by fastforce
qed

lemma seal_and_write_Inl:
  assumes "seal_and_write lib env key output c w = Some (Inl f, w')"
  shows "keeps_files env output w w' \<and> cw_stdout w' = cw_stdout w"
proof -
  obtain checked ws where c: "validate_token_table c = Some (checked, ws)"
    using assms by (auto simp: seal_and_write_def bind_eq_Some_conv)
  with assms show ?thesis
    by (auto simp: seal_and_write_def Let_def dest!: ctl_write_Inl split: sum.splits)
      (auto simp: keeps_files_def)
qed

section \<open>Sealing\<close>

text \<open>What \<open>seal\<close> is given: the parsed plaintext, with \<open>--version\<close> over the version it names.\<close>

definition seal_request :: "'j ctl_lib \<Rightarrow> ctl_env \<Rightarrow> ctl_args \<Rightarrow> fs \<Rightarrow> (string \<times> seal_key \<times> 'j contents) option" where
  "seal_request lib env a files =
     (case (arg_required a ''--in'', arg_required a ''--out'', ctl_seal_key env, arg_number (cl_quoted lib) a ''--version'') of
        (Inr input, Inr output, Inr key, Inr version) \<Rightarrow>
          (case ctl_read_to_string files input of
             Inl _ \<Rightarrow> None
           | Inr t \<Rightarrow>
               (case cl_from_str lib t of
                  Inl _ \<Rightarrow> None
                | Inr c \<Rightarrow> Some (output, key, case version of Some v \<Rightarrow> c\<lparr>c_version := word_of_nat v\<rparr> | None \<Rightarrow> c)))
      | _ \<Rightarrow> None)"

lemma from_arg_error_iffs [simp]:
  "from_arg_error r = Inr x \<longleftrightarrow> r = Inr x"
  by (auto simp: from_arg_error_def split: sum.splits arg_error.splits)

lemma or_fail_cases:
  assumes "or_fail w r k = Some (x, w')"
  obtains (failing) f where "r = Inl f" "x = Inl f" "w' = w" | (going_on) a where "r = Inr a" "k a = Some (x, w')"
  using assms by (auto simp: or_fail_def split: sum.splits)

lemma parse_plaintext_Inr [simp]: "parse_plaintext lib t path = Inr c \<longleftrightarrow> cl_from_str lib t = Inr c"
  by (auto simp: parse_plaintext_def split: sum.splits prod.splits)

lemma run_seal_request:
  assumes "run_seal lib env a w = Some (r, w')"
  obtains (refused) f where "r = Inl f" "w' = w"
  | (requested) out_path key c where "seal_request lib env a (cw_fs w) = Some (out_path, key, c)"
      "seal_and_write lib env key out_path c w = Some (r, w')"
      "\<And>held. held_version (cw_fs w) out_path = Some held \<Longrightarrow> held < c_version c \<or> arg_has a ''--force''"
proof -
  have "(\<exists>f. r = Inl f \<and> w' = w) \<or> (\<exists>output key c. seal_request lib env a (cw_fs w) = Some (output, key, c)
      \<and> seal_and_write lib env key output c w = Some (r, w')
      \<and> (\<forall>held. held_version (cw_fs w) output = Some held \<longrightarrow> held < c_version c \<or> arg_has a ''--force''))"
    using assms unfolding run_seal_def
    by (elim or_fail_cases) (auto simp: seal_request_def Let_def not_le split: option.splits if_splits)
  then show ?thesis using that by blast
qed

text \<open>
  C33. What \<open>kallisto-ctl seal\<close> writes, the resolver takes. A successful run leaves at the output
  path a file that opens, with the key of the environment, to the parsed plaintext under the version
  asked for, for every process holding no newer version; the version is above the one the path held,
  unless \<open>--force\<close> was given; and the contents have no tokens without a token key. A failed run
  leaves the output as it was and prints nothing to standard output.
\<close>

theorem ctl_seal_sound:
  assumes "aead_round_trip (cl_aead lib)" and "json_round_trip (cl_to_vec lib) (cl_from_slice lib) raw"
    and "\<And>n. ce_nonce env = Some n \<Longrightarrow> length n = NONCE_LEN"
    and run: "run_seal lib env a w = Some (r, w')"
  shows "case r of
      Inr _ \<Rightarrow> \<exists>output key c bs body. seal_request lib env a (cw_fs w) = Some (output, key, c)
        \<and> cw_fs w' output = Some bs
        \<and> (contents_borrowable c \<longrightarrow> (\<forall>held. (\<forall>v. held = Some v \<longrightarrow> v \<le> c_version c) \<longrightarrow>
             open_file (cl_aead lib) (cl_from_slice lib) bs key held = Inr \<lparr>plaintext = body, opened_version = c_version c\<rparr>
             \<and> cl_from_slice lib body = Some (view_of raw c)))
        \<and> (\<forall>held. held_version (cw_fs w) output = Some held \<longrightarrow> held < c_version c \<or> arg_has a ''--force'')
        \<and> (c_tokens c = [] \<or> c_token_key c \<noteq> None)
    | Inl f \<Rightarrow> cw_stdout w' = cw_stdout w \<and> (\<forall>output. arg_value a ''--out'' = Some output \<longrightarrow> cw_fs w' output = cw_fs w output)"
  using run
proof (cases rule: run_seal_request)
  case refused
  then show ?thesis by simp
next
  case (requested out_path key c)
  note q = this
  have out: "arg_value a ''--out'' = Some out_path"
    using q(1) by (auto simp: seal_request_def arg_required_def split: sum.splits option.splits)
  show ?thesis
  proof (cases r)
    case (Inl f)
    with q(2) seal_and_write_Inl have "keeps_files env out_path w w' \<and> cw_stdout w' = cw_stdout w" by blast
    with Inl out temporary_is_other [of "ce_pid env" out_path] show ?thesis by (auto simp: keeps_files_def)
  next
    case (Inr u)
    obtain bs where bs: "seal (cl_aead lib) (cl_to_vec lib) (ce_nonce env) c key = Inr bs"
      "c_tokens c = [] \<or> c_token_key c \<noteq> None"
      "cw_fs w' = ((cw_fs w)(out_path \<mapsto> bs))(temporary_beside (ce_pid env) out_path := None)"
      using q(2) Inr seal_and_write_Inr by metis
    obtain body where body: "cl_to_vec lib c = Some body" using seal_Inr [OF bs(1)] by metis
    have "open_file (cl_aead lib) (cl_from_slice lib) bs key held = Inr \<lparr>plaintext = body, opened_version = c_version c\<rparr>
        \<and> cl_from_slice lib body = Some (view_of raw c)"
      if "contents_borrowable c" "\<forall>v. held = Some v \<longrightarrow> v \<le> c_version c" for held
      using sealed_opens [OF assms(1,2) that(1) assms(3) bs(1), of held] that body assms(2)
      by (auto simp: json_round_trip_def)
    moreover have "cw_fs w' out_path = Some bs" using bs(3) temporary_is_other [of "ce_pid env" out_path] by auto
    ultimately show ?thesis using Inr q(1,3) bs(2) by fastforce
  qed
qed

text \<open>A library over the readable cipher, and a machine with a key and one plaintext file.\<close>

definition sample_ctl_lib :: "string ctl_lib" where
  "sample_ctl_lib = \<lparr>cl_aead = clear_aead, cl_hmac = \<lambda>_ _. [], cl_to_vec = sample_to_vec, cl_from_slice = sample_from_slice,
     cl_from_str = \<lambda>_. Inr sample_contents, cl_value = Some, cl_null = ''null'', cl_pretty = \<lambda>_. Some ''pretty'',
     cl_from_yaml = \<lambda>_. Inl [], cl_quoted = id\<rparr>"

definition sample_ctl_env :: ctl_env where
  "sample_ctl_env = \<lparr>ce_var = [SEAL_KEY_ENV \<mapsto> encode (replicate 32 9)], ce_nonce = Some (replicate 12 5), ce_random = None,
     ce_pid = 1, ce_fault = No_Fault, ce_remove_ok = True\<rparr>"

definition sample_world :: ctl_world where
  "sample_world = \<lparr>cw_fs = [''p'' \<mapsto> []], cw_stdout = [], cw_stderr = []\<rparr>"

definition sample_seal_args :: ctl_args where
  "sample_seal_args = \<lparr>ca_command = ''seal'', ca_values = [(''--in'', ''p''), (''--out'', ''o'')], ca_flags = []\<rparr>"

lemma sample_seal_key: "ctl_seal_key sample_ctl_env = Inr (SealKey (replicate 32 9))"
  by (simp add: ctl_seal_key_def sample_ctl_env_def) code_simp

lemma sample_ctl_seal: "\<exists>w'. run_seal sample_ctl_lib sample_ctl_env sample_seal_args sample_world = Some (Inr (), w')"
proof -
  have "validate_token_table sample_contents = Some (Inr (), [])"
    by (simp add: validate_token_table_def sample_contents_def)
  then show ?thesis
    by (simp add: run_seal_def sample_seal_key) (simp add: sample_seal_args_def reject_unknown_def arg_required_def arg_value_def arg_number_def
        sample_world_def ctl_read_to_string_def text_of_def sample_ctl_lib_def held_version_def seal_and_write_def
        sample_sealed sample_ctl_env_def ctl_write_def write_atomically_def or_fail_def from_arg_error_def Let_def)
qed

theorem ctl_seal_sound_witness:
  "\<exists>w' output key c bs. run_seal sample_ctl_lib sample_ctl_env sample_seal_args sample_world = Some (Inr (), w')
     \<and> seal_request sample_ctl_lib sample_ctl_env sample_seal_args (cw_fs sample_world) = Some (output, key, c)
     \<and> cw_fs w' output = Some bs"
proof -
  obtain w' where r: "run_seal sample_ctl_lib sample_ctl_env sample_seal_args sample_world = Some (Inr (), w')"
    using sample_ctl_seal by blast
  have "aead_round_trip (cl_aead sample_ctl_lib)" "json_round_trip (cl_to_vec sample_ctl_lib) (cl_from_slice sample_ctl_lib) id"
    "\<And>n. ce_nonce sample_ctl_env = Some n \<Longrightarrow> length n = NONCE_LEN"
    by (simp_all add: sample_ctl_lib_def sample_ctl_env_def clear_aead_ok sample_json)
  from ctl_seal_sound [OF this r] r show ?thesis by auto
qed

section \<open>Raising a version\<close>

definition view_borrowable :: "view \<Rightarrow> bool" where
  "view_borrowable v \<longleftrightarrow> (\<forall>p \<in> set (map fst (v_secrets v)). borrowable p)
     \<and> (case v_token_key v of None \<Rightarrow> True | Some k \<Rightarrow> borrowable k)"

text \<open>
  What \<open>serde_json\<close> documents of a borrowed string: it is one that the text holds without an escape.
\<close>

definition parser_borrows :: "(bytes \<Rightarrow> view option) \<Rightarrow> bool" where
  "parser_borrows from_slice \<longleftrightarrow> (\<forall>body v. from_slice body = Some v \<longrightarrow> view_borrowable v)"

text \<open>
  The view of a file whose version was raised: every value is rendered anew from what the old text
  parses to, and as \<open>null\<close> where it does not parse.
\<close>

definition raised :: "'j ctl_lib \<Rightarrow> ('j \<Rightarrow> string) \<Rightarrow> u64 \<Rightarrow> view \<Rightarrow> view" where
  "raised lib raw n v = v\<lparr>v_version := n,
     v_secrets := map (\<lambda>(path, t). (path, raw (case cl_value lib t of Some j \<Rightarrow> j | None \<Rightarrow> cl_null lib))) (v_secrets v)\<rparr>"

lemma view_of_owned: "view_of raw ((owned lib v)\<lparr>c_version := n\<rparr>) = raised lib raw n v"
  by (simp add: view_of_def owned_def raised_def case_prod_beta comp_def)

lemma owned_borrowable: "contents_borrowable ((owned lib v)\<lparr>c_version := n\<rparr>) = view_borrowable v"
  by (auto simp: contents_borrowable_def view_borrowable_def owned_def)

lemma next_version_above:
  assumes "next_version path held to_version = Inr n"
  shows "held < n \<or> held = - 1 \<and> n = 0 \<and> to_version = None"
proof (cases to_version)
  case None
  have "held < held + 1 \<or> held = - 1"
  proof (rule disjCI)
    assume "held \<noteq> - 1"
    then have "1 + held \<noteq> 0" by (metis add.commute add_eq_0_iff)
    then have "unat (1 + held) = Suc (unat held)" by (rule unatSuc)
    then show "held < held + 1" by (simp add: word_less_nat_alt add.commute)
  qed
  with None assms show ?thesis by (auto simp: next_version_def)
next
  case (Some v)
  with assms show ?thesis by (auto simp: next_version_def split: if_splits)
qed

lemma open_input_Inr: "open_input lib key path bs = Inr d \<longleftrightarrow> open_file (cl_aead lib) (cl_from_slice lib) bs key None = Inr d"
  by (auto simp: open_input_def split: sum.splits)

lemma view_input_Inr: "view_input lib path d = Inr v \<longleftrightarrow> opened_view (cl_from_slice lib) d = Inr v"
  by (auto simp: view_input_def split: sum.splits)

lemma run_bump_Inr:
  assumes "run_bump_version lib env a w = Some (Inr u, w')"
  obtains path bs key d t n v resealed where "arg_value a ''--in'' = Some path" "cw_fs w path = Some bs" "ctl_seal_key env = Inr key"
    "open_file (cl_aead lib) (cl_from_slice lib) bs key None = Inr d" "arg_number (cl_quoted lib) a ''--to'' = Inr t"
    "next_version path (opened_version d) t = Inr n" "opened_view (cl_from_slice lib) d = Inr v"
    "seal (cl_aead lib) (cl_to_vec lib) (ce_nonce env) ((owned lib v)\<lparr>c_version := n\<rparr>) key = Inr resealed"
    "cw_fs w' = ((cw_fs w)(path \<mapsto> resealed))(temporary_beside (ce_pid env) path := None)"
    "cw_stdout w' = cw_stdout w @ [Bumped_Line path (opened_version d) n]"
  using assms unfolding run_bump_version_def Let_def
  by (elim or_fail_cases) (auto simp: open_input_Inr view_input_Inr arg_required_def ctl_read_def
      split: option.splits sum.splits dest!: ctl_write_Inr)

text \<open>
  C34. What raising a version keeps. A successful \<open>bump-version\<close> leaves at the path a file that opens,
  with the same key, under the new version to the same paths in the same order, the same policies,
  tokens and token key; and each value is the rendering of what the old text parses to, or of \<open>null\<close>
  where the old text does not parse. So wherever rendering and parsing a value gives the value back,
  the new text denotes the same JSON value as the old one. The version is above the old one, so a
  resolver holding the old file takes the new one, with one exception: a file at the last version,
  bumped without \<open>--to\<close>, comes out at version zero.
\<close>

theorem ctl_bump_sound:
  assumes "aead_round_trip (cl_aead lib)" and "json_round_trip (cl_to_vec lib) (cl_from_slice lib) raw"
    and borrows: "parser_borrows (cl_from_slice lib)"
    and "\<And>n. ce_nonce env = Some n \<Longrightarrow> length n = NONCE_LEN"
    and run: "run_bump_version lib env a w = Some (Inr u, w')"
  shows "\<exists>path bs key d v n bs' body v'. arg_value a ''--in'' = Some path \<and> cw_fs w path = Some bs \<and> ctl_seal_key env = Inr key
    \<and> open_file (cl_aead lib) (cl_from_slice lib) bs key None = Inr d \<and> opened_view (cl_from_slice lib) d = Inr v
    \<and> cw_fs w' path = Some bs' \<and> cw_stdout w' = cw_stdout w @ [Bumped_Line path (opened_version d) n]
    \<and> (\<forall>held. (\<forall>x. held = Some x \<longrightarrow> x \<le> n) \<longrightarrow>
        open_file (cl_aead lib) (cl_from_slice lib) bs' key held = Inr \<lparr>plaintext = body, opened_version = n\<rparr>)
    \<and> cl_from_slice lib body = Some v' \<and> v_version v' = n
    \<and> v_policies v' = v_policies v \<and> v_tokens v' = v_tokens v \<and> v_token_key v' = v_token_key v
    \<and> v_secrets v' = map (\<lambda>(q, t). (q, raw (case cl_value lib t of Some j \<Rightarrow> j | None \<Rightarrow> cl_null lib))) (v_secrets v)
    \<and> (\<forall>q t j. (q, t) \<in> set (v_secrets v) \<and> cl_value lib t = Some j \<and> cl_value lib (raw j) = Some j \<longrightarrow>
         (\<exists>t'. (q, t') \<in> set (v_secrets v') \<and> cl_value lib t' = cl_value lib t))
    \<and> (opened_version d < n \<or> opened_version d = - 1 \<and> n = 0 \<and> arg_value a ''--to'' = None)"
proof -
  obtain path bs key d t n v resealed where p: "arg_value a ''--in'' = Some path" "cw_fs w path = Some bs" "ctl_seal_key env = Inr key"
      "open_file (cl_aead lib) (cl_from_slice lib) bs key None = Inr d" "arg_number (cl_quoted lib) a ''--to'' = Inr t"
    and n: "next_version path (opened_version d) t = Inr n" and v: "opened_view (cl_from_slice lib) d = Inr v"
    and s: "seal (cl_aead lib) (cl_to_vec lib) (ce_nonce env) ((owned lib v)\<lparr>c_version := n\<rparr>) key = Inr resealed"
    and w': "cw_fs w' = ((cw_fs w)(path \<mapsto> resealed))(temporary_beside (ce_pid env) path := None)"
      "cw_stdout w' = cw_stdout w @ [Bumped_Line path (opened_version d) n]"
    using run by (rule run_bump_Inr)
  let ?c = "(owned lib v)\<lparr>c_version := n\<rparr>"
  obtain body where body: "cl_to_vec lib ?c = Some body" using seal_Inr [OF s] by metis
  have "view_borrowable v" using v borrows by (auto simp: parser_borrows_def opened_view_def split: option.splits)
  then have b: "contents_borrowable ?c" by (simp only: owned_borrowable)
  then have v': "cl_from_slice lib body = Some (raised lib raw n v)"
    using assms(2) body view_of_owned by (metis json_round_trip_def)
  have opens: "open_file (cl_aead lib) (cl_from_slice lib) resealed key held = Inr \<lparr>plaintext = body, opened_version = n\<rparr>"
    if "\<forall>x. held = Some x \<longrightarrow> x \<le> n" for held
    using sealed_opens [OF assms(1,2) b assms(4) s, of held] that body by auto
  have same: "\<exists>t'. (q, t') \<in> set (v_secrets (raised lib raw n v)) \<and> cl_value lib t' = cl_value lib t"
    if "(q, t) \<in> set (v_secrets v)" "cl_value lib t = Some j" "cl_value lib (raw j) = Some j" for q t j
    using that by (intro exI [of _ "raw j"]) (force simp: raised_def)
  have above: "opened_version d < n \<or> opened_version d = - 1 \<and> n = 0 \<and> arg_value a ''--to'' = None"
    using next_version_above [OF n] p(5) by (auto simp: arg_number_def split: option.splits)
  have "cw_fs w' path = Some resealed" using w'(1) temporary_is_other [of "ce_pid env" path] by auto
  then show ?thesis
    using p(1-4) v w'(2) v' opens same above
    by (intro exI [of _ path] exI [of _ bs] exI [of _ key] exI [of _ d] exI [of _ v] exI [of _ n] exI [of _ resealed]
        exI [of _ body] exI [of _ "raised lib raw n v"]) (auto simp: raised_def)
qed

text \<open>The sample contents under two versions, sealed and bumped.\<close>

definition two_to_vec :: "string contents \<Rightarrow> bytes option" where
  "two_to_vec c = (if c = sample_contents then Some [1, 2, 3] else if c = sample_contents\<lparr>c_version := 8\<rparr> then Some [4] else None)"

definition two_from_slice :: "bytes \<Rightarrow> view option" where
  "two_from_slice b = (if b = [1, 2, 3] then Some (view_of id sample_contents)
     else if b = [4] then Some (view_of id (sample_contents\<lparr>c_version := 8\<rparr>)) else None)"

definition bump_lib :: "string ctl_lib" where
  "bump_lib = sample_ctl_lib\<lparr>cl_to_vec := two_to_vec, cl_from_slice := two_from_slice\<rparr>"

definition bump_world :: ctl_world where
  "bump_world = \<lparr>cw_fs = [''o'' \<mapsto> sample_file], cw_stdout = [], cw_stderr = []\<rparr>"

definition sample_bump_args :: ctl_args where
  "sample_bump_args = \<lparr>ca_command = ''bump-version'', ca_values = [(''--in'', ''o'')], ca_flags = []\<rparr>"

lemma two_json: "json_round_trip two_to_vec two_from_slice id"
  by (auto simp: json_round_trip_def two_to_vec_def two_from_slice_def split: if_splits)

lemma sample_bumps: "\<exists>w'. run_bump_version bump_lib sample_ctl_env sample_bump_args bump_world = Some (Inr (), w')"
proof -
  have o: "open_file clear_aead two_from_slice sample_file (SealKey (replicate 32 9)) None
      = Inr \<lparr>plaintext = [1, 2, 3], opened_version = 7\<rparr>"
    by (simp add: open_file_def sample_file_def header_parse_write open_body_def aead_def
        clear_aead_def clear_open_def KEY_LEN_def opened_view_def two_from_slice_def view_of_def sample_contents_def)
  have v: "opened_view two_from_slice \<lparr>plaintext = [1, 2, 3], opened_version = 7\<rparr> = Inr (view_of id sample_contents)"
    by (simp add: opened_view_def two_from_slice_def)
  have c: "(owned bump_lib (view_of id sample_contents))\<lparr>c_version := 8\<rparr> = sample_contents\<lparr>c_version := 8\<rparr>"
    by (simp add: owned_def view_of_def sample_contents_def bump_lib_def sample_ctl_lib_def)
  obtain bs where s: "seal clear_aead two_to_vec (Some (replicate 12 5)) (sample_contents\<lparr>c_version := 8\<rparr>) (SealKey (replicate 32 9)) = Inr bs"
    by (simp add: seal_def two_to_vec_def aead_def clear_aead_def clear_seal_def KEY_LEN_def sample_contents_def Let_def)
  have lib: "cl_aead bump_lib = clear_aead" "cl_to_vec bump_lib = two_to_vec" "cl_from_slice bump_lib = two_from_slice"
    "ce_nonce sample_ctl_env = Some (replicate 12 5)" "ce_fault sample_ctl_env = No_Fault"
    by (simp_all add: bump_lib_def sample_ctl_lib_def sample_ctl_env_def)
  show ?thesis
    by (simp add: run_bump_version_def sample_seal_key open_input_def view_input_def lib o)
      (simp add: sample_bump_args_def bump_world_def reject_unknown_def arg_required_def arg_value_def arg_number_def
        ctl_read_def next_version_def o v c s lib ctl_write_def write_atomically_def or_fail_def from_arg_error_def Let_def)
qed

lemma two_borrows: "parser_borrows two_from_slice"
  by (auto simp: parser_borrows_def two_from_slice_def view_borrowable_def view_of_def sample_contents_def borrowable_def
      ord_of_def split: if_splits)

theorem ctl_bump_sound_witness:
  "\<exists>w' bs' body v'. run_bump_version bump_lib sample_ctl_env sample_bump_args bump_world = Some (Inr (), w')
     \<and> cw_fs w' ''o'' = Some bs'
     \<and> open_file clear_aead two_from_slice bs' (SealKey (replicate 32 9)) (Some 7) = Inr \<lparr>plaintext = body, opened_version = 8\<rparr>
     \<and> two_from_slice body = Some v' \<and> v_secrets v' = [(''app/db'', ''1'')]"
proof -
  obtain w' where r: "run_bump_version bump_lib sample_ctl_env sample_bump_args bump_world = Some (Inr (), w')"
    using sample_bumps by blast
  have lib: "aead_round_trip (cl_aead bump_lib)" "json_round_trip (cl_to_vec bump_lib) (cl_from_slice bump_lib) id"
    "parser_borrows (cl_from_slice bump_lib)" "\<And>n. ce_nonce sample_ctl_env = Some n \<Longrightarrow> length n = NONCE_LEN"
    by (simp_all add: bump_lib_def sample_ctl_lib_def sample_ctl_env_def clear_aead_ok two_json two_borrows)
  from ctl_bump_sound [OF lib r] obtain path bs key d v n bs' body v' where p: "arg_value sample_bump_args ''--in'' = Some path"
    "cw_fs bump_world path = Some bs" "ctl_seal_key sample_ctl_env = Inr key"
    "open_file (cl_aead bump_lib) (cl_from_slice bump_lib) bs key None = Inr d"
    "opened_view (cl_from_slice bump_lib) d = Inr v" "cw_fs w' path = Some bs'"
    "cw_stdout w' = cw_stdout bump_world @ [Bumped_Line path (opened_version d) n]"
    and opens: "\<forall>held. (\<forall>x. held = Some x \<longrightarrow> x \<le> n) \<longrightarrow>
        open_file (cl_aead bump_lib) (cl_from_slice bump_lib) bs' key held = Inr \<lparr>plaintext = body, opened_version = n\<rparr>"
    and v': "cl_from_slice bump_lib body = Some v'" "v_version v' = n"
    and same: "v_secrets v' = map (\<lambda>(q, t). (q, id (case cl_value bump_lib t of Some j \<Rightarrow> j | None \<Rightarrow> cl_null bump_lib))) (v_secrets v)"
    and above: "opened_version d < n \<or> opened_version d = - 1 \<and> n = 0 \<and> arg_value sample_bump_args ''--to'' = None"
    by blast
  have at: "path = ''o''" "bs = sample_file" "key = SealKey (replicate 32 9)"
    using p(1-3) sample_seal_key by (auto simp: sample_bump_args_def arg_value_def bump_world_def)
  have libs: "cl_aead bump_lib = clear_aead" "cl_from_slice bump_lib = two_from_slice" "cl_value bump_lib = Some"
    by (simp_all add: bump_lib_def sample_ctl_lib_def)
  have ver: "opened_version d = 7"
    using peek_open_agree [OF p(4)] at(2) by (simp add: peek_version_def sample_file_def header_parse_write)
  with v' above have "n = 8" by (auto simp: libs two_from_slice_def view_of_def sample_contents_def split: if_splits)
  moreover have "v_secrets v = [(''app/db'', ''1'')]"
    using p(5) by (auto simp: libs opened_view_def two_from_slice_def view_of_def sample_contents_def split: option.splits if_splits)
  ultimately show ?thesis using r p(6) opens v' same ver at libs by auto
qed

section \<open>What the tool discloses\<close>






















lemma from_arg_error_Inl [simp]:
  "from_arg_error r = Inl f \<longleftrightarrow> (\<exists>m. r = Inl (ArgError m) \<and> f = Usage_Failure (Arg_Problem m))"
  by (cases r) (auto simp: from_arg_error_def split: arg_error.splits)



























section \<open>Corner cases\<close>

text \<open>The successor of the last version is zero.\<close>

lemma bump_wraps: "next_version path (- 1) None = Inr 0"
  by (simp add: next_version_def)

text \<open>A token's name whose eighth byte is inside a character makes the warning panic.\<close>

lemma short_name_panics:
  "validate_token_table \<lparr>c_version = 1, c_secrets = [], c_policies = [],
     c_tokens = [(''aaaaaaa'' @ [CHR 0xC3, CHR 0xA9], [''p''])], c_token_key = Some ''00''\<rparr> = None"
  by (simp add: validate_token_table_def slice_to_def is_char_boundary_def continuation_def ord_of_def)

text \<open>A value of the file that does not parse as JSON becomes \<open>null\<close> when its version is raised.\<close>

lemma owned_nulls:
  "cl_value lib t = None \<Longrightarrow> v_secrets v = [(path, t)] \<Longrightarrow> c_secrets (owned lib v) = [(path, cl_null lib)]"
  by (simp add: owned_def)

end
