(* ===== verification/Queue_Threads.thy ===== *)
theory Queue_Threads
  imports Vyukov_Queue
begin

text \<open>
  \<open>components/kallisto_queue/src/lib.rs\<close> with any number of threads. Every shared access of
  \<open>claim\<close>, \<open>enqueue\<close> and \<open>dequeue\<close> (the load of a cursor, the load of a sequence number, the
  compare-and-swap, the access to the data, the store of the sequence number) is one step, and the
  steps of all threads interleave in any order, as under sequential consistency. Positions are
  64-bit words, as in the code.

  Shown here: as long as fewer than about \<open>2 ^ 63\<close> values have been enqueued (a suspended thread could
  otherwise mistake a cursor that went all the way round for its own), at most one thread accesses
  the data of a slot at a time, no thread overwrites a live value or reads an uninitialised one,
  the value of every position is handed out once, and a queue at rest holds exactly the values not
  taken yet, in the order in which their positions were claimed; \<open>Full\<close> and \<open>Empty\<close> are answered only
  when they are justified, and a call that runs alone ends within six steps.
\<close>

section \<open>The steps of a thread\<close>

datatype 'a side = Producing 'a | Consuming

text \<open>Where a thread is. The positions are those it holds in its local variables.\<close>

datatype 'a pc =
    Idle
  | Load_Cursor "'a side"
  | Load_Sequence "'a side" u64
  | Compare_Swap "'a side" u64
  | Write_Data u64 'a
  | Publish u64
  | Read_Data u64
  | Release u64 "'a option"

fun cursor :: "'a side \<Rightarrow> 'a queue \<Rightarrow> u64" where
  "cursor (Producing _) q = enqueue_pos q"
| "cursor Consuming q = dequeue_pos q"

fun ready :: "'a side \<Rightarrow> u64" where
  "ready (Producing _) = EMPTY"
| "ready Consuming = FILLED"

fun won :: "'a side \<Rightarrow> u64 \<Rightarrow> 'a queue \<Rightarrow> 'a queue \<times> 'a pc" where
  "won (Producing v) pos q = (q\<lparr>enqueue_pos := pos + 1\<rparr>, Write_Data pos v)"
| "won Consuming pos q = (q\<lparr>dequeue_pos := pos + 1\<rparr>, Read_Data pos)"

definition at_slot :: "('a node \<Rightarrow> 'a node) \<Rightarrow> u64 \<Rightarrow> 'a queue \<Rightarrow> 'a queue" where
  "at_slot f pos q = set_node q (slot_index q pos) (f (buffer q ! slot_index q pos))"

text \<open>One step; \<open>spurious\<close> says whether a weak compare-and-swap fails although the cursor matches.\<close>

fun act :: "bool \<Rightarrow> 'a queue \<Rightarrow> 'a pc \<Rightarrow> 'a queue \<times> 'a pc" where
  "act spurious q Idle = (q, Idle)"
| "act spurious q (Load_Cursor sd) = (q, Load_Sequence sd (cursor sd q))"
| "act spurious q (Load_Sequence sd pos) =
     (q, if lag q pos (ready sd) < 0 then Idle
         else if lag q pos (ready sd) > 0 then Load_Cursor sd
         else Compare_Swap sd pos)"
| "act spurious q (Compare_Swap sd pos) =
     (if \<not> spurious \<and> cursor sd q = pos then won sd pos q else (q, Load_Sequence sd (cursor sd q)))"
| "act spurious q (Write_Data pos v) = (at_slot (\<lambda>n. n\<lparr>payload := Some v\<rparr>) pos q, Publish pos)"
| "act spurious q (Publish pos) = (at_slot (\<lambda>n. n\<lparr>sequence := pos + FILLED\<rparr>) pos q, Idle)"
| "act spurious q (Read_Data pos) =
     (at_slot (\<lambda>n. n\<lparr>payload := None\<rparr>) pos q, Release pos (payload (buffer q ! slot_index q pos)))"
| "act spurious q (Release pos v) =
     (at_slot (\<lambda>n. n\<lparr>sequence := pos + word_of_nat (length (buffer q))\<rparr>) pos q, Idle)"

text \<open>
  The queue, the threads, and what happened so far: the values by position, the number of positions
  taken, and what calls of \<open>dequeue\<close> returned, with their positions.
\<close>

record 'a threads =
  qt_queue :: "'a queue"
  qt_pc :: "nat \<Rightarrow> 'a pc"
  qt_in :: "'a list"
  qt_taken :: nat
  qt_out :: "(u64 \<times> 'a option) list"

definition advance :: "bool \<Rightarrow> nat \<Rightarrow> 'a threads \<Rightarrow> 'a threads" where
  "advance spurious t s =
     (let pc = qt_pc s t; (q, pc') = act spurious (qt_queue s) pc
      in \<lparr>qt_queue = q, qt_pc = (qt_pc s)(t := pc'),
          qt_in = (case pc' of Write_Data _ v \<Rightarrow> qt_in s @ [v] | _ \<Rightarrow> qt_in s),
          qt_taken = (case pc' of Read_Data _ \<Rightarrow> Suc (qt_taken s) | _ \<Rightarrow> qt_taken s),
          qt_out = (case pc of Release pos v \<Rightarrow> qt_out s @ [(pos, v)] | _ \<Rightarrow> qt_out s)\<rparr>)"

inductive queue_run :: "nat \<Rightarrow> 'a threads \<Rightarrow> bool" for capacity where
  new: "queue_new capacity = Some q \<Longrightarrow>
     queue_run capacity \<lparr>qt_queue = q, qt_pc = \<lambda>_. Idle, qt_in = [], qt_taken = 0, qt_out = []\<rparr>"
| call: "queue_run capacity s \<Longrightarrow> qt_pc s t = Idle \<Longrightarrow>
     queue_run capacity (s\<lparr>qt_pc := (qt_pc s)(t := Load_Cursor sd)\<rparr>)"
| step: "queue_run capacity s \<Longrightarrow> queue_run capacity (advance spurious t s)"

section \<open>The invariant\<close>

text \<open>What a slot is going through, on behalf of which thread.\<close>

datatype phase = Vacant | Claimed_By nat | Written_By nat | Filled | Taken_By nat | Moved_By nat

fun sequence_in :: "phase \<Rightarrow> nat \<Rightarrow> nat" where
  "sequence_in Filled p = Suc p"
| "sequence_in (Taken_By _) p = Suc p"
| "sequence_in (Moved_By _) p = Suc p"
| "sequence_in _ p = p"

fun data_in :: "phase \<Rightarrow> 'a \<Rightarrow> 'a option" where
  "data_in (Written_By _) v = Some v"
| "data_in Filled v = Some v"
| "data_in (Taken_By _) v = Some v"
| "data_in _ v = None"

text \<open>
  \<open>n\<close> positions are claimed by producers and \<open>d\<close> by consumers. A vacant slot waits for a position
  not claimed yet, any other slot belongs to the last position claimed at it.
\<close>

fun window :: "nat \<Rightarrow> nat \<Rightarrow> nat \<Rightarrow> phase \<Rightarrow> nat \<Rightarrow> bool" where
  "window cap n d Vacant p \<longleftrightarrow> n \<le> p \<and> p < d + cap"
| "window cap n d (Claimed_By _) p \<longleftrightarrow> d \<le> p \<and> p < n \<and> n \<le> p + cap"
| "window cap n d (Written_By _) p \<longleftrightarrow> d \<le> p \<and> p < n \<and> n \<le> p + cap"
| "window cap n d Filled p \<longleftrightarrow> d \<le> p \<and> p < n \<and> n \<le> p + cap"
| "window cap n d (Taken_By _) p \<longleftrightarrow> p < d \<and> p < n \<and> n \<le> p + cap"
| "window cap n d (Moved_By _) p \<longleftrightarrow> p < d \<and> p < n \<and> n \<le> p + cap"

text \<open>The owner of a slot is at the step the phase says.\<close>

fun owner :: "(nat \<Rightarrow> 'a pc) \<Rightarrow> 'a list \<Rightarrow> phase \<Rightarrow> nat \<Rightarrow> bool" where
  "owner pcs ins (Claimed_By t) p \<longleftrightarrow> pcs t = Write_Data (word_of_nat p) (ins ! p)"
| "owner pcs ins (Written_By t) p \<longleftrightarrow> pcs t = Publish (word_of_nat p)"
| "owner pcs ins (Taken_By t) p \<longleftrightarrow> pcs t = Read_Data (word_of_nat p)"
| "owner pcs ins (Moved_By t) p \<longleftrightarrow> pcs t = Release (word_of_nat p) (Some (ins ! p))"
| "owner pcs ins _ p \<longleftrightarrow> True"

text \<open>Conversely, what a thread knows at each step.\<close>

fun limit :: "'a side \<Rightarrow> nat \<Rightarrow> nat \<Rightarrow> nat" where
  "limit (Producing _) n d = n"
| "limit Consuming n d = d"

fun expected :: "'a side \<Rightarrow> phase" where
  "expected (Producing _) = Vacant"
| "expected Consuming = Filled"

fun knows :: "nat \<Rightarrow> nat \<Rightarrow> nat \<Rightarrow> (nat \<Rightarrow> nat \<times> phase) \<Rightarrow> nat \<Rightarrow> 'a pc \<Rightarrow> bool" where
  "knows cap n d g t (Load_Sequence sd pos) \<longleftrightarrow> (\<exists>p. pos = word_of_nat p \<and> p \<le> limit sd n d)"
| "knows cap n d g t (Compare_Swap sd pos) \<longleftrightarrow>
     (\<exists>p. pos = word_of_nat p \<and> p \<le> limit sd n d \<and> (p = limit sd n d \<longrightarrow> g (p mod cap) = (p, expected sd)))"
| "knows cap n d g t (Write_Data pos v) \<longleftrightarrow> (\<exists>p. pos = word_of_nat p \<and> g (p mod cap) = (p, Claimed_By t))"
| "knows cap n d g t (Publish pos) \<longleftrightarrow> (\<exists>p. pos = word_of_nat p \<and> g (p mod cap) = (p, Written_By t))"
| "knows cap n d g t (Read_Data pos) \<longleftrightarrow> (\<exists>p. pos = word_of_nat p \<and> g (p mod cap) = (p, Taken_By t))"
| "knows cap n d g t (Release pos v) \<longleftrightarrow> (\<exists>p. pos = word_of_nat p \<and> g (p mod cap) = (p, Moved_By t))"
| "knows cap n d g t _ \<longleftrightarrow> True"

definition in_hand :: "nat \<Rightarrow> (nat \<Rightarrow> nat \<times> phase) \<Rightarrow> nat \<Rightarrow> bool" where
  "in_hand cap g p \<longleftrightarrow> (\<exists>t. g (p mod cap) = (p, Taken_By t) \<or> g (p mod cap) = (p, Moved_By t))"

text \<open>What was returned: once each, the values of the positions taken and no longer in hand.\<close>

definition returned :: "nat \<Rightarrow> (nat \<Rightarrow> nat \<times> phase) \<Rightarrow> 'a list \<Rightarrow> nat \<Rightarrow> (u64 \<times> 'a option) list \<Rightarrow> bool" where
  "returned cap g ins d out \<longleftrightarrow>
     (\<exists>ps. out = map (\<lambda>p. (word_of_nat p, Some (ins ! p))) ps \<and> distinct ps \<and> set ps = {p. p < d \<and> \<not> in_hand cap g p})"

definition threads_inv :: "nat \<Rightarrow> (nat \<Rightarrow> nat \<times> phase) \<Rightarrow> 'a threads \<Rightarrow> bool" where
  "threads_inv cap g s \<longleftrightarrow>
     (let q = qt_queue s; ins = qt_in s; n = length ins; d = qt_taken s in
      length (buffer q) = cap \<and> is_power_of_two cap \<and> 2 \<le> cap \<and> d \<le> n \<and> n \<le> d + cap
      \<and> enqueue_pos q = word_of_nat n \<and> dequeue_pos q = word_of_nat d
      \<and> (\<forall>i < cap. \<forall>p ph. g i = (p, ph) \<longrightarrow> p mod cap = i \<and> window cap n d ph p \<and> owner (qt_pc s) ins ph p
           \<and> buffer q ! i = \<lparr>sequence = word_of_nat (sequence_in ph p), payload = data_in ph (ins ! p)\<rparr>)
      \<and> (\<forall>t. knows cap n d g t (qt_pc s t))
      \<and> returned cap g ins d (qt_out s))"

lemma residue_unique:
  assumes "a mod n = b mod n" and "a \<le> b" and "b < a + n"
  shows "a = (b :: nat)"
proof -
  have "b - a < n" "0 < n" using assms by linarith+
  with lap_distinct [of 0 n "b - a" a] assms show ?thesis by simp
qed

lemma word_of_nat_eq: "a < 2 ^ 64 \<Longrightarrow> b < 2 ^ 64 \<Longrightarrow> (word_of_nat a :: u64) = word_of_nat b \<longleftrightarrow> a = b"
  by (simp add: word_of_nat_eq_iff take_bit_nat_eq_self)

fun owned :: "nat \<Rightarrow> phase \<Rightarrow> bool" where
  "owned t (Claimed_By u) \<longleftrightarrow> t = u"
| "owned t (Written_By u) \<longleftrightarrow> t = u"
| "owned t (Taken_By u) \<longleftrightarrow> t = u"
| "owned t (Moved_By u) \<longleftrightarrow> t = u"
| "owned t _ \<longleftrightarrow> False"

lemma inv_slot:
  assumes "threads_inv cap g s" and "i < cap" and "g i = (p, ph)"
  shows "p mod cap = i" "window cap (length (qt_in s)) (qt_taken s) ph p" "owner (qt_pc s) (qt_in s) ph p"
    "buffer (qt_queue s) ! i = \<lparr>sequence = word_of_nat (sequence_in ph p), payload = data_in ph (qt_in s ! p)\<rparr>"
  using assms by (auto simp: threads_inv_def Let_def)

lemma inv_shape:
  assumes "threads_inv cap g s"
  shows "length (buffer (qt_queue s)) = cap" "is_power_of_two cap" "2 \<le> cap" "qt_taken s \<le> length (qt_in s)"
    "enqueue_pos (qt_queue s) = word_of_nat (length (qt_in s))" "dequeue_pos (qt_queue s) = word_of_nat (qt_taken s)"
    "knows cap (length (qt_in s)) (qt_taken s) g t (qt_pc s t)"
  using assms by (auto simp: threads_inv_def Let_def)

lemma inv_room: "threads_inv cap g s \<Longrightarrow> length (qt_in s) \<le> qt_taken s + cap"
  by (simp add: threads_inv_def Let_def)

lemma threads_invI:
  assumes "length (buffer (qt_queue s)) = cap" "is_power_of_two cap" "2 \<le> cap" "qt_taken s \<le> length (qt_in s)"
    "length (qt_in s) \<le> qt_taken s + cap"
    "enqueue_pos (qt_queue s) = word_of_nat (length (qt_in s))" "dequeue_pos (qt_queue s) = word_of_nat (qt_taken s)"
    and "\<And>i p ph. i < cap \<Longrightarrow> g i = (p, ph) \<Longrightarrow>
       p mod cap = i \<and> window cap (length (qt_in s)) (qt_taken s) ph p \<and> owner (qt_pc s) (qt_in s) ph p
       \<and> buffer (qt_queue s) ! i = \<lparr>sequence = word_of_nat (sequence_in ph p), payload = data_in ph (qt_in s ! p)\<rparr>"
    and "\<And>t. knows cap (length (qt_in s)) (qt_taken s) g t (qt_pc s t)"
    and "returned cap g (qt_in s) (qt_taken s) (qt_out s)"
  shows "threads_inv cap g s"
  using assms unfolding threads_inv_def Let_def by blast

lemma inv_out:
  assumes "threads_inv cap g s"
  shows "returned cap g (qt_in s) (qt_taken s) (qt_out s)"
  using assms unfolding threads_inv_def Let_def by blast

lemma inv_index: "threads_inv cap g s \<Longrightarrow> slot_index (qt_queue s) (word_of_nat p) = p mod cap"
  using mask_index [of "qt_queue s" p] inv_shape by metis

lemma window_claimed: "window cap n d ph p \<Longrightarrow> owned t ph \<Longrightarrow> p < n \<and> n \<le> p + cap"
  by (cases ph) auto

lemma owned_once:
  assumes inv: "threads_inv cap g s" and few: "length (qt_in s) < 2 ^ 63"
    and i: "i < cap" "g i = (p, ph)" "owned t ph" and j: "j < cap" "g j = (r, ph')" "owned t ph'"
  shows "i = j"
proof -
  have bounds: "p < 2 ^ 64" "r < 2 ^ 64"
    using window_claimed [OF inv_slot(2) [OF inv i(1,2)] i(3)] window_claimed [OF inv_slot(2) [OF inv j(1,2)] j(3)] few by auto
  have "(word_of_nat p :: u64) = word_of_nat r"
    using inv_slot(3) [OF inv i(1,2)] inv_slot(3) [OF inv j(1,2)] i(3) j(3) by (cases ph; cases ph') auto
  then have "p = r" using word_of_nat_eq [OF bounds] by blast
  then show ?thesis using inv_slot(1) [OF inv i(1,2)] inv_slot(1) [OF inv j(1,2)] by simp
qed

lemma owner_other: "\<not> owned t ph \<Longrightarrow> owner (pcs(t := x)) ins ph p = owner pcs ins ph p"
  by (cases ph) auto

lemma knows_mono:
  assumes "knows cap n d g u pc"
    and keep: "\<And>p ph. g (p mod cap) = (p, ph) \<Longrightarrow> owned u ph \<or> ph = Vacant \<or> ph = Filled \<Longrightarrow> g' (p mod cap) = (p, ph)"
  shows "knows cap n d g' u pc"
proof (cases pc)
  case (Compare_Swap sd pos)
  have "expected sd = Vacant \<or> expected sd = Filled" by (cases sd) auto
  with assms(1) keep Compare_Swap show ?thesis by fastforce
next
  case (Write_Data pos v)
  with assms(1) obtain p where "pos = word_of_nat p" "g (p mod cap) = (p, Claimed_By u)" by auto
  with keep [of p "Claimed_By u"] Write_Data show ?thesis by auto
next
  case (Publish pos)
  with assms(1) obtain p where "pos = word_of_nat p" "g (p mod cap) = (p, Written_By u)" by auto
  with keep [of p "Written_By u"] Publish show ?thesis by auto
next
  case (Read_Data pos)
  with assms(1) obtain p where "pos = word_of_nat p" "g (p mod cap) = (p, Taken_By u)" by auto
  with keep [of p "Taken_By u"] Read_Data show ?thesis by auto
next
  case (Release pos v)
  with assms(1) obtain p where "pos = word_of_nat p" "g (p mod cap) = (p, Moved_By u)" by auto
  with keep [of p "Moved_By u"] Release show ?thesis by auto
qed (use assms(1) in auto)

lemma knows_other:
  assumes "knows cap n d g u pc" and "u \<noteq> t" and "owned t (snd (g i))"
  shows "knows cap n d (g(i := z)) u pc"
  using assms(1)
proof (rule knows_mono)
  fix p ph
  assume "g (p mod cap) = (p, ph)" and "owned u ph \<or> ph = Vacant \<or> ph = Filled"
  moreover from this(2) have "\<not> owned t ph" using assms(2) by (cases ph) auto
  ultimately show "(g(i := z)) (p mod cap) = (p, ph)" using assms(3) by auto
qed

text \<open>
  The owner of a slot moves it on: to the next phase of the same position, or to the position one lap
  later.
\<close>

lemma owner_moves:
  fixes s :: "'a threads"
  assumes inv: "threads_inv cap g s" and few: "length (qt_in s) < 2 ^ 63"
    and g: "g (p mod cap) = (p, ph)" "owned t ph"
    and same: "p' mod cap = p mod cap" and win: "window cap (length (qt_in s)) (qt_taken s) ph' p'"
    and own: "owner ((qt_pc s)(t := pc')) (qt_in s) ph' p'"
    and knows: "knows cap (length (qt_in s)) (qt_taken s) (g(p mod cap := (p', ph'))) t pc'"
    and buf: "buffer q' = (buffer (qt_queue s))[p mod cap := \<lparr>sequence = word_of_nat (sequence_in ph' p'), payload = data_in ph' (qt_in s ! p')\<rparr>]"
      "enqueue_pos q' = enqueue_pos (qt_queue s)" "dequeue_pos q' = dequeue_pos (qt_queue s)"
    and out: "returned cap (g(p mod cap := (p', ph'))) (qt_in s) (qt_taken s) out'"
  shows "threads_inv cap (g(p mod cap := (p', ph'))) (s\<lparr>qt_queue := q', qt_pc := (qt_pc s)(t := pc'), qt_out := out'\<rparr>)"
proof -
  let ?i = "p mod cap" and ?g = "g(p mod cap := (p', ph'))"
  note shape = inv_shape [OF inv]
  have i: "?i < cap" using shape(3) by simp
  have slots: "r mod cap = j \<and> window cap (length (qt_in s)) (qt_taken s) x r \<and> owner ((qt_pc s)(t := pc')) (qt_in s) x r
      \<and> buffer q' ! j = \<lparr>sequence = word_of_nat (sequence_in x r), payload = data_in x (qt_in s ! r)\<rparr>"
    if j: "j < cap" "?g j = (r, x)" for j r x
  proof (cases "j = ?i")
    case True
    with j same win own buf(1) shape(1) i show ?thesis by auto
  next
    case False
    then have gj: "g j = (r, x)" using j by simp
    have "\<not> owned t x" using owned_once [OF inv few i g j(1) gj] False by auto
    with inv_slot [OF inv j(1) gj] buf(1) False show ?thesis by (simp add: owner_other)
  qed
  have others: "knows cap (length (qt_in s)) (qt_taken s) ?g u (((qt_pc s)(t := pc')) u)" for u
    using knows knows_other [OF shape(7) [of u], of t ?i "(p', ph')"] g by (cases "u = t") auto
  let ?s = "s\<lparr>qt_queue := q', qt_pc := (qt_pc s)(t := pc'), qt_out := out'\<rparr>"
  have fields: "qt_queue ?s = q'" "qt_pc ?s = (qt_pc s)(t := pc')" "qt_in ?s = qt_in s" "qt_taken ?s = qt_taken s" "qt_out ?s = out'"
    by simp_all
  show ?thesis
  proof (rule threads_invI; (unfold fields)?)
    show "length (buffer q') = cap" using shape(1) buf(1) by simp
    show "enqueue_pos q' = word_of_nat (length (qt_in s))" "dequeue_pos q' = word_of_nat (qt_taken s)"
      using shape(5,6) buf(2,3) by simp_all
  qed (fact shape inv_room [OF inv] slots others out)+
qed

lemma in_hand_upd:
  "in_hand cap (g(p mod cap := z)) r \<longleftrightarrow>
     (if r mod cap = p mod cap then \<exists>t. z = (r, Taken_By t) \<or> z = (r, Moved_By t) else in_hand cap g r)"
  by (auto simp: in_hand_def)

fun at_hand :: "phase \<Rightarrow> bool" where
  "at_hand (Taken_By _) = True"
| "at_hand (Moved_By _) = True"
| "at_hand _ = False"

lemma returned_same:
  assumes "g (p mod cap) = (p, ph)" and "at_hand ph' = at_hand ph"
  shows "returned cap (g(p mod cap := (p, ph'))) ins d out = returned cap g ins d out"
proof -
  have "in_hand cap (g(p mod cap := (p, ph'))) r = in_hand cap g r" for r
    using assms by (cases ph; cases ph') (auto simp: in_hand_def)
  then show ?thesis by (simp add: returned_def)
qed

lemma at_slot_buffer:
  assumes "threads_inv cap g s"
  shows "buffer (at_slot f (word_of_nat p) (qt_queue s)) = (buffer (qt_queue s))[p mod cap := f (buffer (qt_queue s) ! (p mod cap))]"
    "enqueue_pos (at_slot f (word_of_nat p) (qt_queue s)) = enqueue_pos (qt_queue s)"
    "dequeue_pos (at_slot f (word_of_nat p) (qt_queue s)) = dequeue_pos (qt_queue s)"
  by (simp_all add: at_slot_def set_node_def inv_index [OF assms])

lemma inv_mod_less: "threads_inv cap g s \<Longrightarrow> p mod cap < cap"
  using inv_shape(3) [of cap g s] by simp

lemma write_step:
  assumes inv: "threads_inv cap g s" and few: "length (qt_in s) < 2 ^ 63" and pc: "qt_pc s t = Write_Data pos v"
  shows "\<exists>g'. threads_inv cap g' (advance spurious t s)"
proof -
  obtain p where p: "pos = word_of_nat p" "g (p mod cap) = (p, Claimed_By t)" using inv_shape(7) [OF inv, of t] pc by auto
  note slot = inv_slot [OF inv inv_mod_less [OF inv] p(2)]
  let ?q = "at_slot (\<lambda>n. n\<lparr>payload := Some v\<rparr>) pos (qt_queue s)"
  have "threads_inv cap (g(p mod cap := (p, Written_By t)))
      (s\<lparr>qt_queue := ?q, qt_pc := (qt_pc s)(t := Publish pos), qt_out := qt_out s\<rparr>)"
  proof (rule owner_moves [OF inv few p(2)])
    show "returned cap (g(p mod cap := (p, Written_By t))) (qt_in s) (qt_taken s) (qt_out s)"
      by (subst returned_same [where g = g, OF p(2)]) (simp, rule inv_out [OF inv])
  qed (use slot p pc at_slot_buffer [OF inv, of _ p] in auto)
  moreover have "advance spurious t s = s\<lparr>qt_queue := ?q, qt_pc := (qt_pc s)(t := Publish pos), qt_out := qt_out s\<rparr>"
    by (simp add: advance_def pc)
  ultimately show ?thesis by metis
qed

lemma publish_step:
  assumes inv: "threads_inv cap g s" and few: "length (qt_in s) < 2 ^ 63" and pc: "qt_pc s t = Publish pos"
  shows "\<exists>g'. threads_inv cap g' (advance spurious t s)"
proof -
  obtain p where p: "pos = word_of_nat p" "g (p mod cap) = (p, Written_By t)" using inv_shape(7) [OF inv, of t] pc by auto
  note slot = inv_slot [OF inv inv_mod_less [OF inv] p(2)]
  let ?q = "at_slot (\<lambda>n. n\<lparr>sequence := pos + FILLED\<rparr>) pos (qt_queue s)"
  have "threads_inv cap (g(p mod cap := (p, Filled)))
      (s\<lparr>qt_queue := ?q, qt_pc := (qt_pc s)(t := Idle), qt_out := qt_out s\<rparr>)"
  proof (rule owner_moves [OF inv few p(2)])
    show "returned cap (g(p mod cap := (p, Filled))) (qt_in s) (qt_taken s) (qt_out s)"
      by (subst returned_same [where g = g, OF p(2)]) (simp, rule inv_out [OF inv])
  qed (use slot p pc at_slot_buffer [OF inv, of _ p] in \<open>auto simp: FILLED_def add.commute\<close>)
  moreover have "advance spurious t s = s\<lparr>qt_queue := ?q, qt_pc := (qt_pc s)(t := Idle), qt_out := qt_out s\<rparr>"
    by (simp add: advance_def pc)
  ultimately show ?thesis by metis
qed

lemma read_step:
  assumes inv: "threads_inv cap g s" and few: "length (qt_in s) < 2 ^ 63" and pc: "qt_pc s t = Read_Data pos"
  shows "\<exists>g'. threads_inv cap g' (advance spurious t s)"
proof -
  obtain p where p: "pos = word_of_nat p" "g (p mod cap) = (p, Taken_By t)" using inv_shape(7) [OF inv, of t] pc by auto
  note slot = inv_slot [OF inv inv_mod_less [OF inv] p(2)]
  let ?q = "at_slot (\<lambda>n. n\<lparr>payload := None\<rparr>) pos (qt_queue s)" and ?pc = "Release pos (Some (qt_in s ! p))"
  have "threads_inv cap (g(p mod cap := (p, Moved_By t)))
      (s\<lparr>qt_queue := ?q, qt_pc := (qt_pc s)(t := ?pc), qt_out := qt_out s\<rparr>)"
  proof (rule owner_moves [OF inv few p(2)])
    show "returned cap (g(p mod cap := (p, Moved_By t))) (qt_in s) (qt_taken s) (qt_out s)"
      by (subst returned_same [where g = g, OF p(2)]) (simp, rule inv_out [OF inv])
  qed (use slot p pc at_slot_buffer [OF inv, of _ p] in auto)
  moreover have "advance spurious t s = s\<lparr>qt_queue := ?q, qt_pc := (qt_pc s)(t := ?pc), qt_out := qt_out s\<rparr>"
    using slot(4) by (simp add: advance_def pc p(1) inv_index [OF inv])
  ultimately show ?thesis by metis
qed

lemma returned_more:
  assumes "returned cap g ins d out" and "g (p mod cap) = (p, ph)" and "at_hand ph" and "p < d" and "0 < cap"
  shows "returned cap (g(p mod cap := (p + cap, Vacant))) ins d (out @ [(word_of_nat p, Some (ins ! p))])"
proof -
  obtain ps where ps: "out = map (\<lambda>p. (word_of_nat p, Some (ins ! p))) ps" "distinct ps" "set ps = {p. p < d \<and> \<not> in_hand cap g p}"
    using assms(1) by (auto simp: returned_def)
  have hand: "in_hand cap g p" using assms(2,3) by (cases ph) (auto simp: in_hand_def)
  have "in_hand cap (g(p mod cap := (p + cap, Vacant))) r \<longleftrightarrow> in_hand cap g r \<and> r \<noteq> p" for r
    using assms(2) by (auto simp: in_hand_def)
  then have "set (ps @ [p]) = {r. r < d \<and> \<not> in_hand cap (g(p mod cap := (p + cap, Vacant))) r}" using ps(3) assms(4) hand by auto
  moreover have "distinct (ps @ [p])" using ps(2,3) hand by simp
  ultimately show ?thesis unfolding returned_def using ps(1) by (intro exI [of _ "ps @ [p]"]) simp
qed

lemma release_step:
  assumes inv: "threads_inv cap g s" and few: "length (qt_in s) < 2 ^ 63" and pc: "qt_pc s t = Release pos v"
  shows "\<exists>g'. threads_inv cap g' (advance spurious t s)"
proof -
  obtain p where p: "pos = word_of_nat p" "g (p mod cap) = (p, Moved_By t)" using inv_shape(7) [OF inv, of t] pc by auto
  note slot = inv_slot [OF inv inv_mod_less [OF inv] p(2)] and shape = inv_shape [OF inv]
  have v: "v = Some (qt_in s ! p)" using slot(3) pc by auto
  let ?q = "at_slot (\<lambda>n. n\<lparr>sequence := pos + word_of_nat cap\<rparr>) pos (qt_queue s)"
  have "threads_inv cap (g(p mod cap := (p + cap, Vacant)))
      (s\<lparr>qt_queue := ?q, qt_pc := (qt_pc s)(t := Idle), qt_out := qt_out s @ [(pos, v)]\<rparr>)"
  proof (rule owner_moves [OF inv few p(2)])
    show "returned cap (g(p mod cap := (p + cap, Vacant))) (qt_in s) (qt_taken s) (qt_out s @ [(pos, v)])"
      unfolding p(1) v by (rule returned_more [OF inv_out [OF inv] p(2)]) (use slot(2) shape(3) in auto)
  qed (use slot p pc at_slot_buffer [OF inv, of _ p] in auto)
  moreover have "advance spurious t s = s\<lparr>qt_queue := ?q, qt_pc := (qt_pc s)(t := Idle), qt_out := qt_out s @ [(pos, v)]\<rparr>"
    by (simp add: advance_def pc shape(1))
  ultimately show ?thesis by metis
qed

text \<open>Steps that change nothing but where the thread is.\<close>

lemma quiet_step:
  assumes inv: "threads_inv cap g s" and free: "\<And>i p ph. i < cap \<Longrightarrow> g i = (p, ph) \<Longrightarrow> \<not> owned t ph"
    and knows: "knows cap (length (qt_in s)) (qt_taken s) g t pc'"
  shows "threads_inv cap g (s\<lparr>qt_pc := (qt_pc s)(t := pc')\<rparr>)"
proof -
  note shape = inv_shape [OF inv]
  show ?thesis
  proof (rule threads_invI)
    show "knows cap (length (qt_in (s\<lparr>qt_pc := (qt_pc s)(t := pc')\<rparr>))) (qt_taken (s\<lparr>qt_pc := (qt_pc s)(t := pc')\<rparr>)) g u
        (qt_pc (s\<lparr>qt_pc := (qt_pc s)(t := pc')\<rparr>) u)" for u
      using knows shape(7) [of u] by simp
    fix i p ph
    assume i: "i < cap" "g i = (p, ph)"
    show "p mod cap = i \<and> window cap (length (qt_in (s\<lparr>qt_pc := (qt_pc s)(t := pc')\<rparr>))) (qt_taken (s\<lparr>qt_pc := (qt_pc s)(t := pc')\<rparr>)) ph p
        \<and> owner (qt_pc (s\<lparr>qt_pc := (qt_pc s)(t := pc')\<rparr>)) (qt_in (s\<lparr>qt_pc := (qt_pc s)(t := pc')\<rparr>)) ph p
        \<and> buffer (qt_queue (s\<lparr>qt_pc := (qt_pc s)(t := pc')\<rparr>)) ! i
          = \<lparr>sequence = word_of_nat (sequence_in ph p), payload = data_in ph (qt_in (s\<lparr>qt_pc := (qt_pc s)(t := pc')\<rparr>) ! p)\<rparr>"
      using inv_slot [OF inv i] free [OF i] by (simp add: owner_other)
  qed (use shape inv_room [OF inv] inv_out [OF inv] in simp_all)
qed

lemma unowned:
  assumes inv: "threads_inv cap g s" and pc: "case qt_pc s t of Write_Data _ _ \<Rightarrow> False | Publish _ \<Rightarrow> False
      | Read_Data _ \<Rightarrow> False | Release _ _ \<Rightarrow> False | _ \<Rightarrow> True"
    and "i < cap" "g i = (p, ph)"
  shows "\<not> owned t ph"
  using inv_slot(3) [OF inv assms(3,4)] pc by (cases ph) auto

lemma window_bound: "window cap n d ph p \<Longrightarrow> d \<le> n \<Longrightarrow> p < n + cap"
  by (cases ph) auto

lemma window_sequence: "sequence_in ph p \<le> Suc p"
  by (cases ph) auto

text \<open>A slot that is ready for the position of the cursor is in the phase its side expects.\<close>

lemma ready_slot:
  assumes inv: "threads_inv cap g s" and few: "length (qt_in s) + 2 * cap < 2 ^ 63"
    and p: "p = limit sd (length (qt_in s)) (qt_taken s)" and lag: "lag (qt_queue s) (word_of_nat p) (ready sd) = 0"
  shows "g (p mod cap) = (p, expected sd)"
proof -
  obtain r x where g: "g (p mod cap) = (r, x)" by fastforce
  note slot = inv_slot [OF inv inv_mod_less [OF inv] g] and shape = inv_shape [OF inv]
  have r: "r < length (qt_in s) + cap" using window_bound [OF slot(2) shape(4)] .
  have "sequence (buffer (qt_queue s) ! (p mod cap)) = word_of_nat p + ready sd"
    using lag by (simp add: lag_def inv_index [OF inv] signed_eq_0_iff)
  then have eq: "(word_of_nat (sequence_in x r) :: u64) = word_of_nat (p + unat (ready sd))" using slot(4) by simp
  have "unat (ready sd) \<le> 1" by (cases sd) (simp_all add: EMPTY_def FILLED_def)
  moreover have "p \<le> length (qt_in s)" using p shape(4) by (cases sd) auto
  ultimately have seq: "sequence_in x r = p + unat (ready sd)"
    using eq word_of_nat_eq [of "sequence_in x r" "p + unat (ready sd)"] window_sequence [of x r] r few shape(3) by auto
  have apart: "r \<noteq> Suc p" "p \<noteq> Suc r"
    using residue_unique [of p cap r] residue_unique [of r cap p] slot(1) shape(3) by auto
  show ?thesis
  proof (cases sd)
    case (Producing v)
    then show ?thesis using seq slot(2) p apart g by (cases x) (auto simp: EMPTY_def)
  next
    case Consuming
    then show ?thesis using seq slot(2) p apart g by (cases x) (auto simp: FILLED_def)
  qed
qed

text \<open>A claim at a cursor leaves the other threads what they know.\<close>

lemma knows_claimed:
  assumes "knows cap n d g u pc" and "g (l mod cap) = (l, ph)"
    and "ph = Vacant \<and> l = n \<and> n' = Suc n \<and> d' = d \<or> ph = Filled \<and> l = d \<and> n' = n \<and> d' = Suc d"
  shows "knows cap n' d' (g(l mod cap := z)) u pc"
proof -
  have lim: "limit sd n d \<le> limit sd n' d'" for sd :: "'a side" using assms(3) by (cases sd) auto
  have keep: "(g(l mod cap := z)) (p mod cap) = (p, x)" if "g (p mod cap) = (p, x)" "x \<noteq> ph \<or> p \<noteq> l" for p x
    using that assms(2) by auto
  show ?thesis
  proof (cases pc)
    case (Load_Sequence sd pos)
    then show ?thesis using assms(1) lim [of sd] by (auto intro: order_trans)
  next
    case (Compare_Swap sd pos)
    then obtain p where p: "pos = word_of_nat p" "p \<le> limit sd n d" "p = limit sd n d \<longrightarrow> g (p mod cap) = (p, expected sd)"
      using assms(1) by auto
    have "p = limit sd n' d' \<longrightarrow> (g(l mod cap := z)) (p mod cap) = (p, expected sd)"
      using p(2,3) assms(3) keep [of p "expected sd"] by (cases sd) auto
    with p Compare_Swap lim [of sd] show ?thesis by (auto intro: order_trans)
  next
    case (Write_Data pos v)
    with assms(1) obtain p where "pos = word_of_nat p" "g (p mod cap) = (p, Claimed_By u)" by auto
    with keep [of p "Claimed_By u"] assms(3) Write_Data show ?thesis by auto
  next
    case (Publish pos)
    with assms(1) obtain p where "pos = word_of_nat p" "g (p mod cap) = (p, Written_By u)" by auto
    with keep [of p "Written_By u"] assms(3) Publish show ?thesis by auto
  next
    case (Read_Data pos)
    with assms(1) obtain p where "pos = word_of_nat p" "g (p mod cap) = (p, Taken_By u)" by auto
    with keep [of p "Taken_By u"] assms(3) Read_Data show ?thesis by auto
  next
    case (Release pos v)
    with assms(1) obtain p where "pos = word_of_nat p" "g (p mod cap) = (p, Moved_By u)" by auto
    with keep [of p "Moved_By u"] assms(3) Release show ?thesis by auto
  qed auto
qed

lemma returned_append:
  assumes "d \<le> length ins"
  shows "returned cap g (ins @ vs) d out = returned cap g ins d out"
proof -
  have "out = map (\<lambda>p. (word_of_nat p, Some ((ins @ vs) ! p))) ps \<longleftrightarrow> out = map (\<lambda>p. (word_of_nat p, Some (ins ! p))) ps"
    if "set ps = {p. p < d \<and> \<not> in_hand cap g p}" for ps
  proof -
    have "map (\<lambda>p. (word_of_nat p :: u64, Some ((ins @ vs) ! p))) ps = map (\<lambda>p. (word_of_nat p, Some (ins ! p))) ps"
      using that assms by (intro map_cong) (auto simp: nth_append)
    then show ?thesis by (simp only:)
  qed
  then show ?thesis unfolding returned_def by blast
qed

lemma producer_wins:
  assumes inv: "threads_inv cap g s" and few: "length (qt_in s) + 2 * cap < 2 ^ 63"
    and pc: "qt_pc s t = Compare_Swap (Producing v) pos" and won: "enqueue_pos (qt_queue s) = pos"
  shows "\<exists>g'. threads_inv cap g' (advance False t s)"
proof -
  let ?n = "length (qt_in s)" and ?i = "length (qt_in s) mod cap"
  note shape = inv_shape [OF inv]
  obtain p where p: "pos = word_of_nat p" "p \<le> ?n" "p = ?n \<longrightarrow> g (p mod cap) = (p, Vacant)"
    using shape(7) [of t] pc by auto
  have "p = ?n" using won p(1,2) shape(5) word_of_nat_eq [of p ?n] few by auto
  then have vacant: "g ?i = (?n, Vacant)" and pos: "pos = word_of_nat ?n" using p by auto
  let ?g = "g(?i := (?n, Claimed_By t))"
  let ?s = "s\<lparr>qt_queue := (qt_queue s)\<lparr>enqueue_pos := pos + 1\<rparr>, qt_pc := (qt_pc s)(t := Write_Data pos v), qt_in := qt_in s @ [v]\<rparr>"
  have free: "\<not> owned t ph" if "i < cap" "g i = (r, ph)" for i r ph using unowned [OF inv _ that] pc by simp
  have slots: "r mod cap = i \<and> window cap (Suc ?n) (qt_taken s) x r \<and> owner ((qt_pc s)(t := Write_Data pos v)) (qt_in s @ [v]) x r
      \<and> buffer (qt_queue s) ! i = \<lparr>sequence = word_of_nat (sequence_in x r), payload = data_in x ((qt_in s @ [v]) ! r)\<rparr>"
    if i: "i < cap" "?g i = (r, x)" for i r x
  proof (cases "i = ?i")
    case True
    then have "r = ?n" "x = Claimed_By t" using i by auto
    with True inv_slot [OF inv inv_mod_less [OF inv] vacant] shape pos show ?thesis by auto
  next
    case False
    then have g: "g i = (r, x)" using i by simp
    note slot = inv_slot [OF inv i(1) g]
    have "r \<noteq> ?n" "r + cap \<noteq> ?n" using slot(1) False mod_add_self2 [of r cap] by metis+
    then have "window cap (Suc ?n) (qt_taken s) x r" using slot(2) by (cases x) auto
    moreover have "owner ((qt_pc s)(t := Write_Data pos v)) (qt_in s @ [v]) x r"
      using slot(2,3) free [OF i(1) g] by (cases x) (auto simp: nth_append)
    moreover have "data_in x ((qt_in s @ [v]) ! r) = data_in x (qt_in s ! r)" using slot(2) by (cases x) (auto simp: nth_append)
    ultimately show ?thesis using slot by simp
  qed
  have knows: "knows cap (Suc ?n) (qt_taken s) ?g u (((qt_pc s)(t := Write_Data pos v)) u)" for u
  proof (cases "u = t")
    case False
    with knows_claimed [OF shape(7) [of u] vacant] show ?thesis by simp
  qed (use pos in auto)
  have fields: "qt_queue ?s = (qt_queue s)\<lparr>enqueue_pos := pos + 1\<rparr>" "qt_pc ?s = (qt_pc s)(t := Write_Data pos v)" "qt_in ?s = qt_in s @ [v]"
    "qt_taken ?s = qt_taken s" "qt_out ?s = qt_out s" "length (qt_in s @ [v]) = Suc ?n" by simp_all
  have "threads_inv cap ?g ?s"
  proof (rule threads_invI; (unfold fields)?)
    show "returned cap ?g (qt_in s @ [v]) (qt_taken s) (qt_out s)"
      using inv_out [OF inv] shape(4) by (simp add: returned_append returned_same [where g = g, OF vacant])
    fix i p ph
    assume i: "i < cap" "?g i = (p, ph)"
    show "p mod cap = i \<and> window cap (Suc ?n) (qt_taken s) ph p \<and> owner ((qt_pc s)(t := Write_Data pos v)) (qt_in s @ [v]) ph p
        \<and> buffer ((qt_queue s)\<lparr>enqueue_pos := pos + 1\<rparr>) ! i
          = \<lparr>sequence = word_of_nat (sequence_in ph p), payload = data_in ph ((qt_in s @ [v]) ! p)\<rparr>"
      using slots [OF i] by simp
  qed (use shape(1-6) knows pos inv_slot(2) [OF inv inv_mod_less [OF inv] vacant] in \<open>simp_all add: add.commute\<close>)
  moreover have "advance False t s = ?s" using won by (simp add: advance_def pc)
  ultimately show ?thesis by metis
qed

lemma consumer_wins:
  assumes inv: "threads_inv cap g s" and few: "length (qt_in s) + 2 * cap < 2 ^ 63"
    and pc: "qt_pc s t = Compare_Swap Consuming pos" and won: "dequeue_pos (qt_queue s) = pos"
  shows "\<exists>g'. threads_inv cap g' (advance False t s)"
proof -
  let ?d = "qt_taken s" and ?i = "qt_taken s mod cap"
  note shape = inv_shape [OF inv]
  obtain p where p: "pos = word_of_nat p" "p \<le> ?d" "p = ?d \<longrightarrow> g (p mod cap) = (p, Filled)"
    using shape(7) [of t] pc by auto
  have "p = ?d" using won p(1,2) shape(4,6) word_of_nat_eq [of p ?d] few by auto
  then have filled: "g ?i = (?d, Filled)" and pos: "pos = word_of_nat ?d" using p by auto
  note there = inv_slot [OF inv inv_mod_less [OF inv] filled]
  let ?g = "g(?i := (?d, Taken_By t))"
  let ?s = "s\<lparr>qt_queue := (qt_queue s)\<lparr>dequeue_pos := pos + 1\<rparr>, qt_pc := (qt_pc s)(t := Read_Data pos), qt_taken := Suc ?d\<rparr>"
  have free: "\<not> owned t ph" if "i < cap" "g i = (r, ph)" for i r ph using unowned [OF inv _ that] pc by simp
  have slots: "r mod cap = i \<and> window cap (length (qt_in s)) (Suc ?d) x r \<and> owner ((qt_pc s)(t := Read_Data pos)) (qt_in s) x r
      \<and> buffer (qt_queue s) ! i = \<lparr>sequence = word_of_nat (sequence_in x r), payload = data_in x (qt_in s ! r)\<rparr>"
    if i: "i < cap" "?g i = (r, x)" for i r x
  proof (cases "i = ?i")
    case True
    then have "r = ?d" "x = Taken_By t" using i by auto
    with True there pos show ?thesis by auto
  next
    case False
    then have g: "g i = (r, x)" using i by simp
    note slot = inv_slot [OF inv i(1) g]
    have "r \<noteq> ?d" using slot(1) False by metis
    then have "window cap (length (qt_in s)) (Suc ?d) x r" using slot(2) by (cases x) auto
    with slot show ?thesis by (simp add: owner_other free [OF i(1) g])
  qed
  have knows: "knows cap (length (qt_in s)) (Suc ?d) ?g u (((qt_pc s)(t := Read_Data pos)) u)" for u
  proof (cases "u = t")
    case False
    with knows_claimed [OF shape(7) [of u] filled] show ?thesis by simp
  qed (use pos in auto)
  have hand: "in_hand cap ?g r \<longleftrightarrow> in_hand cap g r \<or> r = ?d" for r
    using filled by (auto simp: in_hand_def)
  have "returned cap ?g (qt_in s) (Suc ?d) (qt_out s)"
    using inv_out [OF inv] unfolding returned_def hand by (auto simp: less_Suc_eq)
  have fields: "qt_queue ?s = (qt_queue s)\<lparr>dequeue_pos := pos + 1\<rparr>" "qt_pc ?s = (qt_pc s)(t := Read_Data pos)" "qt_in ?s = qt_in s"
    "qt_taken ?s = Suc ?d" "qt_out ?s = qt_out s" by simp_all
  have "threads_inv cap ?g ?s"
  proof (rule threads_invI; (unfold fields)?)
    fix i p ph
    assume i: "i < cap" "?g i = (p, ph)"
    show "p mod cap = i \<and> window cap (length (qt_in s)) (Suc ?d) ph p \<and> owner ((qt_pc s)(t := Read_Data pos)) (qt_in s) ph p
        \<and> buffer ((qt_queue s)\<lparr>dequeue_pos := pos + 1\<rparr>) ! i
          = \<lparr>sequence = word_of_nat (sequence_in ph p), payload = data_in ph (qt_in s ! p)\<rparr>"
      using slots [OF i] by simp
  qed (use shape(1-6) inv_room [OF inv] knows pos there(2) \<open>returned cap ?g (qt_in s) (Suc ?d) (qt_out s)\<close> in \<open>simp_all add: add.commute\<close>)
  moreover have "advance False t s = ?s" using won by (simp add: advance_def pc)
  ultimately show ?thesis by metis
qed

lemma advance_quiet:
  assumes "act spurious (qt_queue s) (qt_pc s t) = (qt_queue s, pc')" and "\<nexists>pos v. pc' = Write_Data pos v" and "\<nexists>pos. pc' = Read_Data pos"
    and "\<nexists>pos v. qt_pc s t = Release pos v"
  shows "advance spurious t s = s\<lparr>qt_pc := (qt_pc s)(t := pc')\<rparr>"
  using assms by (cases s) (auto simp: advance_def split: pc.splits)

lemma searching_step:
  assumes inv: "threads_inv cap g s" and few: "length (qt_in s) + 2 * cap < 2 ^ 63"
    and pc: "case qt_pc s t of Write_Data _ _ \<Rightarrow> False | Publish _ \<Rightarrow> False | Read_Data _ \<Rightarrow> False | Release _ _ \<Rightarrow> False | _ \<Rightarrow> True"
  shows "\<exists>g'. threads_inv cap g' (advance spurious t s)"
proof -
  note shape = inv_shape [OF inv]
  have quiet: "\<exists>g'. threads_inv cap g' (advance spurious t s)"
    if "act spurious (qt_queue s) (qt_pc s t) = (qt_queue s, pc')" "knows cap (length (qt_in s)) (qt_taken s) g t pc'"
      "\<nexists>pos v. pc' = Write_Data pos v" "\<nexists>pos. pc' = Read_Data pos" for pc'
  proof -
    have "\<nexists>pos v. qt_pc s t = Release pos v" using pc by auto
    from advance_quiet [OF that(1,3,4) this] show ?thesis
      using quiet_step [OF inv _ that(2)] unowned [OF inv pc] by metis
  qed
  have at_cursor: "knows cap (length (qt_in s)) (qt_taken s) g t (Load_Sequence sd (cursor sd (qt_queue s)))" for sd :: "'a side"
    using shape(5,6) by (cases sd) auto
  show ?thesis
  proof (cases "qt_pc s t")
    case Idle
    then show ?thesis by (intro quiet [of Idle]) simp_all
  next
    case (Load_Cursor sd)
    then show ?thesis using at_cursor [of sd] by (intro quiet [of "Load_Sequence sd (cursor sd (qt_queue s))"]) simp_all
  next
    case (Load_Sequence sd pos)
    let ?lag = "lag (qt_queue s) pos (ready sd)"
    obtain p where p: "pos = word_of_nat p" "p \<le> limit sd (length (qt_in s)) (qt_taken s)"
      using shape(7) [of t] Load_Sequence by auto
    have "knows cap (length (qt_in s)) (qt_taken s) g t (Compare_Swap sd pos)" if "?lag = 0"
      using ready_slot [OF inv few _ that [unfolded p(1)]] p by auto
    then show ?thesis using Load_Sequence
      by (intro quiet [of "if ?lag < 0 then Idle else if ?lag > 0 then Load_Cursor sd else Compare_Swap sd pos"])
        auto
  next
    case (Compare_Swap sd pos)
    show ?thesis
    proof (cases "\<not> spurious \<and> cursor sd (qt_queue s) = pos")
      case True
      then show ?thesis using producer_wins [OF inv few] consumer_wins [OF inv few] Compare_Swap by (cases sd) auto
    next
      case False
      then show ?thesis using at_cursor [of sd] Compare_Swap
        by (intro quiet [of "Load_Sequence sd (cursor sd (qt_queue s))"]) auto
    qed
  qed (use pc in auto)
qed

lemma threads_inv_step:
  assumes inv: "threads_inv cap g s" and few: "length (qt_in s) + 2 * cap < 2 ^ 63"
  shows "\<exists>g'. threads_inv cap g' (advance spurious t s)"
proof -
  have "length (qt_in s) < 2 ^ 63" using few by simp
  note owning = write_step [OF inv this] publish_step [OF inv this] read_step [OF inv this] release_step [OF inv this]
  show ?thesis
  proof (cases "qt_pc s t")
    case (Write_Data pos v)
    then show ?thesis by (rule owning(1))
  next
    case (Publish pos)
    then show ?thesis by (rule owning(2))
  next
    case (Read_Data pos)
    then show ?thesis by (rule owning(3))
  next
    case (Release pos v)
    then show ?thesis by (rule owning(4))
  qed (rule searching_step [OF inv few], simp)+
qed

lemma threads_inv_new:
  assumes "queue_new capacity = Some q"
  shows "\<exists>g. threads_inv capacity g \<lparr>qt_queue = q, qt_pc = \<lambda>_. Idle, qt_in = [], qt_taken = 0, qt_out = []\<rparr>"
proof -
  have "threads_inv capacity (\<lambda>i. (i, Vacant)) \<lparr>qt_queue = q, qt_pc = \<lambda>_. Idle, qt_in = [], qt_taken = 0, qt_out = []\<rparr>"
    using assms by (intro threads_invI) (auto simp: queue_new_def returned_def EMPTY_def split: if_splits)
  then show ?thesis by blast
qed

lemma advance_in: "length (qt_in s) \<le> length (qt_in (advance spurious t s))"
  by (auto simp: advance_def Let_def split: prod.splits pc.splits)

lemma queue_run_inv:
  "queue_run capacity s \<Longrightarrow> length (qt_in s) + 2 * capacity < 2 ^ 63 \<Longrightarrow> \<exists>g. threads_inv capacity g s"
proof (induction rule: queue_run.induct)
  case (new q)
  then show ?case by (intro threads_inv_new) simp
next
  case (call s t sd)
  then obtain g where inv: "threads_inv capacity g s" by auto
  have "threads_inv capacity g (s\<lparr>qt_pc := (qt_pc s)(t := Load_Cursor sd)\<rparr>)"
    by (rule quiet_step [OF inv]) (use call(2) unowned [OF inv, of t] in auto)
  then show ?case by blast
next
  case (step s spurious t)
  then have "length (qt_in s) + 2 * capacity < 2 ^ 63" using advance_in [of s spurious t] by linarith
  with step obtain g where "threads_inv capacity g s" by blast
  then show ?case using \<open>length (qt_in s) + 2 * capacity < 2 ^ 63\<close> by (rule threads_inv_step)
qed

section \<open>What the threads can rely on\<close>

text \<open>The slot whose data or sequence number a thread is about to access on its own behalf.\<close>

definition touches :: "'a threads \<Rightarrow> nat \<Rightarrow> nat \<Rightarrow> bool" where
  "touches s t i \<longleftrightarrow>
     (case qt_pc s t of
        Write_Data pos _ \<Rightarrow> slot_index (qt_queue s) pos = i
      | Publish pos \<Rightarrow> slot_index (qt_queue s) pos = i
      | Read_Data pos \<Rightarrow> slot_index (qt_queue s) pos = i
      | Release pos _ \<Rightarrow> slot_index (qt_queue s) pos = i
      | _ \<Rightarrow> False)"

lemma touches_owned:
  assumes inv: "threads_inv cap g s" and "touches s t i"
  obtains p ph where "i < cap" "g i = (p, ph)" "owned t ph"
  using inv_shape(7) [OF inv, of t] assms(2) inv_mod_less [OF inv]
  by (auto simp: touches_def inv_index [OF inv] split: pc.splits)

lemma sint_diff:
  assumes "a < 2 ^ 63" and "b < 2 ^ 63"
  shows "sint (word_of_nat a - word_of_nat b :: u64) = int a - int b"
proof -
  have "(word_of_nat a - word_of_nat b :: u64) = word_of_int (int a - int b)" by simp
  then have "sint (word_of_nat a - word_of_nat b :: u64) = signed_take_bit 63 (int a - int b)"
    by (simp only: signed_of_int) simp
  also have "\<dots> = int a - int b" using assms by (intro signed_take_bit_int_eq_self) auto
  finally show ?thesis .
qed

lemma inv_lag:
  assumes inv: "threads_inv cap g s" and few: "length (qt_in s) + 2 * cap < 2 ^ 63"
    and g: "g (p mod cap) = (r, x)" and p: "p \<le> length (qt_in s)"
  shows "lag (qt_queue s) (word_of_nat p) (ready sd) = int (sequence_in x r) - int (p + unat (ready sd))"
proof -
  note slot = inv_slot [OF inv inv_mod_less [OF inv] g] and shape = inv_shape [OF inv]
  have "unat (ready sd) \<le> 1" by (cases sd) (simp_all add: EMPTY_def FILLED_def)
  then have "p + unat (ready sd) < 2 ^ 63" "sequence_in x r < 2 ^ 63"
    using p window_bound [OF slot(2) shape(4)] window_sequence [of x r] few shape(3) by auto
  note sint_diff [OF this(2,1)]
  moreover have "lag (qt_queue s) (word_of_nat p) (ready sd)
      = sint (word_of_nat (sequence_in x r) - word_of_nat (p + unat (ready sd)) :: u64)"
    using slot(4) by (simp add: lag_def inv_index [OF inv])
  ultimately show ?thesis by (rule trans [rotated])
qed

lemma idle_rep:
  assumes inv: "threads_inv cap g s" and idle: "\<And>t. qt_pc s t = Idle"
  shows "queue_rep (qt_queue s) (qt_taken s) (drop (qt_taken s) (qt_in s))"
proof -
  let ?d = "qt_taken s" and ?n = "length (qt_in s)"
  note shape = inv_shape [OF inv] and room = inv_room [OF inv]
  have "buffer (qt_queue s) ! ((?d + i) mod cap) =
      (if i < ?n - ?d then \<lparr>sequence = word_of_nat (?d + i + 1), payload = Some (drop ?d (qt_in s) ! i)\<rparr>
       else \<lparr>sequence = word_of_nat (?d + i), payload = None\<rparr>)" if i: "i < cap" for i
  proof -
    obtain r x where g: "g ((?d + i) mod cap) = (r, x)" by fastforce
    note slot = inv_slot [OF inv inv_mod_less [OF inv] g]
    have x: "x = Vacant \<or> x = Filled" using slot(3) idle by (cases x) auto
    then have "?d \<le> r" "r < ?d + cap" using slot(2) shape(4) room by auto
    then have "r = ?d + i" using slot(1) i lap_distinct [of "r - ?d" cap i ?d] by simp
    with x slot(2,4) shape(4) show ?thesis by auto
  qed
  with shape room show ?thesis by (simp add: queue_rep_def Let_def)
qed

text \<open>A schedule: which thread moves, and the call it starts, if any.\<close>

fun play :: "(nat \<times> 'a side option) list \<Rightarrow> 'a threads \<Rightarrow> 'a threads" where
  "play [] s = s"
| "play ((t, None) # es) s = play es (advance False t s)"
| "play ((t, Some sd) # es) s = play es (case qt_pc s t of Idle \<Rightarrow> s\<lparr>qt_pc := (qt_pc s)(t := Load_Cursor sd)\<rparr> | _ \<Rightarrow> s)"

lemma play_run: "queue_run capacity s \<Longrightarrow> queue_run capacity (play es s)"
  by (induction es s rule: play.induct) (simp_all add: queue_run.step queue_run.call split: pc.splits)

definition two_empty :: "string queue" where
  "two_empty = \<lparr>buffer = [\<lparr>sequence = 0, payload = None\<rparr>, \<lparr>sequence = 1, payload = None\<rparr>], enqueue_pos = 0, dequeue_pos = 0\<rparr>"

lemma two_slots: "queue_new 2 = Some two_empty"
proof -
  have "is_power_of_two 2" unfolding is_power_of_two_def by (intro bexI [of _ 1]) auto
  then show ?thesis by (simp add: queue_new_def two_empty_def EMPTY_def upt_rec)
qed

text \<open>Thread 0 enqueues while thread 1 is already dequeueing, and is about to read the value.\<close>

definition handover :: "string threads" where
  "handover = play ([(1, Some Consuming), (0, Some (Producing ''a'')), (1, None)] @ replicate 5 (0, None) @ replicate 2 (1, None))
     \<lparr>qt_queue = two_empty, qt_pc = \<lambda>_. Idle, qt_in = [], qt_taken = 0, qt_out = []\<rparr>"

text \<open>
  C23. Any number of threads. In every state that concurrent calls of \<open>enqueue\<close> and \<open>dequeue\<close> can
  reach, under any interleaving of their atomic steps and any spurious failures: no two threads are
  at the same slot's data; a producer about to write finds the slot empty and a consumer about to
  read finds a value; no more values are in flight than the capacity; the calls of \<open>dequeue\<close> that
  returned each returned the value of a position of its own, as it was enqueued; and when no call is
  running, the ring represents exactly the values not yet taken, in the order of their positions,
  and every taken value has been returned.
\<close>

theorem concurrent_queue:
  assumes run: "queue_run capacity s" and few: "length (qt_in s) + 2 * capacity < 2 ^ 63"
  shows "(touches s t i \<and> touches s u i \<longrightarrow> t = u)
    \<and> (qt_pc s t = Write_Data pos v \<longrightarrow> payload (buffer (qt_queue s) ! slot_index (qt_queue s) pos) = None)
    \<and> (qt_pc s t = Read_Data pos \<longrightarrow> (\<exists>p < length (qt_in s). pos = word_of_nat p
          \<and> payload (buffer (qt_queue s) ! slot_index (qt_queue s) pos) = Some (qt_in s ! p)))
    \<and> qt_taken s \<le> length (qt_in s) \<and> length (qt_in s) \<le> qt_taken s + capacity
    \<and> (\<exists>ps. qt_out s = map (\<lambda>p. (word_of_nat p, Some (qt_in s ! p))) ps \<and> distinct ps \<and> set ps \<subseteq> {..<qt_taken s}
          \<and> ((\<forall>t. qt_pc s t = Idle) \<longrightarrow> set ps = {..<qt_taken s}
                \<and> queue_rep (qt_queue s) (qt_taken s) (drop (qt_taken s) (qt_in s))))"
proof -
  obtain g where inv: "threads_inv capacity g s" using queue_run_inv [OF run few] by blast
  note shape = inv_shape [OF inv]
  have "t = u" if at: "touches s t i" "touches s u i"
  proof -
    obtain p ph where "g i = (p, ph)" "owned t ph" by (rule touches_owned [OF inv at(1)])
    moreover obtain p' ph' where "g i = (p', ph')" "owned u ph'" by (rule touches_owned [OF inv at(2)])
    ultimately show ?thesis by (cases ph) auto
  qed
  moreover have "payload (buffer (qt_queue s) ! slot_index (qt_queue s) pos) = None" if "qt_pc s t = Write_Data pos v"
    using shape(7) [of t] that inv_slot(4) [OF inv inv_mod_less [OF inv]] by (auto simp: inv_index [OF inv])
  moreover have "\<exists>p < length (qt_in s). pos = word_of_nat p
      \<and> payload (buffer (qt_queue s) ! slot_index (qt_queue s) pos) = Some (qt_in s ! p)" if reads: "qt_pc s t = Read_Data pos"
  proof -
    obtain p where p: "pos = word_of_nat p" "g (p mod capacity) = (p, Taken_By t)" using shape(7) [of t] reads by auto
    from inv_slot [OF inv inv_mod_less [OF inv] p(2)] p(1) show ?thesis by (auto simp: inv_index [OF inv])
  qed
  moreover obtain ps where ps: "qt_out s = map (\<lambda>p. (word_of_nat p, Some (qt_in s ! p))) ps" "distinct ps"
    "set ps = {p. p < qt_taken s \<and> \<not> in_hand capacity g p}"
    using inv_out [OF inv] by (auto simp: returned_def)
  moreover have "set ps = {..<qt_taken s}" if "\<forall>t. qt_pc s t = Idle"
  proof -
    have "\<not> in_hand capacity g p" for p
      using inv_slot(3) [OF inv inv_mod_less [OF inv], of p] that by (fastforce simp: in_hand_def)
    with ps(3) show ?thesis by auto
  qed
  ultimately show ?thesis using shape(4) inv_room [OF inv] idle_rep [OF inv] by blast
qed

theorem concurrent_queue_witness:
  "queue_run 2 handover \<and> qt_pc handover 1 = Read_Data 0
    \<and> payload (buffer (qt_queue handover) ! slot_index (qt_queue handover) 0) = Some ''a''"
proof -
  have run: "queue_run 2 handover" unfolding handover_def by (intro play_run queue_run.new two_slots)
  have "qt_pc handover 1 = Read_Data 0" "qt_in handover = [''a'']" by code_simp+
  with concurrent_queue [OF run, of 1 0 1 0 "''a''"] run show ?thesis by auto
qed

section \<open>Refusals\<close>

text \<open>
  A producer is refused only by the slot of the next position, and only while what was enqueued there
  one lap ago has not been returned; a consumer is refused only when every claimed position is taken,
  or the value of the next position is still being put.
\<close>

lemma refused_full:
  assumes inv: "threads_inv cap g s" and few: "length (qt_in s) + 2 * cap < 2 ^ 63" and p: "p \<le> length (qt_in s)"
    and late: "lag (qt_queue s) (word_of_nat p) EMPTY < 0"
  shows "p = length (qt_in s) \<and> cap \<le> p \<and> (p - cap < qt_taken s \<longrightarrow> in_hand cap g (p - cap))"
proof -
  obtain r x where g: "g (p mod cap) = (r, x)" by fastforce
  note slot = inv_slot [OF inv inv_mod_less [OF inv] g]
  have seq: "sequence_in x r < p" using inv_lag [OF inv few g p, of "Producing undefined"] late by (simp add: EMPTY_def)
  moreover have "r \<le> sequence_in x r" by (cases x) auto
  ultimately have "r < p" by simp
  then have lap: "r + cap \<le> p" using residue_unique [of r cap p] slot(1) by fastforce
  then have "p = length (qt_in s)" "r = p - cap" using slot(2) p \<open>r < p\<close> by (cases x; auto)+
  moreover have "in_hand cap g r" if "r < qt_taken s"
  proof -
    have "r mod cap = p mod cap" by (rule slot(1))
    with that slot(2) seq g \<open>p = length (qt_in s)\<close> show ?thesis by (cases x) (auto simp: in_hand_def)
  qed
  ultimately show ?thesis using lap by auto
qed

lemma refused_empty:
  assumes inv: "threads_inv cap g s" and few: "length (qt_in s) + 2 * cap < 2 ^ 63" and p: "p \<le> qt_taken s"
    and late: "lag (qt_queue s) (word_of_nat p) FILLED < 0"
  shows "p = qt_taken s \<and> (qt_taken s = length (qt_in s)
    \<or> (\<exists>u. qt_pc s u = Write_Data (word_of_nat p) (qt_in s ! p) \<or> qt_pc s u = Publish (word_of_nat p)))"
proof -
  obtain r x where g: "g (p mod cap) = (r, x)" by fastforce
  note slot = inv_slot [OF inv inv_mod_less [OF inv] g] and shape = inv_shape [OF inv]
  have seq: "sequence_in x r \<le> p" using inv_lag [OF inv few g, of Consuming] late p shape(4) by (simp add: FILLED_def)
  show ?thesis
  proof (cases "r < p")
    case True
    then have "r + cap \<le> p" using residue_unique [of r cap p] slot(1) by fastforce
    then show ?thesis using slot(2) p shape(4) True by (cases x) auto
  next
    case False
    then show ?thesis using slot(2,3) p shape(4) seq by (cases x) auto
  qed
qed

text \<open>The slot at a cursor is never ahead of it: only a stale position is.\<close>

lemma lag_at_cursor:
  assumes inv: "threads_inv cap g s" and few: "length (qt_in s) + 2 * cap < 2 ^ 63"
  shows "lag (qt_queue s) (cursor sd (qt_queue s)) (ready sd) \<le> 0"
proof -
  let ?p = "limit sd (length (qt_in s)) (qt_taken s)"
  note shape = inv_shape [OF inv] and room = inv_room [OF inv]
  obtain r x where g: "g (?p mod cap) = (r, x)" by fastforce
  note slot = inv_slot [OF inv inv_mod_less [OF inv] g]
  have p: "?p \<le> length (qt_in s)" "cursor sd (qt_queue s) = word_of_nat ?p" using shape(4-6) by (cases sd; simp)+
  have "r \<le> ?p" if "?p \<le> r" "r < ?p + cap" using residue_unique [of ?p cap r] slot(1) that by simp
  then have "sequence_in x r \<le> ?p + unat (ready sd)"
    using slot(2) shape(4) room by (cases sd; cases x) (fastforce simp: EMPTY_def FILLED_def)+
  then show ?thesis unfolding p(2) inv_lag [OF inv few g p(1)] by linarith
qed

lemma refused_lag:
  assumes "qt_pc s t = Load_Sequence sd pos" and "qt_pc (advance spurious t s) t = Idle"
  shows "lag (qt_queue s) pos (ready sd) < 0"
  using assms by (auto simp: advance_def split: if_splits)

lemma not_returned:
  assumes inv: "threads_inv cap g s" and few: "length (qt_in s) < 2 ^ 63" and p: "p \<le> length (qt_in s)"
    and hand: "p < qt_taken s \<longrightarrow> in_hand cap g p"
  shows "word_of_nat p \<notin> fst ` set (qt_out s)"
proof
  assume "word_of_nat p \<in> fst ` set (qt_out s)"
  then obtain r where r: "r < qt_taken s" "\<not> in_hand cap g r" "(word_of_nat p :: u64) = word_of_nat r"
    using inv_out [OF inv] by (auto simp: returned_def)
  then have "p = r" using word_of_nat_eq [of p r] inv_shape(4) [OF inv] p few by simp
  with r hand show False by simp
qed

text \<open>
  C24. Refusals are justified, whatever the other threads do. \<open>enqueue\<close> answers \<open>Full\<close> only at a moment
  when its position is the next one and the value enqueued one whole lap before has not been returned
  by any \<open>dequeue\<close>. \<open>dequeue\<close> answers \<open>Empty\<close> only at a moment when its position is the next one and
  either every value ever claimed a position has been taken, or the producer of that very position
  is still between its compare-and-swap and its publication.
\<close>

theorem concurrent_refusals:
  assumes run: "queue_run capacity s" and few: "length (qt_in s) + 2 * capacity < 2 ^ 63"
    and at: "qt_pc s t = Load_Sequence sd pos" and refused: "qt_pc (advance spurious t s) t = Idle"
  shows "case sd of
      Producing v \<Rightarrow> pos = word_of_nat (length (qt_in s)) \<and> capacity \<le> length (qt_in s)
        \<and> word_of_nat (length (qt_in s) - capacity) \<notin> fst ` set (qt_out s)
    | Consuming \<Rightarrow> pos = word_of_nat (qt_taken s) \<and> (qt_taken s = length (qt_in s)
        \<or> (\<exists>u. qt_pc s u = Write_Data pos (qt_in s ! qt_taken s) \<or> qt_pc s u = Publish pos))"
proof -
  obtain g where inv: "threads_inv capacity g s" using queue_run_inv [OF run few] by blast
  obtain p where p: "pos = word_of_nat p" "p \<le> limit sd (length (qt_in s)) (qt_taken s)"
    using inv_shape(7) [OF inv, of t] at by auto
  note late = refused_lag [OF at refused, unfolded p(1)]
  show ?thesis
  proof (cases sd)
    case (Producing v)
    then have full: "p = length (qt_in s)" "capacity \<le> p" "p - capacity < qt_taken s \<longrightarrow> in_hand capacity g (p - capacity)"
      using refused_full [OF inv few, of p] p(2) late by auto
    moreover have "word_of_nat (p - capacity) \<notin> fst ` set (qt_out s)"
      using full few by (intro not_returned [OF inv]) auto
    ultimately show ?thesis using Producing p(1) by simp
  next
    case Consuming
    then show ?thesis using refused_empty [OF inv few, of p] p late by auto
  qed
qed

definition first_refusal :: "string threads" where
  "first_refusal = play (concat (replicate 2 ((0, Some (Producing ''a'')) # replicate 5 (0, None))) @ [(1, Some (Producing ''b'')), (1, None)])
     \<lparr>qt_queue = two_empty, qt_pc = \<lambda>_. Idle, qt_in = [], qt_taken = 0, qt_out = []\<rparr>"

theorem concurrent_refusals_witness:
  "queue_run 2 first_refusal \<and> qt_pc first_refusal 1 = Load_Sequence (Producing ''b'') 2
    \<and> qt_pc (advance False 1 first_refusal) 1 = Idle \<and> 0 \<notin> fst ` set (qt_out first_refusal)"
proof -
  have run: "queue_run 2 first_refusal" unfolding first_refusal_def by (intro play_run queue_run.new two_slots)
  have at: "qt_pc first_refusal 1 = Load_Sequence (Producing ''b'') 2" "qt_pc (advance False 1 first_refusal) 1 = Idle"
    "length (qt_in first_refusal) = 2" by code_simp+
  from concurrent_refusals [OF run _ at(1,2)] at run show ?thesis by simp
qed

section \<open>Progress\<close>

lemma solo_step:
  "(qt_queue (advance False t s), qt_pc (advance False t s) t) = act False (qt_queue s) (qt_pc s t)"
  by (simp add: advance_def Let_def split: prod.splits)

lemma solo_run:
  "(qt_queue ((advance False t ^^ k) s), qt_pc ((advance False t ^^ k) s) t)
     = (case_prod (act False) ^^ k) (qt_queue s, qt_pc s t)"
proof (induction k)
  case (Suc k)
  show ?case using solo_step [of t "(advance False t ^^ k) s"] by (simp add: Suc [symmetric])
qed simp

lemma solo_six:
  assumes "\<And>sd. lag q (cursor sd q) (ready sd) \<le> 0"
  shows "snd ((case_prod (act False) ^^ 6) (q, pc)) = Idle"
proof -
  let ?go = "\<lambda>k pc. snd ((case_prod (act False) ^^ k) (q, pc))"
  have idle: "snd ((case_prod (act False) ^^ k) (q', Idle)) = Idle" for k and q' :: "'a queue"
    by (induction k) (simp_all add: funpow_swap1)
  note forward = eval_nat_numeral funpow_Suc_right
  have seq: "?go (k + 4) (Load_Sequence sd (cursor sd q)) = Idle" for k sd
    using assms [of sd] by (cases sd) (auto simp: forward idle simp del: funpow.simps)
  have load: "?go (k + 5) (Load_Cursor sd) = Idle" for k sd
    using seq [of k sd] by (simp add: forward del: funpow.simps)
  have swap: "?go (k + 5) (Compare_Swap sd pos) = Idle" for k sd pos
    using seq [of k sd] by (cases sd) (auto simp: forward idle simp del: funpow.simps)
  show ?thesis
    using seq [of 2] load [of 1] load [of 0] swap [of 1] swap [of 0]
    by (cases pc) (auto simp: forward idle simp del: funpow.simps)
qed

text \<open>
  C25. Progress. From every reachable state, wherever the other threads were stopped, a call that is
  let run alone and whose compare-and-swaps do not fail spuriously returns within six steps; and a
  call is sent back to its cursor only when another thread has taken the position it was after.
\<close>

theorem concurrent_progress:
  assumes run: "queue_run capacity s" and few: "length (qt_in s) + 2 * capacity < 2 ^ 63"
  shows "qt_pc ((advance False t ^^ 6) s) t = Idle
    \<and> (qt_pc s t = Load_Sequence sd pos \<and> qt_pc (advance spurious t s) t = Load_Cursor sd
        \<longrightarrow> cursor sd (qt_queue s) \<noteq> pos)"
proof -
  obtain g where inv: "threads_inv capacity g s" using queue_run_inv [OF run few] by blast
  note behind = lag_at_cursor [OF inv few]
  have "cursor sd (qt_queue s) \<noteq> pos" if "qt_pc s t = Load_Sequence sd pos" "qt_pc (advance spurious t s) t = Load_Cursor sd"
    using that behind [of sd] by (auto simp: advance_def split: if_splits)
  moreover have "qt_pc ((advance False t ^^ 6) s) t = Idle"
    using solo_six [of "qt_queue s" "qt_pc s t", OF behind] unfolding solo_run [symmetric] snd_conv .
  ultimately show ?thesis by blast
qed

theorem concurrent_progress_witness: "qt_pc ((advance False 1 ^^ 6) handover) 1 = Idle"
proof -
  have run: "queue_run 2 handover" unfolding handover_def by (intro play_run queue_run.new two_slots)
  have "length (qt_in handover) = 1" by code_simp
  then have "length (qt_in handover) + 2 * 2 < 2 ^ 63" by simp
  from concurrent_progress [OF run this] show ?thesis by blast
qed

end
