(* ===== verification/Log_Threads.thy ===== *)
theory Log_Threads
  imports Access_Log Queue_Threads
begin

text \<open>
  The access log and its queue together (\<open>access_log.rs\<close> over \<open>kallisto_queue\<close>), with no call taken as
  a whole: every load, store and compare-and-swap of \<open>enqueue\<close> and \<open>dequeue\<close>, the look at the \<open>parked\<close>
  flag, the \<open>unpark\<close> and every step of the writer's loop interleave freely. Worker \<open>i\<close> is thread
  \<open>Suc i\<close> of the queue, the writer is thread \<open>0\<close>.

  Shown here: what was handed to the sink and the batch are the accepted lines in the order of their
  positions, each once, and what arrived is all of it unless a write failed; every call of \<open>record\<close> is accepted, dropped or still looking for a slot; and the writer does
  not sleep through a line, although \<open>dequeue\<close> may answer \<open>Empty\<close> while a finished line waits behind
  one that is still being put.
\<close>

section \<open>Steps\<close>

text \<open>
  \<open>lg_looking\<close> are the workers that put a line and have not looked at the flag yet, \<open>lg_waking\<close> those
  that saw it raised and have not unparked the writer yet.
\<close>

record log_threads =
  lg_queue :: "line threads"
  lg_producers :: "producer list"
  lg_gate :: writer_gate
  lg_running :: bool
  lg_writer :: writer_pc
  lg_batch :: string
  lg_writes :: write_history
  lg_looking :: "nat set"
  lg_waking :: "nat set"

definition start_call :: "nat \<Rightarrow> 'a side \<Rightarrow> 'a threads \<Rightarrow> 'a threads" where
  "start_call t sd q = q\<lparr>qt_pc := (qt_pc q)(t := Load_Cursor sd)\<rparr>"

text \<open>\<open>record\<close> up to the call of \<open>enqueue\<close>; \<open>None\<close>: rendering panics.\<close>

definition begin_record :: "nat \<Rightarrow> nat option \<Rightarrow> log_record \<Rightarrow> log_threads \<Rightarrow> log_threads option" where
  "begin_record i clock r s =
     (let p = lg_producers s ! i; seq = p_sequence p; p = p\<lparr>p_sequence := seq + 1\<rparr> in
      map_option (\<lambda>l. s\<lparr>lg_producers := (lg_producers s)[i := p], lg_queue := start_call (Suc i) (Producing l) (lg_queue s)\<rparr>)
        (render p (now_millis clock) seq r))"

text \<open>One step of a worker inside \<open>record\<close>, from its compare-and-swap loop to the \<open>unpark\<close>.\<close>

definition worker_move :: "bool \<Rightarrow> nat \<Rightarrow> log_threads \<Rightarrow> log_threads" where
  "worker_move spurious i s =
     (if i \<in> lg_waking s then s\<lparr>lg_gate := gate_wake (lg_gate s), lg_waking := lg_waking s - {i}\<rparr>
      else if i \<in> lg_looking s
      then s\<lparr>lg_looking := lg_looking s - {i},
             lg_waking := (if parked (lg_gate s) then insert i (lg_waking s) else lg_waking s)\<rparr>
      else (let q = advance spurious (Suc i) (lg_queue s) in
            case (qt_pc (lg_queue s) (Suc i), qt_pc q (Suc i)) of
              (Publish _, _) \<Rightarrow> s\<lparr>lg_queue := q, lg_looking := insert i (lg_looking s)\<rparr>
            | (Load_Sequence _ _, Idle) \<Rightarrow>
                s\<lparr>lg_queue := q,
                  lg_producers := (lg_producers s)[i := (lg_producers s ! i)\<lparr>p_dropped := p_dropped (lg_producers s ! i) + 1\<rparr>]\<rparr>
            | _ \<Rightarrow> s\<lparr>lg_queue := q\<rparr>))"

text \<open>The end of \<open>drain\<close>, given the length the batch had before and whether this was the second look.\<close>

definition drained :: "nat \<Rightarrow> bool \<Rightarrow> string \<Rightarrow> writer_pc" where
  "drained before again b =
     (if length b > before then (if again then WUnflag else WWrite) else if again then WPark else WIdle)"

text \<open>
  One step of \<open>drain\<close>: the call of \<open>dequeue\<close>, a step inside it, or its return. A value that was never
  written would be undefined behaviour: the \<open>None\<close>.
\<close>

definition drain_move :: "bool \<Rightarrow> nat \<Rightarrow> bool \<Rightarrow> log_threads \<Rightarrow> log_threads option" where
  "drain_move spurious before again s =
     (let q = advance spurious 0 (lg_queue s) in
      case qt_pc (lg_queue s) 0 of
        Idle \<Rightarrow> Some (s\<lparr>lg_queue := start_call 0 Consuming (lg_queue s)\<rparr>)
      | Release _ None \<Rightarrow> None
      | Release _ (Some l) \<Rightarrow>
          (let b = lg_batch s @ logged l in
           Some (s\<lparr>lg_queue := q, lg_batch := b,
                   lg_writer := (if length b > BATCH_BYTES then drained before again b else WDrain before again)\<rparr>))
      | Load_Sequence _ _ \<Rightarrow>
          Some (s\<lparr>lg_queue := q,
                  lg_writer := (if qt_pc q 0 = Idle then drained before again (lg_batch s) else WDrain before again)\<rparr>)
      | _ \<Rightarrow> Some (s\<lparr>lg_queue := q\<rparr>))"

inductive threads_step :: "log_threads \<Rightarrow> log_threads \<Rightarrow> bool" where
  call_record: "i < length (lg_producers s) \<Longrightarrow> p_enabled (lg_producers s ! i) \<Longrightarrow> qt_pc (lg_queue s) (Suc i) = Idle \<Longrightarrow>
     i \<notin> lg_looking s \<Longrightarrow> i \<notin> lg_waking s \<Longrightarrow> begin_record i clock r s = Some s' \<Longrightarrow> threads_step s s'"
| worker: "i < length (lg_producers s) \<Longrightarrow> threads_step s (worker_move spurious i s)"
| start: "lg_writer s = WStart \<Longrightarrow>
     threads_step s (s\<lparr>lg_gate := writer_started (lg_gate s), lg_writer := WDrain 0 False\<rparr>)"
| drain: "lg_writer s = WDrain before again \<Longrightarrow> drain_move spurious before again s = Some s' \<Longrightarrow> threads_step s s'"
| finish: "lg_writer s = WIdle \<Longrightarrow> \<not> lg_running s \<Longrightarrow> threads_step s (s\<lparr>lg_writer := WDone\<rparr>)"
| sleep: "lg_writer s = WIdle \<Longrightarrow> lg_running s \<Longrightarrow> threads_step s (s\<lparr>lg_writer := WDrain (length (lg_batch s)) False\<rparr>)"
| give_up: "lg_writer s = WIdle \<Longrightarrow> lg_running s \<Longrightarrow> threads_step s (s\<lparr>lg_writer := WFlag\<rparr>)"
| flag: "lg_writer s = WFlag \<Longrightarrow>
     threads_step s (s\<lparr>lg_gate := (lg_gate s)\<lparr>parked := True\<rparr>, lg_writer := WDrain (length (lg_batch s)) True\<rparr>)"
| unparked: "lg_writer s = WPark \<Longrightarrow> permit (lg_gate s) \<Longrightarrow>
     threads_step s (s\<lparr>lg_gate := (lg_gate s)\<lparr>permit := False\<rparr>, lg_writer := WUnflag\<rparr>)"
| park_timeout: "lg_writer s = WPark \<Longrightarrow> threads_step s (s\<lparr>lg_writer := WUnflag\<rparr>)"
| unflag: "lg_writer s = WUnflag \<Longrightarrow>
     threads_step s (s\<lparr>lg_gate := (lg_gate s)\<lparr>parked := False\<rparr>,
       lg_writer := (if lg_batch s = [] then WDrain 0 False else WWrite)\<rparr>)"
| hand_over: "lg_writer s = WWrite \<Longrightarrow> n \<le> length (lg_batch s) \<Longrightarrow>
     threads_step s (s\<lparr>lg_writes := lg_writes s @ [(lg_batch s, n)], lg_batch := [], lg_writer := WDrain 0 False\<rparr>)"
| stop: "threads_step s (s\<lparr>lg_running := False\<rparr>)"
| stop_wake: "\<not> lg_running s \<Longrightarrow> threads_step s (s\<lparr>lg_gate := gate_wake (lg_gate s)\<rparr>)"

definition threads_new :: "access_log \<Rightarrow> log_threads" where
  "threads_new lg =
     \<lparr>lg_queue = \<lparr>qt_queue = al_queue lg, qt_pc = \<lambda>_. Idle, qt_in = [], qt_taken = 0, qt_out = []\<rparr>,
      lg_producers = al_producers lg, lg_gate = al_gate lg, lg_running = al_running lg,
      lg_writer = WStart, lg_batch = [], lg_writes = [], lg_looking = {}, lg_waking = {}\<rparr>"

inductive threads_reachable :: "nat \<Rightarrow> nat \<Rightarrow> log_threads \<Rightarrow> bool" for capacity workers where
  init: "access_log_new capacity workers = Some lg \<Longrightarrow> threads_reachable capacity workers (threads_new lg)"
| step: "threads_reachable capacity workers s \<Longrightarrow> threads_step s s' \<Longrightarrow> threads_reachable capacity workers s'"

section \<open>The queue below\<close>

text \<open>Every step of the log is a step of the queue's threads or leaves them alone.\<close>

lemma step_queue:
  assumes "threads_step s s'" and "queue_run cap (lg_queue s)"
  shows "queue_run cap (lg_queue s')"
  using assms(1)
proof cases
  case (call_record i clock r)
  then show ?thesis
    using assms(2) queue_run.call [of cap "lg_queue s" "Suc i"] by (auto simp: begin_record_def start_call_def Let_def)
next
  case (worker i spurious)
  then show ?thesis
    using assms(2) queue_run.step [of cap "lg_queue s" spurious "Suc i"] by (auto simp: worker_move_def Let_def split: pc.splits)
next
  case (drain before again spurious)
  then show ?thesis
    using assms(2) queue_run.step [of cap "lg_queue s" spurious 0] queue_run.call [of cap "lg_queue s" 0]
    by (auto simp: drain_move_def start_call_def Let_def split: pc.splits option.splits)
qed (use assms(2) in simp_all)

lemma act_capacity: "length (buffer (fst (act spurious q c))) = length (buffer q)"
proof (cases c)
  case (Compare_Swap sd pos)
  then show ?thesis by (cases sd) auto
qed (auto simp: at_slot_def set_node_def)

lemma queue_run_capacity: "queue_run capacity q \<Longrightarrow> length (buffer (qt_queue q)) = capacity"
proof (induction rule: queue_run.induct)
  case (new q)
  then show ?case by (auto simp: queue_new_def split: if_splits)
next
  case (step q spurious t)
  then show ?case using act_capacity [of spurious "qt_queue q" "qt_pc q t"] by (auto simp: advance_def Let_def split: prod.splits)
qed simp

lemma reachable_queue: "threads_reachable capacity workers s \<Longrightarrow> \<exists>cap. queue_run cap (lg_queue s)"
proof (induction rule: threads_reachable.induct)
  case (init lg)
  then obtain cap where "queue_new cap = Some (al_queue lg)"
    by (auto simp: access_log_new_def with_enabled_def bind_eq_Some_conv)
  then show ?case using queue_run.new by (force simp: threads_new_def)
next
  case (step s s')
  then show ?case using step_queue by blast
qed

text \<open>Far from the wrap-around of the positions.\<close>

definition few_lines :: "log_threads \<Rightarrow> bool" where
  "few_lines s \<longleftrightarrow> length (qt_in (lg_queue s)) + 2 * length (buffer (qt_queue (lg_queue s))) < 2 ^ 63"

lemma reachable_inv:
  assumes "threads_reachable capacity workers s" and "few_lines s"
  obtains cap g where "threads_inv cap g (lg_queue s)" and "length (qt_in (lg_queue s)) + 2 * cap < 2 ^ 63"
proof -
  obtain cap where run: "queue_run cap (lg_queue s)" using reachable_queue [OF assms(1)] by blast
  then have "length (qt_in (lg_queue s)) + 2 * cap < 2 ^ 63" using assms(2) queue_run_capacity by (auto simp: few_lines_def)
  with queue_run_inv [OF run this] that show ?thesis by blast
qed

section \<open>Who is where\<close>

fun on_side :: "bool \<Rightarrow> 'a pc \<Rightarrow> bool" where
  "on_side producing (Load_Cursor sd) \<longleftrightarrow> (sd \<noteq> Consuming) = producing"
| "on_side producing (Load_Sequence sd _) \<longleftrightarrow> (sd \<noteq> Consuming) = producing"
| "on_side producing (Compare_Swap sd _) \<longleftrightarrow> (sd \<noteq> Consuming) = producing"
| "on_side producing (Write_Data _ _) \<longleftrightarrow> producing"
| "on_side producing (Publish _) \<longleftrightarrow> producing"
| "on_side producing (Read_Data _) \<longleftrightarrow> \<not> producing"
| "on_side producing (Release _ _) \<longleftrightarrow> \<not> producing"
| "on_side producing Idle \<longleftrightarrow> True"

fun putting :: "'a pc \<Rightarrow> bool" where
  "putting (Write_Data _ _) \<longleftrightarrow> True"
| "putting (Publish _) \<longleftrightarrow> True"
| "putting _ \<longleftrightarrow> False"

definition roles :: "log_threads \<Rightarrow> bool" where
  "roles s \<longleftrightarrow>
     on_side False (qt_pc (lg_queue s) 0) \<and> (\<forall>i. on_side True (qt_pc (lg_queue s) (Suc i)))
     \<and> (\<forall>i \<ge> length (lg_producers s). qt_pc (lg_queue s) (Suc i) = Idle)
     \<and> (qt_pc (lg_queue s) 0 = Idle \<or> (\<exists>before again. lg_writer s = WDrain before again))
     \<and> lg_looking s \<union> lg_waking s \<subseteq> {..<length (lg_producers s)}"

lemma act_side: "on_side b c \<Longrightarrow> on_side b (snd (act spurious q c))"
proof (cases c)
  case (Compare_Swap sd pos)
  moreover assume "on_side b c"
  ultimately show ?thesis by (cases sd) auto
qed auto

lemma advance_pc: "qt_pc (advance spurious t q) = (qt_pc q)(t := snd (act spurious (qt_queue q) (qt_pc q t)))"
  by (simp add: advance_def Let_def split: prod.splits)

lemma advance_idle: "qt_pc q t = Idle \<Longrightarrow> advance spurious t q = q"
  by (simp add: advance_def fun_upd_idem)

lemma advance_producer:
  assumes "on_side True (qt_pc q t)"
  shows "qt_taken (advance spurious t q) = qt_taken q" and "qt_out (advance spurious t q) = qt_out q"
    and "\<exists>vs. qt_in (advance spurious t q) = qt_in q @ vs"
  using assms act_side [OF assms, of spurious "qt_queue q"]
  by (auto simp: advance_def Let_def split: prod.splits pc.splits)

lemma advance_consumer:
  assumes "on_side False (qt_pc q t)"
  shows "qt_in (advance spurious t q) = qt_in q"
  using assms act_side [OF assms, of spurious "qt_queue q"]
  by (auto simp: advance_def Let_def split: prod.splits pc.splits)

lemma worker_move_cases:
  obtains
    (wake) "i \<in> lg_waking s"
      "worker_move spurious i s = s\<lparr>lg_gate := gate_wake (lg_gate s), lg_waking := lg_waking s - {i}\<rparr>"
  | (look) "i \<in> lg_looking s"
      "worker_move spurious i s = s\<lparr>lg_looking := lg_looking s - {i},
         lg_waking := (if parked (lg_gate s) then insert i (lg_waking s) else lg_waking s)\<rparr>"
  | (put) pos where "qt_pc (lg_queue s) (Suc i) = Publish pos"
      "worker_move spurious i s = s\<lparr>lg_queue := advance spurious (Suc i) (lg_queue s), lg_looking := insert i (lg_looking s)\<rparr>"
  | (refused) sd pos where "qt_pc (lg_queue s) (Suc i) = Load_Sequence sd pos" "qt_pc (advance spurious (Suc i) (lg_queue s)) (Suc i) = Idle"
      "worker_move spurious i s = s\<lparr>lg_queue := advance spurious (Suc i) (lg_queue s),
         lg_producers := (lg_producers s)[i := (lg_producers s ! i)\<lparr>p_dropped := p_dropped (lg_producers s ! i) + 1\<rparr>]\<rparr>"
  | (search) "\<nexists>pos. qt_pc (lg_queue s) (Suc i) = Publish pos"
      "\<nexists>sd pos. qt_pc (lg_queue s) (Suc i) = Load_Sequence sd pos \<and> qt_pc (advance spurious (Suc i) (lg_queue s)) (Suc i) = Idle"
      "worker_move spurious i s = s\<lparr>lg_queue := advance spurious (Suc i) (lg_queue s)\<rparr>"
proof (cases "i \<in> lg_waking s \<or> i \<in> lg_looking s")
  case True
  then show thesis using wake look by (cases "i \<in> lg_waking s") (simp_all add: worker_move_def)
next
  case False
  then show thesis
    using put refused search by (cases "qt_pc (lg_queue s) (Suc i)") (auto simp: worker_move_def Let_def split: pc.splits)
qed

lemma drain_move_cases:
  assumes "drain_move spurious before again s = Some s'"
  obtains
    (call) "qt_pc (lg_queue s) 0 = Idle" "s' = s\<lparr>lg_queue := start_call 0 Consuming (lg_queue s)\<rparr>"
  | (took) pos l where "qt_pc (lg_queue s) 0 = Release pos (Some l)"
      "s' = s\<lparr>lg_queue := advance spurious 0 (lg_queue s), lg_batch := lg_batch s @ logged l,
         lg_writer := (if length (lg_batch s @ logged l) > BATCH_BYTES then drained before again (lg_batch s @ logged l) else WDrain before again)\<rparr>"
  | (empty) sd pos where "qt_pc (lg_queue s) 0 = Load_Sequence sd pos" "qt_pc (advance spurious 0 (lg_queue s)) 0 = Idle"
      "s' = s\<lparr>lg_queue := advance spurious 0 (lg_queue s), lg_writer := drained before again (lg_batch s)\<rparr>"
  | (inside) "qt_pc (lg_queue s) 0 \<noteq> Idle" "\<nexists>pos v. qt_pc (lg_queue s) 0 = Release pos v"
      "s' = s\<lparr>lg_queue := advance spurious 0 (lg_queue s), lg_writer := WDrain before again\<rparr>
       \<or> s' = s\<lparr>lg_queue := advance spurious 0 (lg_queue s)\<rparr>"
  using assms
  by (cases "qt_pc (lg_queue s) 0") (auto simp: drain_move_def Let_def split: if_splits option.splits)

lemma roles_step:
  assumes "threads_step s s'" and "roles s"
  shows "roles s'"
  using assms(1)
proof cases
  case (call_record i clock r)
  then show ?thesis using assms(2) by (auto simp: roles_def begin_record_def start_call_def Let_def)
next
  case (worker i spurious)
  have "on_side True (qt_pc (advance spurious (Suc i) (lg_queue s)) (Suc j))" for j
    using assms(2) act_side [of True "qt_pc (lg_queue s) (Suc i)"] by (simp add: advance_pc roles_def)
  note side = this
  show ?thesis unfolding worker(1)
    by (cases rule: worker_move_cases [of i s spurious]) (use side worker(2) assms(2) in \<open>auto simp: roles_def advance_pc\<close>)
next
  case (drain before again spurious)
  have side: "on_side False (qt_pc (advance spurious 0 (lg_queue s)) 0)"
    using assms(2) act_side [of False "qt_pc (lg_queue s) 0"] by (simp add: advance_pc roles_def)
  from drain(2) show ?thesis
    by (cases rule: drain_move_cases) (use side drain(1) assms(2) in \<open>auto simp: roles_def advance_pc start_call_def\<close>)
qed (use assms(2) in \<open>auto simp: roles_def\<close>)

section \<open>Nobody sleeps through a line\<close>

text \<open>
  While the writer sleeps on a line that was claimed and not taken, somebody is still going to wake
  it: a permit is there, or a worker is putting a line, looking at the flag or about to unpark.
\<close>

definition awaited :: "log_threads \<Rightarrow> bool" where
  "awaited s \<longleftrightarrow> permit (lg_gate s) \<or> lg_looking s \<noteq> {} \<or> lg_waking s \<noteq> {} \<or> (\<exists>i. putting (qt_pc (lg_queue s) (Suc i)))"

definition wake_inv :: "log_threads \<Rightarrow> bool" where
  "wake_inv s \<longleftrightarrow>
     (lg_writer s \<noteq> WStart \<longrightarrow> thread_set (lg_gate s))
     \<and> (lg_writer s = WPark \<longrightarrow> parked (lg_gate s)
          \<and> (qt_taken (lg_queue s) < length (qt_in (lg_queue s)) \<longrightarrow> awaited s))
     \<and> (\<forall>before. lg_writer s = WDrain before True \<longrightarrow> parked (lg_gate s))
     \<and> (\<forall>before again. lg_writer s = WDrain before again \<longrightarrow> before = 0)
     \<and> (lg_writer s \<in> {WStart, WIdle, WFlag, WPark} \<longrightarrow> lg_batch s = [])"

lemma advance_grows: "qt_in (advance spurious t q) = qt_in q \<or> putting (qt_pc (advance spurious t q) t)"
  by (auto simp: advance_def Let_def split: prod.splits pc.splits)

lemma putting_goes_on: "putting c \<Longrightarrow> \<nexists>pos. c = Publish pos \<Longrightarrow> putting (snd (act spurious q c))"
  by (cases c) auto

lemma wake_inv_worker:
  assumes roles: "roles s" and inv: "wake_inv s"
  shows "wake_inv (worker_move spurious i s)"
proof -
  let ?q = "advance spurious (Suc i) (lg_queue s)"
  have side: "on_side True (qt_pc (lg_queue s) (Suc i))" using roles by (simp add: roles_def)
  note taken = advance_producer(1) [OF side, of spurious]
  show ?thesis
  proof (cases rule: worker_move_cases [of i s spurious])
    case wake
    with inv show ?thesis by (auto simp: wake_inv_def awaited_def gate_wake_def)
  next
    case look
    with inv show ?thesis by (auto simp: wake_inv_def awaited_def)
  next
    case (put pos)
    with inv taken show ?thesis by (auto simp: wake_inv_def awaited_def)
  next
    case (refused sd pos)
    then have "qt_in ?q = qt_in (lg_queue s)" using advance_grows [of spurious "Suc i" "lg_queue s"] by auto
    moreover have "putting (qt_pc ?q (Suc j))" if "putting (qt_pc (lg_queue s) (Suc j))" for j
      using that refused(1) by (cases "j = i") (auto simp: advance_pc)
    then have "awaited s \<Longrightarrow> awaited (worker_move spurious i s)" unfolding awaited_def refused(3) by auto
    ultimately show ?thesis using inv taken refused(3) by (auto simp: wake_inv_def)
  next
    case search
    have go: "putting (qt_pc ?q (Suc j))" if "putting (qt_pc (lg_queue s) (Suc j))" for j
      using that search(1) putting_goes_on by (cases "j = i") (auto simp: advance_pc)
    from advance_grows [of spurious "Suc i" "lg_queue s"] show ?thesis
    proof
      assume "qt_in ?q = qt_in (lg_queue s)"
      moreover have "awaited s \<Longrightarrow> awaited (worker_move spurious i s)" using go unfolding awaited_def search(3) by auto
      ultimately show ?thesis using inv taken search(3) by (auto simp: wake_inv_def)
    next
      assume "putting (qt_pc ?q (Suc i))"
      then have "awaited (worker_move spurious i s)" using search(3) by (auto simp: awaited_def)
      with inv search(3) show ?thesis by (auto simp: wake_inv_def)
    qed
  qed
qed

text \<open>The second look finds nothing only when there is nothing, or when a worker is still putting.\<close>

lemma wake_inv_drain:
  assumes queue: "threads_inv cap g (lg_queue s)" "length (qt_in (lg_queue s)) + 2 * cap < 2 ^ 63"
    and roles: "roles s" and inv: "wake_inv s" and w: "lg_writer s = WDrain before again"
    and move: "drain_move spurious before again s = Some s'"
  shows "wake_inv s'"
  using move
proof (cases rule: drain_move_cases)
  case call
  with inv w show ?thesis by (auto simp: wake_inv_def)
next
  case (took pos l)
  then show ?thesis using inv w by (auto simp: wake_inv_def drained_def)
next
  case (empty sd pos)
  have sd: "sd = Consuming" using roles empty(1) by (auto simp: roles_def)
  obtain p where p: "pos = word_of_nat p" "p \<le> qt_taken (lg_queue s)"
    using inv_shape(7) [OF queue(1), of 0] empty(1) sd by auto
  have "lag (qt_queue (lg_queue s)) (word_of_nat p) FILLED < 0"
    using refused_lag [OF empty(1,2)] sd p(1) by simp
  from refused_empty [OF queue p(2) this]
  have "qt_taken (lg_queue s) = length (qt_in (lg_queue s)) \<or> (\<exists>u. putting (qt_pc (lg_queue s) u))"
    by (metis putting.simps(1,2))
  moreover have "\<not> putting (qt_pc (lg_queue s) 0)" using empty(1) by simp
  ultimately have busy: "qt_taken (lg_queue s) = length (qt_in (lg_queue s)) \<or> (\<exists>i. putting (qt_pc (lg_queue s) (Suc i)))"
    by (metis not0_implies_Suc)
  have "qt_in (advance spurious 0 (lg_queue s)) = qt_in (lg_queue s)" "qt_taken (advance spurious 0 (lg_queue s)) = qt_taken (lg_queue s)"
    using empty(1) by (auto simp: advance_def Let_def)
  with busy inv w empty(3) show ?thesis by (auto simp: wake_inv_def awaited_def drained_def advance_pc)
next
  case inside
  with inv w show ?thesis by (auto simp: wake_inv_def)
qed

lemma begin_recordE:
  assumes "begin_record i clock r s = Some s'"
  obtains l where "s' = s\<lparr>lg_producers := (lg_producers s)[i := (lg_producers s ! i)\<lparr>p_sequence := p_sequence (lg_producers s ! i) + 1\<rparr>],
      lg_queue := start_call (Suc i) (Producing l) (lg_queue s)\<rparr>"
  using assms that by (auto simp: begin_record_def Let_def)

lemma wake_inv_step:
  assumes step: "threads_step s s'" and queue: "threads_inv cap g (lg_queue s)" "length (qt_in (lg_queue s)) + 2 * cap < 2 ^ 63"
    and roles: "roles s" and inv: "wake_inv s"
  shows "wake_inv s'"
  using step
proof cases
  case (call_record i clock r)
  from call_record(6) obtain l where l: "s' = s\<lparr>lg_producers := (lg_producers s)[i := (lg_producers s ! i)\<lparr>p_sequence := p_sequence (lg_producers s ! i) + 1\<rparr>],
      lg_queue := start_call (Suc i) (Producing l) (lg_queue s)\<rparr>" by (rule begin_recordE)
  have "awaited s \<Longrightarrow> awaited s'"
    using call_record(3) unfolding awaited_def l start_call_def by (auto split: if_splits) (metis putting.simps)
  with inv show ?thesis by (auto simp: wake_inv_def l start_call_def)
next
  case (worker i spurious)
  show ?thesis unfolding worker(1) using roles inv by (rule wake_inv_worker)
next
  case (drain before again spurious)
  show ?thesis using wake_inv_drain [OF queue roles inv drain(1,2)] .
qed (use inv in \<open>auto simp: wake_inv_def awaited_def writer_started_def gate_wake_def\<close>)

section \<open>Lines in order\<close>

fun held :: "'a pc \<Rightarrow> u64 option" where
  "held (Read_Data pos) = Some pos"
| "held (Release pos _) = Some pos"
| "held _ = None"

text \<open>How many lines the calls of \<open>dequeue\<close> have returned to the writer.\<close>

definition delivered :: "log_threads \<Rightarrow> nat" where
  "delivered s = qt_taken (lg_queue s) - (if held (qt_pc (lg_queue s) 0) = None then 0 else 1)"

definition order_inv :: "log_threads \<Rightarrow> bool" where
  "order_inv s \<longleftrightarrow>
     (\<forall>pos. held (qt_pc (lg_queue s) 0) = Some pos \<longrightarrow>
        0 < qt_taken (lg_queue s) \<and> pos = word_of_nat (qt_taken (lg_queue s) - 1))
     \<and> handed_over (lg_writes s) @ lg_batch s = concat (map logged (take (delivered s) (qt_in (lg_queue s))))"

lemma order_worker:
  assumes queue: "threads_inv cap g (lg_queue s)" and roles: "roles s" and inv: "order_inv s"
  shows "order_inv (worker_move spurious i s)"
proof -
  let ?q = "advance spurious (Suc i) (lg_queue s)" and ?s = "worker_move spurious i s"
  have side: "on_side True (qt_pc (lg_queue s) (Suc i))" using roles by (simp add: roles_def)
  obtain vs where vs: "qt_in ?q = qt_in (lg_queue s) @ vs" using advance_producer(3) [OF side] by blast
  have same: "lg_writes ?s = lg_writes s" "lg_batch ?s = lg_batch s" "lg_queue ?s = lg_queue s \<or> lg_queue ?s = ?q"
    by (cases rule: worker_move_cases [of i s spurious]; simp)+
  have "delivered s \<le> length (qt_in (lg_queue s))" using inv_shape(4) [OF queue] by (simp add: delivered_def)
  then have "take (delivered s) (qt_in ?q) = take (delivered s) (qt_in (lg_queue s))" unfolding vs by simp
  moreover have "qt_pc ?q 0 = qt_pc (lg_queue s) 0" "qt_taken ?q = qt_taken (lg_queue s)"
    using advance_producer(1) [OF side] by (simp_all add: advance_pc)
  ultimately show ?thesis using inv same by (auto simp: order_inv_def delivered_def)
qed

lemma order_drain:
  assumes queue: "threads_inv cap g (lg_queue s)" "length (qt_in (lg_queue s)) + 2 * cap < 2 ^ 63"
    and roles: "roles s" and inv: "order_inv s" and move: "drain_move spurious before again s = Some s'"
  shows "order_inv s'"
  using move
proof (cases rule: drain_move_cases)
  case call
  with inv show ?thesis by (auto simp: order_inv_def delivered_def start_call_def)
next
  case (took pos l)
  let ?d = "qt_taken (lg_queue s)" and ?in = "qt_in (lg_queue s)"
  have d: "0 < ?d" "pos = word_of_nat (?d - 1)" "?d \<le> length ?in" "?d < 2 ^ 64"
    using inv took(1) inv_shape(4) [OF queue(1)] queue(2) by (auto simp: order_inv_def)
  obtain p where p: "pos = word_of_nat p" "g (p mod cap) = (p, Moved_By 0)" using inv_shape(7) [OF queue(1), of 0] took(1) by auto
  note slot = inv_slot [OF queue(1) inv_mod_less [OF queue(1)] p(2)]
  have "p = ?d - 1" using slot(2) p(1) d word_of_nat_eq [of p "?d - 1"] by auto
  moreover have "l = ?in ! p" using slot(3) took(1) by simp
  ultimately have l: "take ?d ?in = take (?d - 1) ?in @ [l]"
    using d(1,3) take_Suc_conv_app_nth [of "?d - 1" ?in] by simp
  have "handed_over (lg_writes s') @ lg_batch s' = concat (map logged (take (?d - 1) ?in)) @ logged l"
    using inv took by (simp add: order_inv_def delivered_def)
  also have "\<dots> = concat (map logged (take ?d ?in))" unfolding l by simp
  finally show ?thesis using took by (auto simp: order_inv_def delivered_def advance_def Let_def)
next
  case (empty sd pos)
  then have "qt_in (advance spurious 0 (lg_queue s)) = qt_in (lg_queue s)" "qt_taken (advance spurious 0 (lg_queue s)) = qt_taken (lg_queue s)"
    by (auto simp: advance_def Let_def)
  with empty inv show ?thesis by (auto simp: order_inv_def delivered_def)
next
  case inside
  let ?q = "advance spurious 0 (lg_queue s)"
  have q: "lg_queue s' = ?q" "lg_writes s' = lg_writes s" "lg_batch s' = lg_batch s" using inside(3) by auto
  have side: "on_side False (qt_pc (lg_queue s) 0)" using roles by (simp add: roles_def)
  have "dequeue_pos (qt_queue (lg_queue s)) = word_of_nat (qt_taken (lg_queue s))" using inv_shape(6) [OF queue(1)] .
  then have "(held (qt_pc ?q 0) = held (qt_pc (lg_queue s) 0) \<and> qt_taken ?q = qt_taken (lg_queue s))
      \<or> (held (qt_pc (lg_queue s) 0) = None \<and> held (qt_pc ?q 0) = Some (word_of_nat (qt_taken (lg_queue s))) \<and> qt_taken ?q = Suc (qt_taken (lg_queue s)))"
    using inside(2) side by (cases "qt_pc (lg_queue s) 0") (auto simp: advance_def Let_def)
  moreover have "qt_in ?q = qt_in (lg_queue s)" by (rule advance_consumer [OF side])
  ultimately show ?thesis using inv q by (auto simp: order_inv_def delivered_def)
qed

lemma order_step:
  assumes step: "threads_step s s'" and queue: "threads_inv cap g (lg_queue s)" "length (qt_in (lg_queue s)) + 2 * cap < 2 ^ 63"
    and roles: "roles s" and inv: "order_inv s"
  shows "order_inv s'"
  using step
proof cases
  case (call_record i clock r)
  from call_record(6) show ?thesis by (rule begin_recordE) (use inv in \<open>simp add: order_inv_def delivered_def start_call_def\<close>)
next
  case (worker i spurious)
  show ?thesis unfolding worker(1) using queue(1) roles inv by (rule order_worker)
next
  case (drain before again spurious)
  show ?thesis using order_drain [OF queue roles inv drain(2)] .
qed (use inv in \<open>auto simp: order_inv_def delivered_def\<close>)

section \<open>Nothing is uncounted\<close>

fun searching :: "'a pc \<Rightarrow> bool" where
  "searching (Load_Cursor _) \<longleftrightarrow> True"
| "searching (Load_Sequence _ _) \<longleftrightarrow> True"
| "searching (Compare_Swap _ _) \<longleftrightarrow> True"
| "searching _ \<longleftrightarrow> False"

definition searchers :: "log_threads \<Rightarrow> nat set" where
  "searchers s = {i. i < length (lg_producers s) \<and> searching (qt_pc (lg_queue s) (Suc i))}"

text \<open>Every producer numbers its calls of \<open>record\<close>, so the sum of their sequences is the number of calls.\<close>

definition calls :: "log_threads \<Rightarrow> u64" where
  "calls s = sum_list (map p_sequence (lg_producers s))"

definition drops :: "log_threads \<Rightarrow> u64" where
  "drops s = sum_list (map p_dropped (lg_producers s))"

definition tally_inv :: "log_threads \<Rightarrow> bool" where
  "tally_inv s \<longleftrightarrow> calls s = word_of_nat (length (qt_in (lg_queue s))) + drops s + word_of_nat (card (searchers s))"

lemma finite_searchers [simp]: "finite (searchers s)"
  by (simp add: searchers_def)

lemma map_update_same: "i < length xs \<Longrightarrow> (map f xs)[i := f (xs ! i)] = map f xs"
  by (metis list_update_id map_update)

text \<open>A step of a worker that looks for a slot goes on looking, or claims the next position.\<close>

lemma advance_search:
  assumes "on_side True (qt_pc q t)" and "\<nexists>pos. qt_pc q t = Publish pos"
    and "\<nexists>sd pos. qt_pc q t = Load_Sequence sd pos \<and> qt_pc (advance spurious t q) t = Idle"
  obtains (same) "searching (qt_pc (advance spurious t q) t) = searching (qt_pc q t)" "qt_in (advance spurious t q) = qt_in q"
    | (won) v where "searching (qt_pc q t)" "\<not> searching (qt_pc (advance spurious t q) t)" "qt_in (advance spurious t q) = qt_in q @ [v]"
proof (cases "qt_pc q t")
  case (Load_Sequence sd pos)
  then show thesis using assms(3) same by (auto simp: advance_def Let_def split: if_splits)
next
  case (Compare_Swap sd pos)
  with assms(1) obtain v where "sd = Producing v" by (cases sd) auto
  with Compare_Swap show thesis
    using same won by (cases "\<not> spurious \<and> enqueue_pos (qt_queue q) = pos") (simp_all add: advance_def)
qed (use assms same in \<open>auto simp: advance_def Let_def\<close>)

lemma tally_worker:
  assumes i: "i < length (lg_producers s)" and roles: "roles s" and inv: "tally_inv s"
  shows "tally_inv (worker_move spurious i s)"
proof (cases rule: worker_move_cases [of i s spurious])
  case wake
  with inv show ?thesis by (simp add: tally_inv_def calls_def drops_def searchers_def)
next
  case look
  with inv show ?thesis by (simp add: tally_inv_def calls_def drops_def searchers_def)
next
  case (put pos)
  then have "searchers (worker_move spurious i s) = searchers s" by (auto simp: searchers_def advance_pc)
  moreover have "qt_in (advance spurious (Suc i) (lg_queue s)) = qt_in (lg_queue s)" using put(1) by (simp add: advance_def)
  ultimately show ?thesis using inv put(2) by (simp add: tally_inv_def calls_def drops_def)
next
  case (refused sd pos)
  let ?s = "worker_move spurious i s"
  have "qt_in (advance spurious (Suc i) (lg_queue s)) = qt_in (lg_queue s)"
    using refused(2) advance_grows [of spurious "Suc i" "lg_queue s"] by auto
  moreover have "searchers s = insert i (searchers ?s)" "i \<notin> searchers ?s"
    using refused i by (auto simp: searchers_def advance_pc)
  moreover have "drops ?s = drops s + 1" "calls ?s = calls s"
    using i refused(3) sum_list_bump [of i "map p_dropped (lg_producers s)" 1]
    by (simp_all add: drops_def calls_def map_update map_update_same)
  ultimately show ?thesis using inv refused(3) by (simp add: tally_inv_def)
next
  case search
  let ?s = "worker_move spurious i s" and ?c = "qt_pc (lg_queue s) (Suc i)" and ?q = "advance spurious (Suc i) (lg_queue s)"
  have rest: "calls ?s = calls s" "drops ?s = drops s" "lg_producers ?s = lg_producers s" "lg_queue ?s = ?q" using search(3) by (simp_all add: calls_def drops_def)
  have side: "on_side True ?c" using roles by (simp add: roles_def)
  from side search(1,2) show ?thesis
  proof (cases rule: advance_search)
    case same
    then have "searchers ?s = searchers s" using rest(3,4) by (auto simp: searchers_def advance_pc)
    with inv rest same(2) show ?thesis by (simp add: tally_inv_def)
  next
    case (won v)
    then have "searchers s = insert i (searchers ?s)" "i \<notin> searchers ?s"
      using rest(3,4) i by (auto simp: searchers_def advance_pc)
    with inv rest won(3) show ?thesis by (simp add: tally_inv_def)
  qed
qed

lemma tally_step:
  assumes step: "threads_step s s'" and roles: "roles s" and inv: "tally_inv s"
  shows "tally_inv s'"
  using step
proof cases
  case (call_record i clock r)
  from call_record(6) obtain l where l: "s' = s\<lparr>lg_producers := (lg_producers s)[i := (lg_producers s ! i)\<lparr>p_sequence := p_sequence (lg_producers s ! i) + 1\<rparr>],
      lg_queue := start_call (Suc i) (Producing l) (lg_queue s)\<rparr>" by (rule begin_recordE)
  have "searchers s' = insert i (searchers s)" "i \<notin> searchers s"
    using call_record(1,3) by (auto simp: searchers_def l start_call_def)
  moreover have "calls s' = calls s + 1" "drops s' = drops s"
    using call_record(1) sum_list_bump [of i "map p_sequence (lg_producers s)" 1]
    by (simp_all add: drops_def calls_def l map_update map_update_same)
  moreover have "qt_in (lg_queue s') = qt_in (lg_queue s)" by (simp add: l start_call_def)
  ultimately show ?thesis using inv by (simp add: tally_inv_def)
next
  case (worker i spurious)
  show ?thesis unfolding worker(1) using worker(2) roles inv by (rule tally_worker)
next
  case (drain before again spurious)
  have "on_side False (qt_pc (lg_queue s) 0)" using roles by (simp add: roles_def)
  note same = advance_consumer [OF this, of spurious]
  from drain(2) have "searchers s' = searchers s" "qt_in (lg_queue s') = qt_in (lg_queue s)" "lg_producers s' = lg_producers s"
    by (cases rule: drain_move_cases; use same in \<open>auto simp: searchers_def advance_pc start_call_def\<close>)+
  with inv show ?thesis by (simp add: tally_inv_def calls_def drops_def)
qed (use inv in \<open>simp_all add: tally_inv_def calls_def drops_def searchers_def\<close>)

section \<open>Every reachable state\<close>

lemma step_longer:
  assumes "threads_step s s'"
  shows "length (qt_in (lg_queue s)) \<le> length (qt_in (lg_queue s'))"
  using assms
proof cases
  case (call_record i clock r)
  from call_record(6) show ?thesis by (rule begin_recordE) (simp add: start_call_def)
next
  case (worker i spurious)
  show ?thesis unfolding worker(1) by (cases rule: worker_move_cases [of i s spurious]) (simp_all add: advance_in)
next
  case (drain before again spurious)
  from drain(2) show ?thesis by (cases rule: drain_move_cases) (auto simp: advance_in start_call_def)
qed simp_all

lemma threads_inv_reachable:
  "threads_reachable capacity workers s \<Longrightarrow> few_lines s \<Longrightarrow> roles s \<and> wake_inv s \<and> order_inv s \<and> tally_inv s"
proof (induction rule: threads_reachable.induct)
  case (init lg)
  then have "al_gate lg = gate_new" "\<forall>p \<in> set (al_producers lg). p_sequence p = 0 \<and> p_dropped p = 0"
    by (auto simp: access_log_new_def with_enabled_def bind_eq_Some_conv)
  moreover have "sum_list (map f ps) = (0 :: u64)" if "\<forall>p \<in> set ps. f p = 0" for f :: "producer \<Rightarrow> u64" and ps
    using that by (induction ps) auto
  ultimately show ?case
    by (simp add: roles_def wake_inv_def order_inv_def tally_inv_def threads_new_def delivered_def calls_def drops_def searchers_def)
next
  case (step s s')
  obtain cap where run: "queue_run cap (lg_queue s)" "queue_run cap (lg_queue s')"
    using reachable_queue [OF step(1)] step_queue [OF step(2)] by blast
  have few: "few_lines s"
    using step(4) step_longer [OF step(2)] queue_run_capacity [OF run(1)] queue_run_capacity [OF run(2)]
    by (simp add: few_lines_def)
  obtain cap g where inv: "threads_inv cap g (lg_queue s)" "length (qt_in (lg_queue s)) + 2 * cap < 2 ^ 63"
    using step(1) few by (rule reachable_inv)
  from step(3) [OF few] have "roles s" "wake_inv s" "order_inv s" "tally_inv s" by blast+
  with roles_step [OF step(2)] wake_inv_step [OF step(2) inv] order_step [OF step(2) inv] tally_step [OF step(2)]
  show ?case by blast
qed

text \<open>
  C26. Lines are handed on whole, once and in order, with every call of the queue taken apart into its
  atomic steps. Under any interleaving, what the writer has handed to the sink and batched is exactly
  the lines of the positions it was handed, in order, and it was handed all positions taken but at
  most the one it is just reading. Every write carries such a batch; the sink received the beginning
  of it, and all of it when the write did not fail, so with no failed write the lines themselves have
  arrived. And of the calls of \<open>record\<close>, each has claimed a position, was counted as dropped, or is still
  looking for a slot; what a failing sink loses is not counted. The numbers are those of the 64-bit
  counters.
\<close>

theorem lines_in_order:
  assumes "threads_reachable capacity workers s" and "few_lines s"
  shows "\<exists>k. k \<le> qt_taken (lg_queue s) \<and> qt_taken (lg_queue s) \<le> Suc k
    \<and> handed_over (lg_writes s) @ lg_batch s = concat (map logged (take k (qt_in (lg_queue s))))
    \<and> (list_all (\<lambda>(b, n). n = length b) (lg_writes s) \<longrightarrow>
         got_through (lg_writes s) @ lg_batch s = concat (map logged (take k (qt_in (lg_queue s)))))
    \<and> (qt_pc (lg_queue s) 0 = Idle \<longrightarrow> k = qt_taken (lg_queue s))
    \<and> calls s = word_of_nat (length (qt_in (lg_queue s))) + drops s + word_of_nat (card (searchers s))"
proof -
  from threads_inv_reachable [OF assms] have "order_inv s" "tally_inv s" by auto
  then show ?thesis
    by (intro exI [of _ "delivered s"]) (auto simp: order_inv_def tally_inv_def delivered_def got_through_all)
qed

lemma permit_stays: "permit (lg_gate s) \<Longrightarrow> permit (lg_gate (worker_move spurious i s))"
  by (cases rule: worker_move_cases [of i s spurious]) (simp_all add: gate_wake_def)

lemma gate_stays: "parked (lg_gate (worker_move spurious i s)) = parked (lg_gate s) \<and> thread_set (lg_gate (worker_move spurious i s)) = thread_set (lg_gate s)"
  by (cases rule: worker_move_cases [of i s spurious]) (simp_all add: gate_wake_def)

text \<open>A worker that is awaited unparks the writer within four steps of its own.\<close>

lemma waking_permits:
  assumes "i \<in> lg_waking s" and "thread_set (lg_gate s)"
  shows "permit (lg_gate (worker_move False i s))"
  using assms by (simp add: worker_move_def gate_wake_def)

lemma looking_permits:
  assumes "i \<in> lg_waking s \<or> i \<in> lg_looking s" and "thread_set (lg_gate s)" and "parked (lg_gate s)"
  shows "permit (lg_gate (worker_move False i (worker_move False i s)))"
proof (cases "i \<in> lg_waking s")
  case True
  then show ?thesis by (intro permit_stays waking_permits assms(2))
next
  case False
  then have "i \<in> lg_waking (worker_move False i s)" using assms by (simp add: worker_move_def)
  then show ?thesis using assms(2) gate_stays by (blast intro: waking_permits)
qed

lemma publishing_permits:
  assumes "i \<in> lg_waking s \<or> i \<in> lg_looking s \<or> (\<exists>pos. qt_pc (lg_queue s) (Suc i) = Publish pos)"
    and "thread_set (lg_gate s)" and "parked (lg_gate s)"
  shows "permit (lg_gate (worker_move False i (worker_move False i (worker_move False i s))))"
proof (cases "i \<in> lg_waking s \<or> i \<in> lg_looking s")
  case True
  then show ?thesis by (intro permit_stays looking_permits assms(2,3))
next
  case False
  then have "i \<in> lg_looking (worker_move False i s)" using assms(1) by (auto simp: worker_move_def Let_def)
  then show ?thesis using assms(2,3) gate_stays by (blast intro: looking_permits)
qed

lemma putting_permits:
  assumes "i \<in> lg_waking s \<or> i \<in> lg_looking s \<or> putting (qt_pc (lg_queue s) (Suc i))"
    and "thread_set (lg_gate s)" and "parked (lg_gate s)"
  shows "permit (lg_gate ((worker_move False i ^^ 4) s))"
proof -
  let ?s = "worker_move False i s"
  have "permit (lg_gate (worker_move False i (worker_move False i (worker_move False i ?s))))"
  proof (cases "i \<in> lg_waking s \<or> i \<in> lg_looking s \<or> (\<exists>pos. qt_pc (lg_queue s) (Suc i) = Publish pos)")
    case True
    then show ?thesis by (intro permit_stays publishing_permits assms(2,3))
  next
    case False
    then obtain pos v where "qt_pc (lg_queue s) (Suc i) = Write_Data pos v" using assms(1) by (cases "qt_pc (lg_queue s) (Suc i)") auto
    with False have "\<exists>pos. qt_pc (lg_queue ?s) (Suc i) = Publish pos" by (auto simp: worker_move_def advance_pc Let_def)
    then show ?thesis using assms(2,3) gate_stays by (blast intro: publishing_permits)
  qed
  then show ?thesis by (simp add: eval_nat_numeral)
qed

text \<open>
  C27. The writer does not sleep through a line. Whenever it sleeps while a position is claimed and not
  taken, with all calls of the queue taken apart into their atomic steps: it has its permit to wake
  already, or there is a worker inside \<open>record\<close> that gives it the permit within four steps of its own,
  whatever \<open>dequeue\<close> answered before. So a finished line waits at most for the worker whose line is
  ahead of it, never for the next request or for the time-out.
\<close>

theorem sleeper_is_woken:
  assumes "threads_reachable capacity workers s" and "few_lines s"
    and "lg_writer s = WPark" and "qt_taken (lg_queue s) < length (qt_in (lg_queue s))"
  shows "permit (lg_gate s) \<or> (\<exists>i < length (lg_producers s). permit (lg_gate ((worker_move False i ^^ 4) s)))"
proof -
  from threads_inv_reachable [OF assms(1,2)] have inv: "roles s" "wake_inv s" by auto
  have gate: "thread_set (lg_gate s)" "parked (lg_gate s)" "awaited s" using inv(2) assms(3,4) by (auto simp: wake_inv_def)
  show ?thesis
  proof (cases "permit (lg_gate s)")
    case False
    then obtain i where i: "i \<in> lg_waking s \<or> i \<in> lg_looking s \<or> putting (qt_pc (lg_queue s) (Suc i))"
      using gate(3) by (auto simp: awaited_def)
    have "i < length (lg_producers s)"
    proof (rule ccontr)
      assume out: "\<not> i < length (lg_producers s)"
      then have "qt_pc (lg_queue s) (Suc i) = Idle" "i \<notin> lg_waking s" "i \<notin> lg_looking s" using inv(1) by (auto simp: roles_def)
      with i show False by simp
    qed
    with putting_permits [OF i gate(1,2)] show ?thesis by blast
  qed simp
qed

section \<open>Examples\<close>

text \<open>A schedule: which of the steps is taken next.\<close>

datatype log_event = Begin_Record nat | Work nat | Start_Writer | Drain_Step | Give_Up | Raise_Flag | Hand_Over nat | Stop_Log | Finish

fun log_move :: "log_event \<Rightarrow> log_threads \<Rightarrow> log_threads" where
  "log_move (Begin_Record i) s =
     (if i < length (lg_producers s) \<and> p_enabled (lg_producers s ! i) \<and> qt_pc (lg_queue s) (Suc i) = Idle
         \<and> i \<notin> lg_looking s \<and> i \<notin> lg_waking s
      then (case begin_record i None sample_record s of Some s' \<Rightarrow> s' | None \<Rightarrow> s) else s)"
| "log_move (Work i) s = (if i < length (lg_producers s) then worker_move False i s else s)"
| "log_move Start_Writer s =
     (if lg_writer s = WStart then s\<lparr>lg_gate := writer_started (lg_gate s), lg_writer := WDrain 0 False\<rparr> else s)"
| "log_move Drain_Step s =
     (case lg_writer s of
        WDrain before again \<Rightarrow> (case drain_move False before again s of Some s' \<Rightarrow> s' | None \<Rightarrow> s)
      | _ \<Rightarrow> s)"
| "log_move Give_Up s = (if lg_writer s = WIdle \<and> lg_running s then s\<lparr>lg_writer := WFlag\<rparr> else s)"
| "log_move Raise_Flag s =
     (if lg_writer s = WFlag
      then s\<lparr>lg_gate := (lg_gate s)\<lparr>parked := True\<rparr>, lg_writer := WDrain (length (lg_batch s)) True\<rparr> else s)"
| "log_move (Hand_Over n) s =
     (if lg_writer s = WWrite \<and> n \<le> length (lg_batch s)
      then s\<lparr>lg_writes := lg_writes s @ [(lg_batch s, n)], lg_batch := [], lg_writer := WDrain 0 False\<rparr> else s)"
| "log_move Stop_Log s = s\<lparr>lg_running := False\<rparr>"
| "log_move Finish s = (if lg_writer s = WIdle \<and> \<not> lg_running s then s\<lparr>lg_writer := WDone\<rparr> else s)"

lemma log_move_reachable: "threads_reachable capacity workers s \<Longrightarrow> threads_reachable capacity workers (log_move m s)"
  by (cases m) (auto intro: threads_reachable.step threads_step.intros split: option.splits writer_pc.splits)

lemma log_moves_reachable: "threads_reachable capacity workers s \<Longrightarrow> threads_reachable capacity workers (fold log_move ms s)"
  by (induction ms arbitrary: s) (auto intro: log_move_reachable)

text \<open>The writer gives up and sleeps; then the only worker claims a position.\<close>

definition small_log :: "nat \<Rightarrow> access_log" where
  "small_log workers = \<lparr>al_queue = \<lparr>buffer = [\<lparr>sequence = 0, payload = None\<rparr>, \<lparr>sequence = 1, payload = None\<rparr>], enqueue_pos = 0, dequeue_pos = 0\<rparr>,
     al_producers = map (\<lambda>w. \<lparr>p_sequence = 0, p_dropped = 0, p_worker = w, p_enabled = True\<rparr>) [0..<max workers 1],
     al_running = True, al_gate = gate_new\<rparr>"

lemma small_log_new: "access_log_new 2 workers = Some (small_log workers)"
proof -
  have "is_power_of_two 2" unfolding is_power_of_two_def by (intro bexI [of _ 1]) auto
  moreover have "next_power_of_two 2 = Some 2"
    unfolding next_power_of_two_def by (subst upt_conv_Cons, simp, subst upt_conv_Cons, simp) simp
  ultimately show ?thesis
    by (simp add: access_log_new_def with_enabled_def queue_new_def small_log_def EMPTY_def upt_rec)
qed

lemma small_log_reachable: "threads_reachable 2 workers (fold log_move ms (threads_new (small_log workers)))"
  by (intro log_moves_reachable threads_reachable.init small_log_new)

definition fast_asleep :: log_threads where
  "fast_asleep = fold log_move
     ([Start_Writer] @ replicate 3 Drain_Step @ [Give_Up, Raise_Flag] @ replicate 3 Drain_Step @ [Begin_Record 0] @ replicate 3 (Work 0))
     (threads_new (small_log 1))"

fun glance :: "log_threads \<Rightarrow> writer_pc \<times> nat \<times> nat \<times> nat \<times> bool \<times> nat" where
  "glance s = (lg_writer s, qt_taken (lg_queue s), length (qt_in (lg_queue s)), length (buffer (qt_queue (lg_queue s))),
     permit (lg_gate s), length (lg_producers s))"

lemma fast_asleep_seen: "glance fast_asleep = (WPark, 0, 1, 2, False, 1)"
  by code_simp

lemma fast_asleep_facts:
  "lg_writer fast_asleep = WPark" "qt_taken (lg_queue fast_asleep) = 0" "length (qt_in (lg_queue fast_asleep)) = 1"
  "length (buffer (qt_queue (lg_queue fast_asleep))) = 2" "\<not> permit (lg_gate fast_asleep)" "length (lg_producers fast_asleep) = 1"
  using fast_asleep_seen by simp_all

lemma fast_asleep_reachable: "threads_reachable 2 1 fast_asleep" "few_lines fast_asleep"
proof -
  show "threads_reachable 2 1 fast_asleep"
    unfolding fast_asleep_def by (rule small_log_reachable)
  show "few_lines fast_asleep" by (simp add: few_lines_def fast_asleep_facts)
qed

text \<open>One line recorded, and \<open>dequeue\<close> about to return it to the writer; then the writer has it.\<close>

definition one_coming :: log_threads where
  "one_coming = fold log_move ([Start_Writer, Begin_Record 0] @ replicate 6 (Work 0) @ replicate 5 Drain_Step) (threads_new (small_log 1))"

fun coming :: "log_threads \<Rightarrow> bool \<times> bool \<times> nat \<times> nat \<times> nat \<times> nat option" where
  "coming s = (lg_writer s = WDrain 0 False, lg_batch s = [] \<and> lg_writes s = [], qt_taken (lg_queue s), length (qt_in (lg_queue s)),
     length (buffer (qt_queue (lg_queue s))),
     (case qt_pc (lg_queue s) 0 of Release _ (Some l) \<Rightarrow> Some (length (logged l)) | _ \<Rightarrow> None))"

lemma one_coming_seen: "coming one_coming = (True, True, 1, 1, 2, Some 112)"
  by code_simp

definition one_taken :: log_threads where
  "one_taken = log_move Drain_Step one_coming"

lemma one_taken_facts:
  "threads_reachable 2 1 one_taken" "few_lines one_taken" "qt_pc (lg_queue one_taken) 0 = Idle"
  "qt_taken (lg_queue one_taken) = 1" "length (qt_in (lg_queue one_taken)) = 1" "lg_writes one_taken = []"
proof -
  show "threads_reachable 2 1 one_taken"
    unfolding one_taken_def one_coming_def by (intro log_move_reachable small_log_reachable)
  obtain pos l where at: "qt_pc (lg_queue one_coming) 0 = Release pos (Some l)" "length (logged l) = 112"
    using one_coming_seen by (auto split: pc.splits option.splits)
  then have "drain_move False 0 False one_coming = Some (one_coming\<lparr>lg_queue := advance False 0 (lg_queue one_coming),
      lg_batch := lg_batch one_coming @ logged l, lg_writer := WDrain 0 False\<rparr>)"
    using one_coming_seen by (simp add: drain_move_def Let_def BATCH_BYTES_def)
  then have taken: "one_taken = one_coming\<lparr>lg_queue := advance False 0 (lg_queue one_coming),
      lg_batch := lg_batch one_coming @ logged l, lg_writer := WDrain 0 False\<rparr>"
    using one_coming_seen by (simp add: one_taken_def)
  show "qt_pc (lg_queue one_taken) 0 = Idle" "qt_taken (lg_queue one_taken) = 1" "length (qt_in (lg_queue one_taken)) = 1"
    "lg_writes one_taken = []" "few_lines one_taken"
    using one_coming_seen at(1) act_capacity [of False "qt_queue (lg_queue one_coming)" "Release pos (Some l)"]
    by (simp_all add: taken few_lines_def advance_def Let_def)
qed

theorem lines_in_order_witness:
  "\<exists>s l. threads_reachable 2 1 s \<and> qt_in (lg_queue s) = [l] \<and> lg_batch s = logged l"
proof -
  obtain l where l: "qt_in (lg_queue one_taken) = [l]"
    using one_taken_facts(5) by (metis One_nat_def length_0_conv length_Suc_conv)
  from lines_in_order [OF one_taken_facts(1,2)] one_taken_facts(3,4,6) l have "lg_batch one_taken = logged l"
    by auto
  with one_taken_facts(1) l show ?thesis by blast
qed

text \<open>
  What a failing sink loses is gone and counted nowhere: from every state in which the writer is about
  to write, a write of which nothing gets through leaves an empty batch and the counters as they were.
\<close>

lemma failed_write_uncounted:
  assumes "lg_writer s = WWrite"
  shows "\<exists>s'. threads_step s s' \<and> lg_batch s' = [] \<and> got_through (lg_writes s') = got_through (lg_writes s)
    \<and> drops s' = drops s \<and> calls s' = calls s"
  using threads_step.hand_over [OF assms, of 0] by (force simp: drops_def calls_def)

theorem sleeper_is_woken_witness:
  "lg_writer fast_asleep = WPark \<and> permit (lg_gate ((worker_move False 0 ^^ 4) fast_asleep))"
proof -
  have "qt_taken (lg_queue fast_asleep) < length (qt_in (lg_queue fast_asleep))" by (simp add: fast_asleep_facts)
  from sleeper_is_woken [OF fast_asleep_reachable fast_asleep_facts(1) this] fast_asleep_facts(1,5,6)
  show ?thesis by (metis less_one)
qed

text \<open>
  What a stop can leave behind: worker 1 has put its line and returned, worker 0 is still putting the
  one ahead of it; asked to finish, the writer finds the queue empty and ends with nothing written.
\<close>

definition left_behind :: log_threads where
  "left_behind = fold log_move
     ([Start_Writer, Begin_Record 0] @ replicate 3 (Work 0) @ [Begin_Record 1] @ replicate 6 (Work 1) @ [Stop_Log] @ replicate 3 Drain_Step @ [Finish])
     (threads_new (small_log 2))"

fun remains :: "log_threads \<Rightarrow> writer_pc \<times> bool \<times> bool \<times> nat \<times> string" where
  "remains s = (lg_writer s, qt_pc (lg_queue s) 2 = Idle, 1 \<in> lg_looking s \<union> lg_waking s,
     length (qt_in (lg_queue s)), handed_over (lg_writes s) @ lg_batch s)"

lemma stop_leaves_lines:
  "threads_reachable 2 2 left_behind \<and> remains left_behind = (WDone, True, False, 2, [])"
proof
  show "threads_reachable 2 2 left_behind" unfolding left_behind_def by (rule small_log_reachable)
  show "remains left_behind = (WDone, True, False, 2, [])" by code_simp
qed

end
