(* ===== verification/Pinned_Pages.thy ===== *)
theory Pinned_Pages
  imports Barrier
begin

text \<open>
  The pages of the barriers' keys across snapshot swaps (\<open>hardening.rs\<close>, \<open>barrier.rs\<close>, the slot of
  \<open>snapshot.rs\<close>). Building a snapshot locks the pages its barrier's box lies in; storing it in the slot
  makes it current and gives up the slot's share of the one before; requests that loaded a snapshot
  keep a share of it, so the old barrier is dropped, and its pages unlocked, when the last share goes,
  at any time later and in any order. The kernel is a parameter with its documented behaviour: locking
  rounds outward to whole pages, of whatever size, a refused call changes nothing, and locks do not
  stack, so one \<open>munlock\<close> undoes any number of \<open>mlock\<close> calls.

  Shown here: as long as every new box shares no page with a box still alive, exactly the pages of the
  barriers still alive are locked, whatever the requests do; when it does share one, dropping the old
  barrier leaves that page of the new key unlocked, at the swap or long after it.
\<close>

section \<open>The kernel\<close>

record 'k page_kernel =
  pk_page :: nat
  pk_mlock :: "nat \<Rightarrow> nat \<Rightarrow> 'k \<Rightarrow> 'k \<times> int"
  pk_munlock :: "nat \<Rightarrow> nat \<Rightarrow> 'k \<Rightarrow> 'k"
  pk_resident :: "'k \<Rightarrow> nat set"

text \<open>The pages that \<open>a..a + n\<close> touches.\<close>

definition pages :: "'k page_kernel \<Rightarrow> nat \<Rightarrow> nat \<Rightarrow> nat set" where
  "pages K a n = {p. \<exists>x. a \<le> x \<and> x < a + n \<and> p = x div pk_page K}"

definition kernel_ok :: "'k page_kernel \<Rightarrow> bool" where
  "kernel_ok K \<longleftrightarrow> 0 < pk_page K
     \<and> (\<forall>a n k. pk_resident K (fst (pk_mlock K a n k))
          = (if snd (pk_mlock K a n k) = 0 then pk_resident K k \<union> pages K a n else pk_resident K k))
     \<and> (\<forall>a n k. pk_resident K (pk_munlock K a n k) = pk_resident K k - pages K a n)"

text \<open>\<open>lock_pages\<close> with its effect on the kernel; the call is made for a non-empty range only.\<close>

definition pin :: "platform \<Rightarrow> 'k page_kernel \<Rightarrow> nat \<times> nat \<Rightarrow> 'k \<Rightarrow> 'k \<times> locked_pages option" where
  "pin plat K box k =
     (let (a, n) = box in
      (if plat = Not_Unix \<or> n = 0 then k else fst (pk_mlock K a n k),
       lock_pages plat (\<lambda>a n. snd (pk_mlock K a n k)) a n))"

text \<open>Dropping the \<open>Option<LockedPages>\<close> of a barrier.\<close>

definition unpin :: "platform \<Rightarrow> 'k page_kernel \<Rightarrow> locked_pages option \<Rightarrow> 'k \<Rightarrow> 'k" where
  "unpin plat K l k =
     (case Option.bind l (unlock_pages plat) of None \<Rightarrow> k | Some (a, n) \<Rightarrow> pk_munlock K a n k)"

section \<open>Shares of snapshots\<close>

text \<open>The barrier of a snapshot behind an \<open>Arc\<close>: what it locked, where its box is, and its count of shares.\<close>

record shared_barrier =
  sb_lock :: "locked_pages option"
  sb_box :: "nat \<times> nat"
  sb_shares :: nat

record 'k arcs =
  ar_kernel :: 'k
  ar_live :: "nat \<rightharpoonup> shared_barrier"
  ar_slot :: "nat option"
  ar_next :: nat

definition arcs_new :: "'k \<Rightarrow> 'k arcs" where
  "arcs_new k = \<lparr>ar_kernel = k, ar_live = Map.empty, ar_slot = None, ar_next = 0\<rparr>"

text \<open>Giving up a share; with the last one the barrier is dropped and its pages unlocked.\<close>

definition release_share :: "platform \<Rightarrow> 'k page_kernel \<Rightarrow> nat \<Rightarrow> 'k arcs \<Rightarrow> 'k arcs" where
  "release_share plat K i s =
     (case ar_live s i of
        None \<Rightarrow> s
      | Some b \<Rightarrow>
          if sb_shares b \<le> 1
          then s\<lparr>ar_live := (ar_live s)(i := None), ar_kernel := unpin plat K (sb_lock b) (ar_kernel s)\<rparr>
          else s\<lparr>ar_live := (ar_live s)(i \<mapsto> b\<lparr>sb_shares := sb_shares b - 1\<rparr>)\<rparr>)"

text \<open>\<open>SnapshotSlot::store\<close> of a snapshot just built: it takes the slot, and the one before loses that share.\<close>

definition store_barrier :: "platform \<Rightarrow> 'k page_kernel \<Rightarrow> nat \<times> nat \<Rightarrow> 'k arcs \<Rightarrow> 'k arcs" where
  "store_barrier plat K box s =
     (let (k, l) = pin plat K box (ar_kernel s);
          s' = s\<lparr>ar_kernel := k, ar_live := (ar_live s)(ar_next s \<mapsto> \<lparr>sb_lock = l, sb_box = box, sb_shares = 1\<rparr>),
                 ar_slot := Some (ar_next s), ar_next := Suc (ar_next s)\<rparr>
      in case ar_slot s of None \<Rightarrow> s' | Some old \<Rightarrow> release_share plat K old s')"

text \<open>\<open>SnapshotSlot::load\<close>: a request takes a share of what the slot holds.\<close>

definition load_barrier :: "'k arcs \<Rightarrow> 'k arcs" where
  "load_barrier s =
     (case ar_slot s of
        None \<Rightarrow> s
      | Some i \<Rightarrow>
          (case ar_live s i of
             None \<Rightarrow> s
           | Some b \<Rightarrow> s\<lparr>ar_live := (ar_live s)(i \<mapsto> b\<lparr>sb_shares := Suc (sb_shares b)\<rparr>)\<rparr>))"

text \<open>
  What happens: a snapshot is stored; one is built and given up, because a secret could not be sealed;
  a request loads; a request that holds a share of a snapshot ends. The slot keeps its own share.
\<close>

datatype arc_event = Store "nat \<times> nat" | Abandon "nat \<times> nat" | Load_Share | End_Request nat

fun arc_step :: "platform \<Rightarrow> 'k page_kernel \<Rightarrow> arc_event \<Rightarrow> 'k arcs \<Rightarrow> 'k arcs" where
  "arc_step plat K (Store box) s = store_barrier plat K box s"
| "arc_step plat K (Abandon box) s =
     (let (k, l) = pin plat K box (ar_kernel s) in s\<lparr>ar_kernel := unpin plat K l k\<rparr>)"
| "arc_step plat K Load_Share s = load_barrier s"
| "arc_step plat K (End_Request i) s =
     (case ar_live s i of
        None \<Rightarrow> s
      | Some b \<Rightarrow> if ar_slot s = Some i \<and> sb_shares b \<le> 1 then s else release_share plat K i s)"

text \<open>No new box shares a page with one that is still alive.\<close>

definition box_apart :: "'k page_kernel \<Rightarrow> nat \<times> nat \<Rightarrow> 'k arcs \<Rightarrow> bool" where
  "box_apart K box s \<longleftrightarrow> (\<forall>i b. ar_live s i = Some b \<longrightarrow>
     pages K (fst box) (snd box) \<inter> pages K (fst (sb_box b)) (snd (sb_box b)) = {})"

fun apart :: "platform \<Rightarrow> 'k page_kernel \<Rightarrow> arc_event list \<Rightarrow> 'k arcs \<Rightarrow> bool" where
  "apart plat K [] s \<longleftrightarrow> True"
| "apart plat K (e # es) s \<longleftrightarrow>
     (case e of Store box \<Rightarrow> box_apart K box s | Abandon box \<Rightarrow> box_apart K box s | _ \<Rightarrow> True)
     \<and> apart plat K es (arc_step plat K e s)"

definition pinned :: "'k page_kernel \<Rightarrow> locked_pages option \<Rightarrow> nat set" where
  "pinned K l = (case l of None \<Rightarrow> {} | Some p \<Rightarrow> pages K (addr p) (len p))"

section \<open>Every lock belongs to a live barrier\<close>

lemma pinned_None [simp]: "pinned K None = {}"
  by (simp add: pinned_def)

lemma pin_pages:
  assumes "kernel_ok K" and "pin plat K box k = (k', l)"
  shows "pk_resident K k' = pk_resident K k \<union> pinned K l" and "pinned K l \<subseteq> pages K (fst box) (snd box)"
    and "plat = Not_Unix \<Longrightarrow> l = None" and "l \<noteq> None \<Longrightarrow> pinned K l = pages K (fst box) (snd box)"
  using assms by (auto simp: kernel_ok_def pin_def lock_pages_def pinned_def split: if_splits prod.splits option.splits)

lemma unpin_pages:
  assumes "kernel_ok K" and "plat = Not_Unix \<Longrightarrow> l = None"
  shows "pk_resident K (unpin plat K l k) = pk_resident K k - pinned K l"
  using assms by (cases "plat = Not_Unix")
    (auto simp: kernel_ok_def unpin_def unlock_pages_def pinned_def split: option.splits)

abbreviation box_pages :: "'k page_kernel \<Rightarrow> shared_barrier \<Rightarrow> nat set" where
  "box_pages K b \<equiv> pages K (fst (sb_box b)) (snd (sb_box b))"

definition held_by :: "'k page_kernel \<Rightarrow> (nat \<rightharpoonup> shared_barrier) \<Rightarrow> nat set" where
  "held_by K m = {p. \<exists>i b. m i = Some b \<and> p \<in> pinned K (sb_lock b)}"

lemma held_by_new: "m i = None \<Longrightarrow> held_by K (m(i \<mapsto> b)) = held_by K m \<union> pinned K (sb_lock b)"
  unfolding held_by_def by (auto split: if_splits) (metis option.distinct(1))

lemma held_by_same: "m i = Some b \<Longrightarrow> sb_lock b' = sb_lock b \<Longrightarrow> held_by K (m(i \<mapsto> b')) = held_by K m"
  unfolding held_by_def by (auto split: if_splits) (metis option.inject)

lemma held_by_gone:
  assumes "m i = Some b" and "\<And>j c. m j = Some c \<Longrightarrow> j \<noteq> i \<Longrightarrow> pinned K (sb_lock b) \<inter> pinned K (sb_lock c) = {}"
  shows "held_by K (m(i := None)) = held_by K m - pinned K (sb_lock b)"
proof (rule set_eqI)
  fix p
  have "p \<notin> pinned K (sb_lock b)" if "m j = Some c" "j \<noteq> i" "p \<in> pinned K (sb_lock c)" for j c
    using assms(2) [OF that(1,2)] that(3) by blast
  moreover have "p \<in> held_by K (m(i := None)) \<longleftrightarrow> (\<exists>j c. j \<noteq> i \<and> m j = Some c \<and> p \<in> pinned K (sb_lock c))"
    unfolding held_by_def by (auto split: if_splits)
  moreover have "p \<in> held_by K m \<longleftrightarrow> p \<in> pinned K (sb_lock b) \<or> (\<exists>j c. j \<noteq> i \<and> m j = Some c \<and> p \<in> pinned K (sb_lock c))"
    unfolding held_by_def using assms(1) by (auto) (metis option.inject)
  ultimately show "p \<in> held_by K (m(i := None)) \<longleftrightarrow> p \<in> held_by K m - pinned K (sb_lock b)" by blast
qed

definition arcs_inv :: "platform \<Rightarrow> 'k page_kernel \<Rightarrow> 'k arcs \<Rightarrow> bool" where
  "arcs_inv plat K s \<longleftrightarrow> pk_resident K (ar_kernel s) = held_by K (ar_live s)
     \<and> (\<forall>i b. ar_live s i = Some b \<longrightarrow> i < ar_next s \<and> 0 < sb_shares b \<and> pinned K (sb_lock b) \<subseteq> box_pages K b
          \<and> (plat = Not_Unix \<longrightarrow> sb_lock b = None))
     \<and> (\<forall>i j b c. ar_live s i = Some b \<longrightarrow> ar_live s j = Some c \<longrightarrow> i \<noteq> j \<longrightarrow> box_pages K b \<inter> box_pages K c = {})
     \<and> (\<forall>i. ar_slot s = Some i \<longrightarrow> ar_live s i \<noteq> None)"

lemma inv_shares:
  assumes "arcs_inv plat K s" and "ar_live s i = Some b" and "0 < n"
  shows "arcs_inv plat K (s\<lparr>ar_live := (ar_live s)(i \<mapsto> b\<lparr>sb_shares := n\<rparr>)\<rparr>)"
proof -
  have "held_by K ((ar_live s)(i \<mapsto> b\<lparr>sb_shares := n\<rparr>)) = held_by K (ar_live s)"
    using assms(2) by (rule held_by_same) simp
  with assms show ?thesis unfolding arcs_inv_def by (auto split: if_splits)
qed

lemma inv_release:
  assumes K: "kernel_ok K" and inv: "arcs_inv plat K s" and i: "ar_slot s = Some i \<Longrightarrow> \<exists>b. ar_live s i = Some b \<and> 1 < sb_shares b"
  shows "arcs_inv plat K (release_share plat K i s)"
proof (cases "ar_live s i")
  case None
  with inv show ?thesis by (simp add: release_share_def)
next
  case (Some b)
  show ?thesis
  proof (cases "sb_shares b \<le> 1")
    case False
    with Some inv_shares [OF inv Some, of "sb_shares b - 1"] show ?thesis by (simp add: release_share_def)
  next
    case True
    have lock: "plat = Not_Unix \<Longrightarrow> sb_lock b = None" using inv Some by (auto simp: arcs_inv_def)
    have own: "pinned K (sb_lock b) \<inter> pinned K (sb_lock c) = {}" if "ar_live s j = Some c" "j \<noteq> i" for j c
    proof -
      have "pinned K (sb_lock b) \<subseteq> box_pages K b" "pinned K (sb_lock c) \<subseteq> box_pages K c" "box_pages K b \<inter> box_pages K c = {}"
        using inv Some that unfolding arcs_inv_def by blast+
      then show ?thesis by blast
    qed
    let ?s = "s\<lparr>ar_live := (ar_live s)(i := None), ar_kernel := unpin plat K (sb_lock b) (ar_kernel s)\<rparr>"
    have "pk_resident K (ar_kernel ?s) = held_by K (ar_live s) - pinned K (sb_lock b)"
      using unpin_pages [of K plat "sb_lock b" "ar_kernel s", OF K lock] inv by (simp add: arcs_inv_def)
    also have "\<dots> = held_by K (ar_live ?s)"
      using held_by_gone [of "ar_live s" i b K, OF Some own] by simp
    finally have "pk_resident K (ar_kernel ?s) = held_by K (ar_live ?s)" .
    moreover have "ar_slot s \<noteq> Some i" using i Some True by auto
    ultimately have "arcs_inv plat K ?s" using inv unfolding arcs_inv_def by (auto split: if_splits)
    with Some True show ?thesis by (simp add: release_share_def)
  qed
qed

lemma inv_store:
  assumes K: "kernel_ok K" and inv: "arcs_inv plat K s" and apart: "box_apart K box s"
  shows "arcs_inv plat K (store_barrier plat K box s)"
proof -
  obtain k l where p: "pin plat K box (ar_kernel s) = (k, l)" by fastforce
  note pages = pin_pages [OF K p]
  let ?b = "\<lparr>sb_lock = l, sb_box = box, sb_shares = 1\<rparr>"
  let ?s = "s\<lparr>ar_kernel := k, ar_live := (ar_live s)(ar_next s \<mapsto> ?b), ar_slot := Some (ar_next s), ar_next := Suc (ar_next s)\<rparr>"
  have fresh: "ar_live s (ar_next s) = None" using inv unfolding arcs_inv_def by (metis less_irrefl not_Some_eq)
  have "pk_resident K k = held_by K (ar_live s) \<union> pinned K l" using pages(1) inv by (simp add: arcs_inv_def)
  also have "\<dots> = held_by K (ar_live ?s)" using held_by_new [of "ar_live s" "ar_next s" K ?b, OF fresh] by simp
  finally have "pk_resident K k = held_by K (ar_live ?s)" .
  moreover have "\<forall>i b. ar_live ?s i = Some b \<longrightarrow> i < ar_next ?s \<and> 0 < sb_shares b \<and> pinned K (sb_lock b) \<subseteq> box_pages K b
      \<and> (plat = Not_Unix \<longrightarrow> sb_lock b = None)"
    using inv pages(2,3) unfolding arcs_inv_def by (auto simp: less_Suc_eq split: if_splits)
  moreover have "\<forall>i j b c. ar_live ?s i = Some b \<longrightarrow> ar_live ?s j = Some c \<longrightarrow> i \<noteq> j \<longrightarrow> box_pages K b \<inter> box_pages K c = {}"
    using inv apart unfolding arcs_inv_def box_apart_def by (auto split: if_splits)
  ultimately have s: "arcs_inv plat K ?s" by (simp add: arcs_inv_def)
  show ?thesis
  proof (cases "ar_slot s")
    case None
    with s p show ?thesis by (simp add: store_barrier_def)
  next
    case (Some old)
    then have "old \<noteq> ar_next s" using inv fresh by (auto simp: arcs_inv_def)
    with inv_release [OF K s, of old] Some p show ?thesis by (simp add: store_barrier_def)
  qed
qed

lemma inv_step:
  assumes K: "kernel_ok K" and inv: "arcs_inv plat K s"
    and apart: "case e of Store box \<Rightarrow> box_apart K box s | Abandon box \<Rightarrow> box_apart K box s | _ \<Rightarrow> True"
  shows "arcs_inv plat K (arc_step plat K e s)"
proof (cases e)
  case (Store box)
  with inv_store [OF K inv] apart show ?thesis by simp
next
  case (Abandon box)
  obtain k l where p: "pin plat K box (ar_kernel s) = (k, l)" by fastforce
  note pages = pin_pages [OF K p]
  have "held_by K (ar_live s) \<inter> pinned K l = {}"
    using inv apart pages(2) Abandon unfolding arcs_inv_def box_apart_def held_by_def by fastforce
  then have "pk_resident K (unpin plat K l k) = held_by K (ar_live s)"
    using unpin_pages [of K plat l k, OF K pages(3)] pages(1) inv by (auto simp: arcs_inv_def)
  with inv Abandon p show ?thesis by (simp add: arcs_inv_def held_by_def)
next
  case Load_Share
  with inv inv_shares [OF inv] show ?thesis by (auto simp: load_barrier_def split: option.splits)
next
  case (End_Request i)
  with inv inv_release [OF K inv, of i] show ?thesis by (auto split: option.splits)
qed

lemma inv_run: "kernel_ok K \<Longrightarrow> arcs_inv plat K s \<Longrightarrow> apart plat K es s \<Longrightarrow> arcs_inv plat K (fold (arc_step plat K) es s)"
proof (induction es arbitrary: s)
  case (Cons e es)
  then show ?case using inv_step [OF Cons.prems(1,2), of e] by simp
qed simp

text \<open>
  C15. No lock is lost and none is left behind. Start from nothing locked, and let snapshots be stored,
  or built and given up, and requests load and end, in any order and number, on every platform, for
  every page size and whichever \<open>mlock\<close> calls are refused, with no new box sharing a page with one that
  is still alive. Then at every moment the locked pages are exactly those that the barriers still alive
  hold locked. The one in the slot is alive; so its key is locked for as long as it is served or in use,
  if its \<open>mlock\<close> succeeded, and once the requests that held older snapshots have ended, nothing but its
  pages is locked.
\<close>

theorem pins_follow_the_barrier:
  assumes "kernel_ok K" and "pk_resident K k = {}" and "apart plat K es (arcs_new k)"
  defines "s \<equiv> fold (arc_step plat K) es (arcs_new k)"
  shows "pk_resident K (ar_kernel s) = {p. \<exists>i b. ar_live s i = Some b \<and> p \<in> pinned K (sb_lock b)}
    \<and> (\<forall>i. ar_slot s = Some i \<longrightarrow> (\<exists>b. ar_live s i = Some b \<and> pinned K (sb_lock b) \<subseteq> pk_resident K (ar_kernel s)
         \<and> (dom (ar_live s) = {i} \<longrightarrow> pk_resident K (ar_kernel s) = pinned K (sb_lock b))))"
proof -
  have "arcs_inv plat K (arcs_new k)" using assms(2) by (simp add: arcs_inv_def arcs_new_def held_by_def)
  from inv_run [OF assms(1) this assms(3)] have inv: "arcs_inv plat K s" by (simp add: s_def)
  then have all: "pk_resident K (ar_kernel s) = held_by K (ar_live s)" by (simp add: arcs_inv_def)
  show ?thesis
  proof (intro conjI allI impI)
    show "pk_resident K (ar_kernel s) = {p. \<exists>i b. ar_live s i = Some b \<and> p \<in> pinned K (sb_lock b)}"
      using all by (simp add: held_by_def)
  next
    fix i
    assume "ar_slot s = Some i"
    then obtain b where b: "ar_live s i = Some b" using inv by (auto simp: arcs_inv_def)
    then have "pinned K (sb_lock b) \<subseteq> pk_resident K (ar_kernel s)" using all by (auto simp: held_by_def)
    moreover have "pk_resident K (ar_kernel s) = pinned K (sb_lock b)" if "dom (ar_live s) = {i}"
    proof -
      have "j = i" if "ar_live s j = Some c" for j c using that \<open>dom (ar_live s) = {i}\<close> by (metis domI singletonD)
      with all b show ?thesis by (auto simp: held_by_def)
    qed
    ultimately show "\<exists>b. ar_live s i = Some b \<and> pinned K (sb_lock b) \<subseteq> pk_resident K (ar_kernel s)
         \<and> (dom (ar_live s) = {i} \<longrightarrow> pk_resident K (ar_kernel s) = pinned K (sb_lock b))"
      using b by blast
  qed
qed

section \<open>Examples\<close>

definition page_set :: "nat set page_kernel" where
  "page_set = \<lparr>pk_page = 4096, pk_mlock = (\<lambda>a n k. (k \<union> {p. \<exists>x. a \<le> x \<and> x < a + n \<and> p = x div 4096}, 0)),
     pk_munlock = (\<lambda>a n k. k - {p. \<exists>x. a \<le> x \<and> x < a + n \<and> p = x div 4096}), pk_resident = id\<rparr>"

lemma page_set_ok: "kernel_ok page_set"
  by (simp add: kernel_ok_def page_set_def pages_def)

lemma page_set_pages: "0 < n \<Longrightarrow> a div 4096 = (a + n - 1) div 4096 \<Longrightarrow> pages page_set a n = {a div 4096}"
proof -
  assume n: "0 < n" and same: "a div 4096 = (a + n - 1) div 4096"
  have "x div 4096 = a div 4096" if "a \<le> x" "x < a + n" for x
    using div_le_mono [of a x 4096] div_le_mono [of x "a + n - 1" 4096] that same by simp
  then have "pages page_set a n \<subseteq> {a div 4096}" by (auto simp: pages_def page_set_def)
  moreover have "a div 4096 \<in> pages page_set a n" unfolding pages_def page_set_def using n by fastforce
  ultimately show ?thesis by blast
qed

lemma page_set_calls:
  "pk_mlock page_set a n k = (k \<union> pages page_set a n, 0)" "pk_munlock page_set a n k = k - pages page_set a n"
  "pk_resident page_set k = k"
  by (simp_all add: page_set_def pages_def)

lemma sample_pages: "pages page_set 4096 600 = {1}" "pages page_set 8192 600 = {2}" "pages page_set 5000 600 = {1}"
  by (subst page_set_pages; simp)+

lemmas arc_eval = store_barrier_def load_barrier_def release_share_def pin_def unpin_def lock_pages_def unlock_pages_def
  arcs_new_def page_set_calls sample_pages

text \<open>
  A request loads the first snapshot and is still running when the second is stored: both keys are
  locked. When it ends, only the second is.
\<close>

theorem pins_follow_the_barrier_witness:
  "pk_resident page_set (ar_kernel (fold (arc_step Linux page_set) [Store (4096, 600), Load_Share, Store (8192, 600)] (arcs_new {}))) = {1, 2}
   \<and> pk_resident page_set (ar_kernel (fold (arc_step Linux page_set) [Store (4096, 600), Load_Share, Store (8192, 600), End_Request 0] (arcs_new {}))) = {2}"
proof -
  let ?es = "[Store (4096, 600), Load_Share, Store (8192, 600)]"
  let ?s = "fold (arc_step Linux page_set) ?es (arcs_new {})" and ?t = "fold (arc_step Linux page_set) (?es @ [End_Request 0]) (arcs_new {})"
  have apart: "apart Linux page_set ?es (arcs_new {})" "apart Linux page_set (?es @ [End_Request 0]) (arcs_new {})"
    by (auto simp: arc_eval box_apart_def split: if_splits)
  have start: "pk_resident page_set {} = {}" by (simp add: page_set_calls)
  have live: "ar_live ?s = [0 \<mapsto> \<lparr>sb_lock = Some \<lparr>addr = 4096, len = 600\<rparr>, sb_box = (4096, 600), sb_shares = 1\<rparr>,
      1 \<mapsto> \<lparr>sb_lock = Some \<lparr>addr = 8192, len = 600\<rparr>, sb_box = (8192, 600), sb_shares = 1\<rparr>]"
    "ar_live ?t = [1 \<mapsto> \<lparr>sb_lock = Some \<lparr>addr = 8192, len = 600\<rparr>, sb_box = (8192, 600), sb_shares = 1\<rparr>]"
    by (auto simp: arc_eval)
  from pins_follow_the_barrier [OF page_set_ok start apart(1), THEN conjunct1]
    pins_follow_the_barrier [OF page_set_ok start apart(2), THEN conjunct1]
  show ?thesis unfolding live by (auto simp: pinned_def sample_pages split: if_splits)
qed

text \<open>
  The proviso is needed. Two boxes in one page: dropping the old barrier at the swap unlocks the page of
  the new key. And a request that outlives two swaps does the same to a barrier two generations later.
\<close>

lemma same_page_unpinned:
  "pk_resident page_set (ar_kernel (fold (arc_step Linux page_set) [Store (4096, 600), Store (5000, 600)] (arcs_new {}))) = {}"
  by (simp add: arc_eval)

lemma late_drop_unpins:
  "pk_resident page_set (ar_kernel (fold (arc_step Linux page_set)
     [Store (4096, 600), Load_Share, Store (8192, 600), Store (5000, 600), End_Request 0] (arcs_new {}))) = {}"
  by (auto simp: arc_eval)

end
