(* ===== verification/Cleartext_Scan.thy ===== *)
theory Cleartext_Scan
  imports Snapshot
begin

text \<open>
  \<open>examples/cleartext_scan.rs\<close>: the program that looks for copies of a secret in its own memory. It
  seals a fixture, records where the secret already stands, builds a snapshot from the sealed file,
  and fails when a copy stands at an address that had none before. What the kernel shows of the
  process (the list of its mappings, the bytes behind an address) is a parameter of every scan.

  Shown here: the chunked sweep with its overlap finds every occurrence in a readable range exactly
  once, in order, wherever the chunk boundaries fall, and always ends; the check fails exactly when
  there is a copy at a new address, and the rest of the program does not fail.
\<close>

section \<open>The needle and the scanner\<close>

definition NEEDLE :: string where
  "NEEDLE = ''duck-fixture-value-9f3a''"

definition CHUNK :: nat where
  "CHUNK = 2 ^ 22"

definition MAX_COPIES :: nat where
  "MAX_COPIES = 4096"

text \<open>
  The chunk is represented by its length: its bytes are looked at only right after a read that
  filled them. In the program the chunk itself lies in a mapping that is swept, so that a copy just
  read may be found there again; whether it is, is in the bytes the kernel shows. \<open>sc_room\<close> is the
  capacity of \<open>found\<close>, at least what was asked for.
\<close>

record scanner =
  sc_maps :: string
  sc_chunk :: nat
  sc_baseline :: "nat list"
  sc_found :: "nat list"
  sc_room :: nat

definition scanner_new :: "nat \<Rightarrow> scanner" where
  "scanner_new room = \<lparr>sc_maps = [], sc_chunk = CHUNK, sc_baseline = [], sc_found = [], sc_room = room\<rparr>"

text \<open>
  The process as a scan sees it: \<open>/proc/self/maps\<close>, and seeking in and reading exactly so many bytes
  of \<open>/proc/self/mem\<close>; \<open>None\<close> where the file cannot be opened, or the seek or the read fails.
\<close>

type_synonym memory = "nat \<Rightarrow> nat \<Rightarrow> bytes option"

record process =
  pr_maps :: "string option"
  pr_mem :: "memory option"

section \<open>The mappings\<close>

definition radix_digit :: "char \<Rightarrow> nat option" where
  "radix_digit c =
     (let b = ord_of c in
      if 48 \<le> b \<and> b \<le> 57 then Some (b - 48)
      else if 97 \<le> b \<and> b \<le> 102 then Some (b - 87)
      else if 65 \<le> b \<and> b \<le> 70 then Some (b - 55)
      else None)"

fun radix_digits :: "nat \<Rightarrow> string \<Rightarrow> nat option" where
  "radix_digits acc [] = Some acc"
| "radix_digits acc (c # cs) =
     (case radix_digit c of
        None \<Rightarrow> None
      | Some d \<Rightarrow> (if acc * 16 + d \<le> u64_max then radix_digits (acc * 16 + d) cs else None))"

text \<open>\<open>usize::from_str_radix(field, 16)\<close>; \<open>None\<close>: the caller panics.\<close>

definition hex_address :: "string \<Rightarrow> nat option" where
  "hex_address field =
     (case field of
        [] \<Rightarrow> None
      | c # cs \<Rightarrow> (if c = CHR ''+'' then (if cs = [] then None else radix_digits 0 cs) else radix_digits 0 field))"

text \<open>The outer \<open>None\<close> is the panic of \<open>hex_address\<close>, the inner one a mapping not worth reading.\<close>

definition own_anonymous_range :: "string \<Rightarrow> (nat \<times> nat) option option" where
  "own_anonymous_range line =
     (case split_whitespace line of
        addresses # perms # rest \<Rightarrow>
          (let pathname = (if length rest > 3 then rest ! 3 else []) in
           if \<not> starts_with ''r'' perms then Some None
           else if pathname \<noteq> [] \<and> pathname \<noteq> ''[heap]'' then Some None
           else (case split_once (CHR ''-'') addresses of
                   None \<Rightarrow> Some None
                 | Some (lo, hi) \<Rightarrow>
                     Option.bind (hex_address lo) (\<lambda>lo. Option.bind (hex_address hi) (\<lambda>hi. Some (Some (lo, hi))))))
      | _ \<Rightarrow> Some None)"

section \<open>The sweep\<close>

text \<open>\<open>slice::windows\<close>.\<close>

definition windows :: "nat \<Rightarrow> 'a list \<Rightarrow> 'a list list" where
  "windows n xs = map (\<lambda>i. take n (drop i xs)) [0..<length xs + 1 - n]"

text \<open>The loop of \<open>record\<close>; \<open>None\<close>: the assertion on the room fails.\<close>

fun record_hits :: "nat \<Rightarrow> nat \<Rightarrow> (nat \<times> bytes) list \<Rightarrow> nat list \<Rightarrow> nat list option" where
  "record_hits room base [] found = Some found"
| "record_hits room base ((offset, window) # ws) found =
     (if window \<noteq> as_bytes NEEDLE then record_hits room base ws found
      else if length found < room then record_hits room base ws (found @ [base + offset])
      else None)"

text \<open>
  The loop of \<open>read_range\<close>. A chunk shorter than the overlap would underflow, one of its length
  would be read for ever: the latter is the \<open>None\<close> of the fixed point.
\<close>

partial_function (option) read_range ::
    "nat \<Rightarrow> nat \<Rightarrow> memory \<Rightarrow> nat \<Rightarrow> nat \<Rightarrow> nat list \<Rightarrow> nat list option" where
  "read_range room chunk mem at hi found =
     (if at < hi
      then (let want = min (hi - at) chunk in
            case mem at want of
              None \<Rightarrow> Some found
            | Some bytes \<Rightarrow>
                Option.bind (record_hits room at (List.enumerate 0 (windows (length NEEDLE) bytes)) found) (\<lambda>found.
                if want < chunk then Some found
                else if chunk < length NEEDLE - 1 then None
                else read_range room chunk mem (at + (chunk - (length NEEDLE - 1))) hi found))
      else Some found)"

fun sweep_lines :: "nat \<Rightarrow> nat \<Rightarrow> memory \<Rightarrow> string list \<Rightarrow> nat list \<Rightarrow> nat list option" where
  "sweep_lines room chunk mem [] found = Some found"
| "sweep_lines room chunk mem (l # ls) found =
     (case own_anonymous_range l of
        None \<Rightarrow> None
      | Some None \<Rightarrow> sweep_lines room chunk mem ls found
      | Some (Some (lo, hi)) \<Rightarrow>
          Option.bind (read_range room chunk mem lo hi found) (sweep_lines room chunk mem ls))"

definition scan :: "process \<Rightarrow> scanner \<Rightarrow> scanner option" where
  "scan p sc =
     Option.bind (pr_maps p) (\<lambda>maps.
     Option.bind (pr_mem p) (\<lambda>mem.
     map_option (\<lambda>found. sc\<lparr>sc_maps := maps, sc_found := found\<rparr>)
       (sweep_lines (sc_room sc) (sc_chunk sc) mem (text_lines maps) [])))"

definition record_baseline :: "process \<Rightarrow> scanner \<Rightarrow> scanner option" where
  "record_baseline p sc = map_option (\<lambda>sc. sc\<lparr>sc_baseline := sc_found sc\<rparr>) (scan p sc)"

definition new_copies :: "scanner \<Rightarrow> nat" where
  "new_copies sc = length (filter (\<lambda>at. at \<notin> set (sc_baseline sc)) (sc_found sc))"

section \<open>The program\<close>

definition padded_secret :: string where
  "padded_secret = replicate 512 (CHR ''a'') @ NEEDLE @ replicate 512 (CHR ''b'')"

definition fixture_text :: string where
  "fixture_text = ''{\"version\":1,\"secrets\":{\"app/db\":{\"password\":\"'' @ padded_secret @ ''\"}}}''"

definition show_signed :: "int \<Rightarrow> string" where
  "show_signed d = (if d < 0 then ''-'' else ''+'') @ show_nat (nat \<bar>d\<bar>)"

definition scan_report :: "string \<Rightarrow> scanner \<Rightarrow> string" where
  "scan_report what sc =
     (let total = length (sc_found sc);
          delta = int total - int (length (sc_baseline sc))
      in what @ replicate (38 - length what) (CHR '' '') @ '' ''
         @ replicate (2 - length (show_nat total)) (CHR '' '') @ show_nat total
         @ '' copy(ies)  ('' @ show_signed delta @ '' vs baseline, '' @ show_nat (new_copies sc) @ '' at a new address)'')"

text \<open>
  The libraries and what the machine gives: \<open>serde_json\<close> both ways, the nonce of the file, the
  resolver's own libraries, what building the snapshot draws, the thread's decryption buffer at the
  start, and the process at each of the four scans.
\<close>

record 'j scan_world =
  sw_from_str :: "string \<Rightarrow> 'j contents option"
  sw_to_vec :: "'j contents \<Rightarrow> bytes option"
  sw_nonce :: "bytes option"
  sw_runtime :: runtime
  sw_draw :: draw
  sw_room :: nat
  sw_baseline :: process
  sw_built :: process
  sw_serving :: process
  sw_dropped :: process

text \<open>A \<open>Result\<close> or an option that the program unwraps.\<close>

definition expect :: "'e + 'a \<Rightarrow> 'a option" where
  "expect r = (case r of Inl _ \<Rightarrow> None | Inr x \<Rightarrow> Some x)"

definition seal_fixture :: "'j scan_world \<Rightarrow> seal_key \<Rightarrow> bytes option" where
  "seal_fixture w key =
     Option.bind (sw_from_str w fixture_text) (\<lambda>contents.
     expect (seal (rt_aead (sw_runtime w)) (sw_to_vec w) (sw_nonce w) contents key))"

definition build_snapshot :: "'j scan_world \<Rightarrow> bytes \<Rightarrow> seal_key \<Rightarrow> snapshot option" where
  "build_snapshot w sealed key =
     (let rt = sw_runtime w in
      Option.bind (expect (open_file (rt_aead rt) (rt_from_slice rt) sealed key None)) (\<lambda>opened.
      Option.bind (expect (opened_view (rt_from_slice rt) opened)) (\<lambda>view.
      expect (snapshot_build rt (sw_draw w) view None))))"

text \<open>What was printed, and whether the assertion held.\<close>

definition assert_no_new_copies :: "string \<Rightarrow> scanner \<Rightarrow> string list \<times> bool" where
  "assert_no_new_copies what sc = ([scan_report what sc], new_copies sc = 0)"

text \<open>The lines printed, and the thread's decryption buffer afterwards; \<open>None\<close>: panic.\<close>

definition serve_one_response :: "'j scan_world \<Rightarrow> snapshot \<Rightarrow> scanner \<Rightarrow> string list \<times> bytes option" where
  "serve_one_response w sn sc =
     (case with_secret (rt_aead (sw_runtime w)) sn ''app/db'' id [] of
        Some (scratch, Inr body) \<Rightarrow>
          (if \<not> contains_str NEEDLE body then ([], None)
           else (case scan (sw_serving w) sc of
                   None \<Rightarrow> ([], None)
                 | Some sc \<Rightarrow>
                     (let alive = scan_report ''while a response body is alive'' sc in
                      case scan (sw_dropped w) sc of
                        None \<Rightarrow> ([alive], None)
                      | Some sc \<Rightarrow> ([alive, scan_report ''after that body is dropped'' sc], Some scratch))))
      | _ \<Rightarrow> ([], None))"

text \<open>The lines printed, and whether the program ended without a panic.\<close>

definition scan_main :: "'j scan_world \<Rightarrow> string list \<times> bool" where
  "scan_main w =
     (let key = SealKey (replicate 32 11) in
      case Option.bind (seal_fixture w key) (\<lambda>sealed.
           map_option (Pair sealed) (record_baseline (sw_baseline w) (scanner_new (sw_room w)))) of
        None \<Rightarrow> ([], False)
      | Some (sealed, sc) \<Rightarrow>
          (let shown = [scan_report ''baseline, before the file is opened'' sc] in
           case Option.bind (build_snapshot w sealed key) (\<lambda>sn. map_option (Pair sn) (scan (sw_built w) sc)) of
             None \<Rightarrow> (shown, False)
           | Some (sn, sc) \<Rightarrow>
               (case assert_no_new_copies ''after building a snapshot'' sc of
                  (lines, False) \<Rightarrow> (shown @ lines, False)
                | (lines, True) \<Rightarrow>
                    (case serve_one_response w sn sc of
                       (served, None) \<Rightarrow> (shown @ lines @ served, False)
                     | (served, Some scratch) \<Rightarrow>
                         (shown @ lines @ served
                          @ [[CHR 0x0A] @ ''this thread'' @ [CHR 0x27] @ ''s decryption buffer wiped: ''
                             @ (if scratch_is_wiped False scratch then ''true'' else ''false'')], True)))))"

section \<open>What a sweep finds\<close>

text \<open>A byte of the address space, where it is mapped and readable, and a whole read of it.\<close>

definition mem_reads :: "memory \<Rightarrow> (nat \<Rightarrow> u8 option) \<Rightarrow> bool" where
  "mem_reads mem space \<longleftrightarrow> (\<forall>at n. mem at n = those (map space [at..<at + n]))"

definition needle_at :: "(nat \<Rightarrow> u8 option) \<Rightarrow> nat \<Rightarrow> bool" where
  "needle_at space a \<longleftrightarrow> map space [a..<a + length NEEDLE] = map Some (as_bytes NEEDLE)"

definition copies_in :: "(nat \<Rightarrow> u8 option) \<Rightarrow> nat \<Rightarrow> nat \<Rightarrow> nat list" where
  "copies_in space lo hi = filter (needle_at space) [lo..<hi + 1 - length NEEDLE]"

definition readable :: "(nat \<Rightarrow> u8 option) \<Rightarrow> nat \<times> nat \<Rightarrow> bool" where
  "readable space r \<longleftrightarrow> (\<forall>a. fst r \<le> a \<and> a < snd r \<longrightarrow> space a \<noteq> None)"

text \<open>Appending to \<open>found\<close> as long as there is room.\<close>

definition capped :: "nat \<Rightarrow> nat list \<Rightarrow> nat list \<Rightarrow> nat list option" where
  "capped room found hits = (if length found + length hits \<le> room then Some (found @ hits) else None)"

lemma needle_length [simp]: "length NEEDLE = 23"
  by (simp add: NEEDLE_def)

lemma capped_append: "Option.bind (capped room found hits) (\<lambda>f. capped room f hits') = capped room found (hits @ hits')"
  by (auto simp: capped_def)

lemma capped_Nil [simp]: "length found \<le> room \<Longrightarrow> capped room found [] = Some found"
  by (simp add: capped_def)

lemma those_eq_Some: "those xs = Some ys \<longleftrightarrow> xs = map Some ys"
  by (induction xs arbitrary: ys) (auto split: option.splits simp: Cons_eq_map_conv)

lemma those_eq_None: "those xs = None \<longleftrightarrow> None \<in> set xs"
  by (induction xs) (auto split: option.splits)

lemma record_hits_capped:
  "length found \<le> room \<Longrightarrow>
     record_hits room base ws found = capped room found (map (\<lambda>(i, _). base + i) (filter (\<lambda>(_, w). w = as_bytes NEEDLE) ws))"
  by (induction room base ws found rule: record_hits.induct) (auto simp: capped_def)

text \<open>The windows of a chunk read at \<open>at\<close> are the addresses of its needles.\<close>

lemma window_hits:
  assumes "map space [at..<at + n] = map Some bytes"
  shows "map (\<lambda>(i, _). at + i) (filter (\<lambda>(_, w). w = as_bytes NEEDLE) (List.enumerate 0 (windows (length NEEDLE) bytes)))
    = copies_in space at (at + n)"
proof -
  let ?L = "length NEEDLE"
  have n: "length bytes = n" using arg_cong [OF assms, of length] by simp
  have enum: "List.enumerate 0 (windows ?L bytes) = map (\<lambda>i. (i, take ?L (drop i bytes))) [0..<n + 1 - ?L]"
    by (rule nth_equalityI) (simp_all add: windows_def n nth_enumerate_eq)
  have here: "take ?L (drop i bytes) = as_bytes NEEDLE \<longleftrightarrow> needle_at space (at + i)" if "i < n + 1 - ?L" for i
  proof -
    have "map Some (take ?L (drop i bytes)) = take ?L (drop i (map space [at..<at + n]))"
      unfolding assms by (simp add: take_map drop_map)
    also have "\<dots> = map space [at + i..<at + i + ?L]"
      using that by (simp add: take_map drop_map take_upt)
    finally have "map space [at + i..<at + i + ?L] = map Some (take ?L (drop i bytes))" by simp
    then show ?thesis unfolding needle_at_def by (metis inj_Some map_injective)
  qed
  have "[at..<at + n + 1 - ?L] = map (\<lambda>i. at + i) [0..<n + 1 - ?L]"
    by (cases "?L \<le> n + 1") (auto simp: map_add_upt add.commute intro!: nth_equalityI)
  moreover have "filter (\<lambda>i. take ?L (drop i bytes) = as_bytes NEEDLE) [0..<n + 1 - ?L]
      = filter (\<lambda>i. needle_at space (at + i)) [0..<n + 1 - ?L]"
    by (rule filter_cong) (use here in auto)
  ultimately show ?thesis
    unfolding enum copies_in_def by (simp add: filter_map comp_def case_prod_beta)
qed

lemma chunk_hits:
  assumes "mem_reads mem space" and "mem at n = Some bytes" and "length found \<le> room"
  shows "record_hits room at (List.enumerate 0 (windows (length NEEDLE) bytes)) found = capped room found (copies_in space at (at + n))"
proof -
  have "map space [at..<at + n] = map Some bytes" using assms(1,2) by (simp add: mem_reads_def those_eq_Some)
  from window_hits [OF this] show ?thesis using record_hits_capped [OF assms(3)] by simp
qed

lemma copies_in_split:
  assumes "lo + 22 \<le> mid" and "mid \<le> hi"
  shows "copies_in space lo hi = copies_in space lo mid @ copies_in space (mid - 22) hi"
proof -
  have "[lo..<hi - 22] = [lo..<mid - 22] @ [mid - 22..<hi - 22]"
    using assms upt_add_eq_append [of lo "mid - 22" "hi - mid"] by simp
  then show ?thesis by (simp add: copies_in_def)
qed

text \<open>
  A range is swept up to some end, the end of the range when all of it can be read. The loop ends
  whatever happens.
\<close>

lemma read_range_capped:
  assumes mem: "mem_reads mem space" and chunk: "length NEEDLE \<le> chunk"
  shows "length found \<le> room \<Longrightarrow> \<exists>stop \<le> max at hi. (readable space (at, hi) \<longrightarrow> stop = max at hi)
    \<and> read_range room chunk mem at hi found = capped room found (copies_in space at stop)"
proof (induction "hi - at" arbitrary: at found rule: less_induct)
  case less
  have none: "copies_in space at e = []" if "e \<le> at + 22" for e using that by (simp add: copies_in_def)
  show ?case
  proof (cases "at < hi")
    case False
    then show ?thesis
      using less.prems by (intro exI [of _ at]) (auto simp: read_range.simps [of _ _ _ at] none)
  next
    case True
    let ?want = "min (hi - at) chunk"
    show ?thesis
    proof (cases "mem at ?want")
      case None
      then obtain a where "at \<le> a" "a < hi" "space a = None"
        using mem by (auto simp: mem_reads_def those_eq_None)
      then have "\<not> readable space (at, hi)" by (auto simp: readable_def)
      with None True less.prems show ?thesis
        by (intro exI [of _ at]) (auto simp: read_range.simps [of _ _ _ at] Let_def none)
    next
      case (Some bytes)
      note hits = chunk_hits [OF mem Some less.prems]
      show ?thesis
      proof (cases "?want < chunk")
        case short: True
        then have "at + ?want = hi" using True by simp
        with Some True hits short show ?thesis
          by (intro exI [of _ hi]) (auto simp: read_range.simps [of _ _ _ at] Let_def split: bind_splits)
      next
        case False
        let ?at = "at + (chunk - 22)"
        have mid: "at + chunk \<le> hi" "?want = chunk" "at + chunk - 22 = ?at" "at < ?at" "?at \<le> hi"
          using False True chunk by auto
        have split: "copies_in space at e = copies_in space at (at + chunk) @ copies_in space ?at e" if "at + chunk \<le> e" for e
          using copies_in_split [OF _ that, of at space] chunk unfolding mid(3) needle_length by (rule meta_mp) simp
        have eq: "read_range room chunk mem at hi found =
            Option.bind (capped room found (copies_in space at (at + chunk))) (read_range room chunk mem ?at hi)"
        proof -
          have "mem at chunk = Some bytes" using Some unfolding mid(2) .
          moreover note hits [unfolded mid(2)]
          ultimately show ?thesis
            using True chunk by (subst read_range.simps) (simp only: Let_def mid(2) if_True option.case needle_length less_irrefl if_False, simp)
        qed
        show ?thesis
        proof (cases "capped room found (copies_in space at (at + chunk))")
          case None
          then have "capped room found (copies_in space at hi) = None"
            using split [OF mid(1)] by (auto simp: capped_def split: if_splits)
          with None have "read_range room chunk mem at hi found = capped room found (copies_in space at hi)"
            unfolding eq by (simp only: bind.simps)
          with True show ?thesis by (intro exI [of _ hi]) simp
        next
          case (Some found')
          then have "length found' \<le> room" by (auto simp: capped_def split: if_splits)
          moreover have "hi - ?at < hi - at" "max ?at hi = hi" using mid(4,5) by linarith+
          ultimately obtain e where e: "e \<le> hi" "readable space (?at, hi) \<longrightarrow> e = hi"
            "read_range room chunk mem ?at hi found' = capped room found' (copies_in space ?at e)"
            using less.hyps [of ?at found'] by metis
          let ?stop = "max (at + chunk) e"
          have same: "copies_in space ?at e = copies_in space ?at ?stop"
            using chunk by (cases "e \<le> at + chunk") (auto simp: copies_in_def)
          have "read_range room chunk mem at hi found =
              Option.bind (capped room found (copies_in space at (at + chunk))) (\<lambda>f. capped room f (copies_in space ?at ?stop))"
            unfolding eq Some bind.simps e(3) same ..
          then have "read_range room chunk mem at hi found = capped room found (copies_in space at ?stop)"
            unfolding capped_append split [OF max.cobounded1] .
          moreover have "readable space (at, hi) \<longrightarrow> readable space (?at, hi)"
            by (auto simp: readable_def)
          ultimately show ?thesis using e(1,2) mid(1) True by (intro exI [of _ ?stop]) auto
        qed
      qed
    qed
  qed
qed

section \<open>What a scan finds\<close>

fun own_ranges :: "string list \<Rightarrow> (nat \<times> nat) list option" where
  "own_ranges [] = Some []"
| "own_ranges (l # ls) =
     Option.bind (own_anonymous_range l) (\<lambda>r.
     map_option (\<lambda>rs. case r of None \<Rightarrow> rs | Some r \<Rightarrow> r # rs) (own_ranges ls))"

definition copies :: "(nat \<Rightarrow> u8 option) \<Rightarrow> (nat \<times> nat) list \<Rightarrow> nat list" where
  "copies space rs = concat (map (\<lambda>(lo, hi). copies_in space lo hi) rs)"

text \<open>What the kernel shows of a process: the bytes behind its addresses, and its own mappings.\<close>

definition shows_process :: "process \<Rightarrow> (nat \<Rightarrow> u8 option) \<Rightarrow> (nat \<times> nat) list \<Rightarrow> bool" where
  "shows_process p space rs \<longleftrightarrow>
     (\<exists>maps mem. pr_maps p = Some maps \<and> pr_mem p = Some mem \<and> mem_reads mem space
        \<and> own_ranges (text_lines maps) = Some rs \<and> list_all (readable space) rs)"

lemma read_range_exact:
  assumes "mem_reads mem space" and "length NEEDLE \<le> chunk" and "length found \<le> room" and "readable space (lo, hi)"
  shows "read_range room chunk mem lo hi found = capped room found (copies_in space lo hi)"
proof -
  have "copies_in space lo (max lo hi) = copies_in space lo hi" by (cases "lo \<le> hi") (auto simp: copies_in_def)
  with read_range_capped [OF assms(1-3), of lo hi] assms(4) show ?thesis by auto
qed

lemma sweep_lines_exact:
  assumes mem: "mem_reads mem space" and chunk: "length NEEDLE \<le> chunk"
  shows "own_ranges ls = Some rs \<Longrightarrow> list_all (readable space) rs \<Longrightarrow> length found \<le> room \<Longrightarrow>
    sweep_lines room chunk mem ls found = capped room found (copies space rs)"
proof (induction ls arbitrary: rs found)
  case Nil
  then show ?case by (simp add: copies_def)
next
  case (Cons l ls)
  then obtain r rs' where r: "own_anonymous_range l = Some r" "own_ranges ls = Some rs'"
    "rs = (case r of None \<Rightarrow> rs' | Some r \<Rightarrow> r # rs')" by (auto simp: bind_eq_Some_conv)
  show ?case
  proof (cases r)
    case None
    with r Cons show ?thesis by simp
  next
    case (Some x)
    obtain lo hi where x: "x = (lo, hi)" by fastforce
    have ok: "readable space (lo, hi)" "list_all (readable space) rs'" using Cons.prems(2) r(3) Some x by auto
    have rest: "sweep_lines room chunk mem ls f = capped room f (copies space rs')"
      if "capped room found (copies_in space lo hi) = Some f" for f
      using that Cons.IH [OF r(2) ok(2)] by (auto simp: capped_def split: if_splits)
    have "sweep_lines room chunk mem (l # ls) found =
        Option.bind (capped room found (copies_in space lo hi)) (\<lambda>f. capped room f (copies space rs'))"
      using r(1) Some x read_range_exact [OF mem chunk Cons.prems(3) ok(1)] rest
      by (cases "capped room found (copies_in space lo hi)") simp_all
    then show ?thesis unfolding capped_append using r(3) Some x by (simp add: copies_def)
  qed
qed

lemma scan_copies:
  assumes "shows_process p space rs" and "length NEEDLE \<le> sc_chunk sc"
  shows "map_option sc_found (scan p sc) = (if length (copies space rs) \<le> sc_room sc then Some (copies space rs) else None)
    \<and> (\<forall>sc'. scan p sc = Some sc' \<longrightarrow> sc_baseline sc' = sc_baseline sc \<and> sc_chunk sc' = sc_chunk sc \<and> sc_room sc' = sc_room sc)"
proof -
  obtain maps mem where p: "pr_maps p = Some maps" "pr_mem p = Some mem" "mem_reads mem space"
    "own_ranges (text_lines maps) = Some rs" "list_all (readable space) rs"
    using assms(1) by (auto simp: shows_process_def)
  from sweep_lines_exact [OF p(3) assms(2) p(4,5), of "[]" "sc_room sc"] p(1,2) show ?thesis
    by (auto simp: scan_def capped_def)
qed

lemma scan_found:
  assumes "shows_process p space rs" and "length NEEDLE \<le> sc_chunk sc" and "length (copies space rs) \<le> sc_room sc"
  obtains sc' where "scan p sc = Some sc'" "sc_found sc' = copies space rs" "sc_baseline sc' = sc_baseline sc"
    "sc_chunk sc' = sc_chunk sc" "sc_room sc' = sc_room sc"
  using scan_copies [OF assms(1,2)] assms(3) by auto

lemma copies_iff:
  "a \<in> set (copies space rs) \<longleftrightarrow> needle_at space a \<and> (\<exists>(lo, hi) \<in> set rs. lo \<le> a \<and> a + length NEEDLE \<le> hi)"
proof -
  have "a < hi + 1 - length NEEDLE \<longleftrightarrow> a + length NEEDLE \<le> hi" for hi by auto
  then show ?thesis by (force simp: copies_def copies_in_def case_prod_beta)
qed

text \<open>
  C38. The sweep misses nothing and invents nothing. When the kernel lets the process read its own
  mappings, a scan with any chunk at least as long as the needle ends, and records exactly the
  addresses at which the needle stands whole inside one of the mappings, each mapping's in ascending
  order and once, wherever the boundaries between chunks fall; it panics only when there are more of
  them than the room reserved.
\<close>

theorem scan_exact:
  assumes "shows_process p space rs" and "length NEEDLE \<le> sc_chunk sc" and "length (copies space rs) \<le> sc_room sc"
  shows "\<exists>sc'. scan p sc = Some sc'
    \<and> (\<forall>a. a \<in> set (sc_found sc') \<longleftrightarrow> needle_at space a \<and> (\<exists>(lo, hi) \<in> set rs. lo \<le> a \<and> a + length NEEDLE \<le> hi))
    \<and> sc_found sc' = concat (map (\<lambda>(lo, hi). filter (needle_at space) [lo..<hi + 1 - length NEEDLE]) rs)
    \<and> sc_baseline sc' = sc_baseline sc"
proof -
  obtain sc' where "scan p sc = Some sc'" "sc_found sc' = copies space rs" "sc_baseline sc' = sc_baseline sc"
    using assms by (rule scan_found)
  with copies_iff [of _ space rs] show ?thesis by (auto simp: copies_def copies_in_def)
qed

definition sample_space :: "nat \<Rightarrow> u8 option" where
  "sample_space a = (if 20 \<le> a \<and> a < 43 then Some (as_bytes NEEDLE ! (a - 20)) else if a = 43 then Some 0 else None)"

definition sample_maps :: string where
  "sample_maps = ''14-2c rw-p 0 0:0 0'' @ [CHR 0x0A] @ ''50-60 r--p 0 8:1 7 /bin/x''"

definition sample_process :: process where
  "sample_process = \<lparr>pr_maps = Some sample_maps, pr_mem = Some (\<lambda>at n. those (map sample_space [at..<at + n]))\<rparr>"

lemma strip_any_solid: "solid c \<Longrightarrow> strip_any white_space (c # t) = None"
  by (rule strip_any_none) (auto simp: str_iffs Cons_eq_append_conv dest!: white_space_ends)

lemma white_pieces_solid: "solid c \<Longrightarrow> white_pieces piece (c # t) = white_pieces (piece @ [c]) t"
  by (subst white_pieces.simps) (simp add: strip_any_solid)

lemma white_pieces_space: "white_pieces piece (CHR '' '' # t) = (if piece = [] then white_pieces [] t else piece # white_pieces [] t)"
proof -
  have "'' '' \<in> set white_space" by code_simp
  then have "strip_any white_space ('' '' @ t) = Some t"
    by (rule strip_any_prefix_free) (use white_space_prefix_free(1) \<open>'' '' \<in> set white_space\<close> in auto)
  then show ?thesis by (subst white_pieces.simps) simp
qed

lemma white_pieces_Nil: "white_pieces piece [] = (if piece = [] then [] else [piece])"
proof -
  have "strip_any ws [] = None" for ws by (induction ws) (auto simp: starts_with_def)
  then show ?thesis by (subst white_pieces.simps) simp
qed

lemmas white_pieces_eval = split_whitespace_def white_pieces_solid white_pieces_space white_pieces_Nil solid_def ord_of_def

lemma sample_lines: "text_lines sample_maps = [''14-2c rw-p 0 0:0 0'', ''50-60 r--p 0 8:1 7 /bin/x'']"
  by code_simp

lemma sample_ranges:
  "own_anonymous_range ''14-2c rw-p 0 0:0 0'' = Some (Some (20, 44))"
  "own_anonymous_range ''50-60 r--p 0 8:1 7 /bin/x'' = Some None"
  by (simp_all add: own_anonymous_range_def white_pieces_eval starts_with_def hex_address_def radix_digit_def u64_max_def)

lemma sample_shown: "shows_process sample_process sample_space [(20, 44)]"
  by (auto simp: shows_process_def sample_process_def mem_reads_def readable_def sample_space_def sample_lines sample_ranges)

lemma sample_needle: "needle_at sample_space 20" "\<not> needle_at sample_space 21"
  by (simp_all add: needle_at_def sample_space_def as_bytes_def NEEDLE_def)

lemma sample_copies: "copies sample_space [(20, 44)] = [20]"
  using sample_needle by (simp add: copies_def copies_in_def upt_conv_Cons)

theorem scan_exact_witness:
  "\<exists>sc'. scan sample_process \<lparr>sc_maps = [], sc_chunk = 23, sc_baseline = [], sc_found = [], sc_room = 1\<rparr> = Some sc'
     \<and> sc_found sc' = [20]"
  using scan_exact [OF sample_shown, of "\<lparr>sc_maps = [], sc_chunk = 23, sc_baseline = [], sc_found = [], sc_room = 1\<rparr>"] sample_copies
  by (auto simp: copies_def copies_in_def)

text \<open>
  The limits of a scan: the main thread's stack is a named mapping and is not read, and a copy that
  lies across two mappings is not seen.
\<close>

lemma stack_not_scanned: "own_anonymous_range ''7ffc-7ffd rw-p 0 0:0 0 [stack]'' = Some None"
  by (simp add: own_anonymous_range_def white_pieces_eval starts_with_def)

lemma across_mappings: "needle_at sample_space 20 \<and> copies sample_space [(20, 32), (32, 44)] = []"
  using sample_needle by (simp add: copies_def copies_in_def)

section \<open>What the check says\<close>

lemma new_copies_0: "new_copies sc = 0 \<longleftrightarrow> set (sc_found sc) \<subseteq> set (sc_baseline sc)"
  by (auto simp: new_copies_def filter_empty_conv)

text \<open>How \<open>serde_json\<close> reads the fixture: one secret, whose value it writes back as it stands.\<close>

definition fixture_value :: string where
  "fixture_value = ''{\"password\":\"'' @ padded_secret @ ''\"}''"

definition fixture_contents :: "'j \<Rightarrow> 'j contents" where
  "fixture_contents j = \<lparr>c_version = 1, c_secrets = [(''app/db'', j)], c_policies = [], c_tokens = [], c_token_key = None\<rparr>"

definition fixture_read :: "'j scan_world \<Rightarrow> ('j \<Rightarrow> string) \<Rightarrow> bool" where
  "fixture_read w raw \<longleftrightarrow>
     (\<exists>j body. raw j = fixture_value \<and> sw_from_str w fixture_text = Some (fixture_contents j)
        \<and> sw_to_vec w (fixture_contents j) = Some body)"

text \<open>The libraries do what they document, and the machine has random bytes.\<close>

definition world_ok :: "'j scan_world \<Rightarrow> ('j \<Rightarrow> string) \<Rightarrow> bool" where
  "world_ok w raw \<longleftrightarrow>
     aead_round_trip (rt_aead (sw_runtime w)) \<and> aead_total (rt_aead (sw_runtime w)) \<and> aead_lengths (rt_aead (sw_runtime w))
     \<and> json_round_trip (sw_to_vec w) (rt_from_slice (sw_runtime w)) raw \<and> fixture_read w raw
     \<and> (case sw_nonce w of None \<Rightarrow> False | Some n \<Rightarrow> length n = NONCE_LEN)
     \<and> (case d_fill (sw_draw w) of None \<Rightarrow> False | Some k \<Rightarrow> length k = KEY_LEN)"

lemma fixture_value_ok: "valid_utf8 fixture_value" "contains_str NEEDLE fixture_value"
proof -
  have "ord_of c < 128" if "c \<in> set fixture_value" for c
    using that by (auto simp: fixture_value_def padded_secret_def NEEDLE_def ord_of_def)
  then show "valid_utf8 fixture_value" by (rule valid_utf8_ascii)
  have "fixture_value = (''{\"password\":\"'' @ replicate 512 (CHR ''a'')) @ NEEDLE @ (replicate 512 (CHR ''b'') @ ''\"}'')"
    by (simp add: fixture_value_def padded_secret_def)
  then show "contains_str NEEDLE fixture_value" unfolding contains_str_iff by blast
qed

text \<open>Everything of the program but the scans succeeds.\<close>

lemma fixture_served:
  assumes "world_ok w raw" and "key = SealKey (replicate 32 11)"
  shows "\<exists>sealed sn scratch. seal_fixture w key = Some sealed \<and> build_snapshot w sealed key = Some sn
    \<and> with_secret (rt_aead (sw_runtime w)) sn ''app/db'' id [] = Some (scratch, Inr fixture_value)
    \<and> scratch_is_wiped False scratch"
proof -
  let ?rt = "sw_runtime w" and ?lib = "rt_aead (sw_runtime w)"
  obtain j body where j: "raw j = fixture_value" "sw_from_str w fixture_text = Some (fixture_contents j)"
    "sw_to_vec w (fixture_contents j) = Some body"
    using assms(1) by (auto simp: world_ok_def fixture_read_def)
  let ?c = "fixture_contents j"
  have c: "c_version ?c = 1" "c_secrets ?c = [(''app/db'', j)]" "c_tokens ?c = []" "c_token_key ?c = None"
    by (simp_all add: fixture_contents_def)
  obtain n k where n: "sw_nonce w = Some n" "length n = NONCE_LEN" and k: "d_fill (sw_draw w) = Some k" "length k = KEY_LEN"
    using assms(1) by (auto simp: world_ok_def split: option.splits)
  have libs: "aead_round_trip ?lib" "aead_total ?lib" "aead_lengths ?lib" "json_round_trip (sw_to_vec w) (rt_from_slice ?rt) raw"
    using assms(1) by (simp_all add: world_ok_def)
  have key: "length (expose key) = KEY_LEN" using assms(2) by (simp add: KEY_LEN_def)
  then obtain ct where "seal_append_tag ?lib (expose key) n (header_write 1 n) body = Some ct" "new_key ?lib (expose key)"
    using libs(2) n(2) by (fastforce simp: aead_total_def)
  then obtain sealed where sealed: "seal ?lib (sw_to_vec w) (sw_nonce w) ?c key = Inr sealed"
    using j(3) n(1) by (auto simp: seal_def aead_def Let_def c)
  have "contents_borrowable ?c" by (simp add: contents_borrowable_def borrowable_def ord_of_def c)
  from sealed_opens [OF libs(1,4) this _ sealed, of None] n obtain b where
    b: "open_file ?lib (rt_from_slice ?rt) sealed key None = Inr \<lparr>plaintext = b, opened_version = 1\<rparr>"
      "opened_view (rt_from_slice ?rt) \<lparr>plaintext = b, opened_version = 1\<rparr> = Inr (view_of raw ?c)" by (auto simp: c)
  let ?v = "view_of raw ?c"
  have v: "v_secrets ?v = [(''app/db'', fixture_value)]" using j(1) by (simp add: view_of_def c)
  have "build_tokens ?v = Inr None" by (simp add: build_tokens_def view_of_def c)
  from snapshot_build_total [OF libs(2) k this] obtain sn where sn: "snapshot_build ?rt (sw_draw w) ?v None = Inr sn" by blast
  have "map_option snd (with_secret ?lib sn ''app/db'' id []) = Some (Inr fixture_value)"
    using with_secret_file [OF libs(1) sn, of "''app/db''" id "[]"] fixture_value_ok(1) by (simp add: v btree_ok_def)
  then obtain scratch where s: "with_secret ?lib sn ''app/db'' id [] = Some (scratch, Inr fixture_value)" by auto
  then have "scratch_is_wiped False scratch"
    using with_plaintext_wipes [OF libs(3), where scratch = "[]" and f = "id :: string \<Rightarrow> string"]
    by (auto simp: with_secret_def scratch_is_wiped_def split: option.splits) (metis fst_conv)
  then show ?thesis
    using s sealed j(2) b sn by (simp add: seal_fixture_def build_snapshot_def expect_def)
qed

text \<open>
  C39. What the check says. With libraries that do as documented and a process that may read itself, the
  program ends without a panic exactly when every copy of the secret that stands in its mappings
  after the snapshot was built stood at the same address before the sealed file was opened, and it
  then reports the decryption buffer of the thread as wiped.
\<close>

theorem leak_check_exact:
  assumes world: "world_ok w raw"
    and before: "shows_process (sw_baseline w) space rs" and built: "shows_process (sw_built w) space' rs'"
    and serving: "shows_process (sw_serving w) space1 rs1" "shows_process (sw_dropped w) space2 rs2"
    and room: "length (copies space rs) \<le> sw_room w" "length (copies space' rs') \<le> sw_room w"
      "length (copies space1 rs1) \<le> sw_room w" "length (copies space2 rs2) \<le> sw_room w"
  shows "snd (scan_main w) = (set (copies space' rs') \<subseteq> set (copies space rs))
    \<and> (snd (scan_main w) \<longrightarrow> ends_with ''decryption buffer wiped: true'' (last (fst (scan_main w))))"
proof -
  let ?key = "SealKey (replicate 32 11)"
  obtain sealed sn scratch where run: "seal_fixture w ?key = Some sealed" "build_snapshot w sealed ?key = Some sn"
    "with_secret (rt_aead (sw_runtime w)) sn ''app/db'' id [] = Some (scratch, Inr fixture_value)" "scratch_is_wiped False scratch"
    using fixture_served [OF world refl] by blast
  have new: "length NEEDLE \<le> sc_chunk (scanner_new (sw_room w))" "sc_room (scanner_new (sw_room w)) = sw_room w"
    by (simp_all add: scanner_new_def CHUNK_def)
  obtain sc where sc: "scan (sw_baseline w) (scanner_new (sw_room w)) = Some sc" "sc_found sc = copies space rs"
    "sc_chunk sc = sc_chunk (scanner_new (sw_room w))" "sc_room sc = sc_room (scanner_new (sw_room w))"
    by (rule scan_found [OF before new(1)]) (use room(1) new(2) in simp_all)
  let ?sc = "sc\<lparr>sc_baseline := sc_found sc\<rparr>"
  obtain sc1 where sc1: "scan (sw_built w) ?sc = Some sc1" "sc_found sc1 = copies space' rs'" "sc_baseline sc1 = sc_baseline ?sc"
    "sc_chunk sc1 = sc_chunk ?sc" "sc_room sc1 = sc_room ?sc"
    by (rule scan_found [OF built, of ?sc]) (use sc(3,4) new room(2) in simp_all)
  obtain sc2 where sc2: "scan (sw_serving w) sc1 = Some sc2" "sc_chunk sc2 = sc_chunk sc1" "sc_room sc2 = sc_room sc1"
    by (rule scan_found [OF serving(1), of sc1]) (use sc1(4,5) sc(3,4) new room(3) in simp_all)
  obtain sc3 where sc3: "scan (sw_dropped w) sc2 = Some sc3"
    by (rule scan_found [OF serving(2), of sc2]) (use sc2(2,3) sc1(4,5) sc(3,4) new room(4) in simp_all)
  have served: "serve_one_response w sn sc1 = ([scan_report ''while a response body is alive'' sc2, scan_report ''after that body is dropped'' sc3], Some scratch)"
    using run(3) fixture_value_ok(2) sc2(1) sc3 by (simp add: serve_one_response_def)
  have "new_copies sc1 = 0 \<longleftrightarrow> set (copies space' rs') \<subseteq> set (copies space rs)"
    using sc(2) sc1(2,3) by (simp add: new_copies_0)
  moreover have "scan_main w = (let shown = [scan_report ''baseline, before the file is opened'' ?sc, scan_report ''after building a snapshot'' sc1] in
      if new_copies sc1 = 0 then (shown @ fst (serve_one_response w sn sc1)
        @ [[CHR 0x0A] @ ''this thread'' @ [CHR 0x27] @ ''s decryption buffer wiped: true''], True) else (shown, False))"
    using run(1,2,4) sc(1) sc1(1) served by (simp add: scan_main_def record_baseline_def assert_no_new_copies_def Let_def)
  ultimately show ?thesis by (simp add: ends_with_def starts_with_def Let_def)
qed

definition sample_scan_world :: "string scan_world" where
  "sample_scan_world =
     \<lparr>sw_from_str = (\<lambda>t. if t = fixture_text then Some (fixture_contents fixture_value) else None),
      sw_to_vec = (\<lambda>c. if c = fixture_contents fixture_value then Some [1] else None),
      sw_nonce = Some (replicate 12 5),
      sw_runtime = sample_runtime\<lparr>rt_from_slice := (\<lambda>b. if b = [1] then Some (view_of id (fixture_contents fixture_value)) else None)\<rparr>,
      sw_draw = sample_draw, sw_room = MAX_COPIES,
      sw_baseline = sample_process, sw_built = sample_process, sw_serving = sample_process, sw_dropped = sample_process\<rparr>"

lemma sample_scan_world_ok: "world_ok sample_scan_world id"
  by (simp add: world_ok_def sample_scan_world_def sample_runtime_def sample_draw_def clear_aead_ok json_round_trip_def fixture_read_def KEY_LEN_def)

theorem leak_check_exact_witness: "snd (scan_main sample_scan_world)"
proof -
  have shown: "shows_process (sw_baseline sample_scan_world) sample_space [(20, 44)]" "shows_process (sw_built sample_scan_world) sample_space [(20, 44)]"
    "shows_process (sw_serving sample_scan_world) sample_space [(20, 44)]" "shows_process (sw_dropped sample_scan_world) sample_space [(20, 44)]"
    using sample_shown by (simp_all add: sample_scan_world_def)
  have "length (copies sample_space [(20, 44)]) \<le> sw_room sample_scan_world"
    unfolding sample_copies by (simp add: sample_scan_world_def MAX_COPIES_def)
  from leak_check_exact [OF sample_scan_world_ok shown this this this this] show ?thesis by simp
qed

end
