(* ===== verification/Spec2Isabelle.thy ===== *)
theory Spec2Isabelle
  imports Server_Main Ctl_Commands Log_Threads Pinned_Pages Cleartext_Scan
begin

text \<open>
  A verification of Kallisto, a local, read-only secrets resolver that speaks the Vault HTTP API, and of
  its offline tool. The model translates the Rust sources; every theory opens with the files it
  models, and keeps their names.

  \<^bold>\<open>How the program works.\<close> The tool \<open>kallisto-ctl\<close> seals a plaintext file of secrets, policies and hashed
  tokens into a file with an authenticated header, under a key from the environment. The resolver
  \<open>kallisto-server\<close> reads its configuration, takes the same key, and starts one refresh thread and
  several workers. The thread fetches the sealed file from a disk or a bucket, refuses anything that
  does not authenticate or is older than what it holds, re-encrypts every value under a key of the
  process (the barrier), builds a snapshot and swaps it into a slot; it keeps an encrypted copy on
  disk for the next start. A worker takes a request, spends a permit of its rate limiter, loads the
  snapshot, asks the policy engine about the presented token, opens one value into a scratch buffer
  that is wiped afterwards, answers, counts the outcome and hands a line to the access log, whose
  writer thread drains a lock-free queue.

  \<^bold>\<open>The theories.\<close>
  \<^item> \<open>Kallisto_Prelude\<close>: bytes, texts and the standard-library operations on them (saturating
    arithmetic, number parsing and printing, splitting, UTF-8 boundaries), with the rule collections
    \<open>rust_defs\<close> and \<open>str_iffs\<close>, and the locale \<open>codec\<close> of encoders with an inverse.
  \<^item> \<open>Hex\<close>, \<open>Sealed_File\<close>, \<open>Barrier\<close>, \<open>Pinned_Pages\<close>: the crate \<open>components/kallisto_crypto\<close> (\<open>hex.rs\<close>, \<open>key.rs\<close>,
    \<open>sealed_file.rs\<close>, \<open>barrier.rs\<close>, \<open>hardening.rs\<close>). Round trips, soundness and refusals of opening a
    file, nonces that never repeat, the wiped scratch buffer, the locked pages of the keys while snapshots are
    stored and shares of old ones are held and dropped.
  \<^item> \<open>Policy_Matcher\<close>, \<open>Policy_Token\<close>: the crate \<open>components/kallisto_policy\<close> and \<open>redact.rs\<close> of the
    telemetry crate. The offset matcher against a reference on segment lists, the deny-first decision
    (locale \<open>decision\<close>), the token table.
  \<^item> \<open>Time_Format\<close>, \<open>SigV4\<close>: \<open>server/time_format.rs\<close>, \<open>resolver/sigv4.rs\<close>, \<open>bucket.rs\<close>, \<open>source.rs\<close>. The
    calendar, presigned requests, what a fetch may return.
  \<^item> \<open>Snapshot\<close>, \<open>Refresh\<close>: \<open>resolver/snapshot.rs\<close>, \<open>resolver/refresh.rs\<close>. What a snapshot serves, lists
    and permits; polling (locale \<open>monotone_loop\<close>), what a crash leaves of the cache, and a cold start that
    serves what was served.
  \<^item> \<open>Rate_Limit\<close>, \<open>Responses\<close>, \<open>Request\<close>: \<open>server/rate_limit.rs\<close>, \<open>server/responses.rs\<close>,
    \<open>vault_api/request.rs\<close>. Token bucket bounds, JSON bodies that decode, the URI parsers.
  \<^item> \<open>Vyukov_Queue\<close>, \<open>Queue_Threads\<close>, \<open>Access_Log\<close>, \<open>Log_Threads\<close>, \<open>Metrics\<close>: the crates \<open>kallisto_queue\<close> and
    \<open>kallisto_telemetry\<close>. The ring with wrapping 64-bit positions as a bounded FIFO queue (locale
    \<open>bounded_queue\<close>), and under any number of threads whose shared accesses interleave: exclusive use
    of a slot, every value handed out once, justified refusals, progress; the log with its producers and
    its writer, once with whole calls of the queue (the books balance, the writer catches up) and once
    with every atomic step of the queue and the gate interleaved (lines in order, nobody sleeps through
    a line); counters and their text.
  \<^item> \<open>Vault_Api\<close>, \<open>Vault_Serve\<close>: \<open>vault_api/\<close> (\<open>replies.rs\<close>, \<open>mod.rs\<close>, \<open>kv.rs\<close>, \<open>observe.rs\<close>) and
    \<open>server/sys.rs\<close>. Reading refines an abstract answer computed from the file; the route
    tables and the refusals they give; what is logged.
  \<^item> \<open>Config\<close>, \<open>Cpu_Plan\<close>, \<open>Server_Main\<close>: \<open>config/\<close>, \<open>event/\<close>, \<open>server/listener.rs\<close> and
    \<open>cmd/kallisto-server\<close>. Layering of settings, pinning, start-up and the refresh thread.
  \<^item> \<open>Ctl_Args\<close>, \<open>Ctl_Commands\<close>: \<open>cmd/kallisto-ctl\<close>. Its command line, its commands and what they
    write and print.
  \<^item> \<open>Cleartext_Scan\<close>: \<open>examples/cleartext_scan.rs\<close>, the program that searches its own memory for copies
    of a secret: what its sweep finds, and what its verdict means.

  This theory has the properties that span them: the path of a secret from the sealed file to an
  answer, serving any sequence of requests (locale \<open>responder\<close>), and the way from the operator's
  plaintext to a served value.

  \<^bold>\<open>State and effects.\<close> Structs are records, enums are datatypes. A function that can fail returns a sum
  with the error on the left; one that can panic returns an option, \<open>None\<close> being the panic. State is
  passed explicitly: the worker's \<open>api_state\<close>, the \<open>refresher\<close> with its file system, the \<open>ctl_world\<close>
  of files and output. Shared state that several threads touch (the queue, the log and its gate) is a step
  relation over all interleavings of atomic steps: in \<open>Queue_Threads\<close> the single loads, stores and
  compare-and-swaps of the ring, in \<open>Access_Log\<close> the accesses to the gate and whole calls of the queue,
  in \<open>Log_Threads\<close> both at once, step by step;
  the snapshot slot is
  swapped whole, so a request sees one table, and a table stored meanwhile is an input of the step.
  64-bit positions, versions and counters that wrap are words; sizes and quantities that saturate or
  are bounded by their parser are naturals with the bound written out.

  \<^bold>\<open>Bounds and fuel.\<close> Recursions are structural or have a measure. The compare-and-swap loop of the
  queue, run as a whole call, takes the list of its spurious failures, so it ends after that list; the claims about
  its threads hold while fewer than about \<open>2 ^ 63\<close> values were enqueued, since a thread suspended
  across a whole turn of the 64-bit cursor could take it for its own; draining the queue takes
  fuel, and one unit more than the lines queued is shown to be enough. A file write comes with the list of
  the file-system states a crash can leave, that of the process and, where nothing is synced, that of the
  machine. A write to the log's sink is the batch and how much of it got through.

  \<^bold>\<open>Parameters and what is asked of them.\<close> AES-256-GCM (\<open>aead_round_trip\<close>, \<open>aead_authentic\<close>,
  \<open>aead_total\<close>, \<open>aead_lengths\<close>), HMAC-SHA-256, \<open>serde_json\<close> (\<open>json_round_trip\<close>, \<open>parser_ok\<close>, \<open>parser_borrows\<close>),
  the YAML, URL and IP readers, the HTTP client, the routing package (its choice of a handler,
  \<open>router_ok\<close>, \<open>follows_routes\<close>), the page locks of the kernel (\<open>kernel_ok\<close>), the random generator,
  clocks, the operating system and its file system. Each property that relies on one of these names
  the hypothesis, and its witness instantiates it.

  \<^bold>\<open>Not modelled.\<close> Memory ordering below sequential consistency in the queue (the sources check it with
  loom, \<open>sync.rs\<close>); zeroisation of freed memory and other effects below the language; where the scanner's
  own chunk lies, so that a copy in it would be found again; sockets, TLS and HTTP framing, which belong to packages; the
  message texts of the two command-line programs beyond the data they carry; that a HEAD answer has no
  body; the macro
  \<open>error_log\<close>; the allocator. Benchmarks, fuzz targets and tests are not part of the programs.
\<close>

section \<open>The worker loop\<close>

text \<open>
  The interface between a worker and its requests: a step that, from a good state and for a fitting
  input, answers and leaves a good state; a count of what was answered, kept in the state.
\<close>

locale responder =
  fixes step :: "'e \<Rightarrow> 's \<Rightarrow> ('s \<times> 'r) option"
    and good :: "'s \<Rightarrow> bool" and fit :: "'e \<Rightarrow> bool"
    and tally :: "'s \<Rightarrow> 'k \<Rightarrow> u64" and kind_of :: "'r \<Rightarrow> 'k"
  assumes progress: "good s \<Longrightarrow> fit e \<Longrightarrow>
    \<exists>s' r. step e s = Some (s', r) \<and> good s' \<and> (\<forall>k. tally s' k = tally s k + (if kind_of r = k then 1 else 0))"

text \<open>Inputs one after another; \<open>None\<close>: one of them panicked.\<close>

fun respond_all :: "('e \<Rightarrow> 's \<Rightarrow> ('s \<times> 'r) option) \<Rightarrow> 's \<Rightarrow> 'e list \<Rightarrow> ('s \<times> 'r list) option" where
  "respond_all step s [] = Some (s, [])"
| "respond_all step s (e # es) =
     Option.bind (step e s) (\<lambda>(s', r). map_option (\<lambda>(s'', rs). (s'', r # rs)) (respond_all step s' es))"

context responder
begin

lemma answers_all:
  "good s \<Longrightarrow> list_all fit es \<Longrightarrow>
     \<exists>s' rs. respond_all step s es = Some (s', rs) \<and> length rs = length es \<and> good s'
       \<and> (\<forall>k. tally s' k = tally s k + word_of_nat (length (filter (\<lambda>r. kind_of r = k) rs)))"
proof (induction es arbitrary: s)
  case (Cons e es)
  obtain s1 r where s1: "step e s = Some (s1, r)" "good s1" "\<forall>k. tally s1 k = tally s k + (if kind_of r = k then 1 else 0)"
    using progress [OF Cons(2), of e] Cons(3) by auto
  from Cons(1) [OF s1(2)] Cons(3) obtain s' rs where "respond_all step s1 es = Some (s', rs)" "length rs = length es" "good s'"
    "\<forall>k. tally s' k = tally s1 k + word_of_nat (length (filter (\<lambda>r. kind_of r = k) rs))" by auto
  with s1 show ?case by auto
qed simp

end

definition own_counter :: "api_state \<Rightarrow> outcome \<Rightarrow> u64" where
  "own_counter st k = metrics_get (tm_workers (rv_telemetry (as_resolver st)) ! as_metrics st) k"

text \<open>A request and its moment, valid: the text of its URI and the table stored meanwhile, if any.\<close>

definition input_ok :: "moment \<times> request \<Rightarrow> bool" where
  "input_ok e \<longleftrightarrow> request_ok (snd e) \<and> slot_ok (mo_store (fst e))"

definition worker_step ::
    "(request \<Rightarrow> route_choice) \<Rightarrow> string \<Rightarrow> runtime \<Rightarrow> moment \<times> request \<Rightarrow> api_state \<Rightarrow> (api_state \<times> Vault_Api.response) option" where
  "worker_step route pkg rt e st = observe route pkg rt (fst e) st (snd e)"

interpretation worker: responder "worker_step route pkg rt"
  "\<lambda>st. serve_ok st \<and> router_ok route \<and> aead_lengths (rt_aead rt)" input_ok own_counter "\<lambda>r. outcome_of (rs_status r)"
  for route pkg rt
proof
  fix st :: api_state and e
  assume st: "serve_ok st \<and> router_ok route \<and> aead_lengths (rt_aead rt)" and e: "input_ok e"
  from st e every_request_observed [of st "snd e" rt route "fst e" pkg]
  obtain st' r where o: "observe route pkg rt (fst e) st (snd e) = Some (st', r)" "serve_ok st'"
    "tm_workers (rv_telemetry (as_resolver st')) = (tm_workers (rv_telemetry (as_resolver st)))
       [as_metrics st := metrics_observe (outcome_of (rs_status r)) (tm_workers (rv_telemetry (as_resolver st)) ! as_metrics st)]"
    "as_metrics st' = as_metrics st"
    by (auto simp: input_ok_def)
  moreover have "as_metrics st < length (tm_workers (rv_telemetry (as_resolver st)))" using st by (simp add: serve_ok_def Let_def)
  ultimately show "\<exists>st' r. worker_step route pkg rt e st = Some (st', r)
      \<and> (serve_ok st' \<and> router_ok route \<and> aead_lengths (rt_aead rt))
      \<and> (\<forall>k. own_counter st' k = own_counter st k + (if outcome_of (rs_status r) = k then 1 else 0))"
    using st by (auto simp: worker_step_def own_counter_def get_observe)
qed

section \<open>From the sealed file to the answer\<close>

lemma released_loaded:
  assumes "read_secret rt elapsed st mtd hs u = Some (st', r)" and "rs_status r = 200"
  obtains sn where "state_snapshot st = Some sn"
  using assms(1)
proof (cases rule: read_secret_cases)
  case (served st1 sn path v)
  have "CHR ''/'' \<notin> set ''data''" by simp
  with that accept_Inr(1) [OF served(2)] show thesis by blast
next
  case gate
  with accept_Inl(2) [OF gate(2)] assms(2) show thesis by auto
qed (use assms(2) in auto)

text \<open>
  C1. Every secret that leaves the process was sealed, and granted. Take a server that started, its
  refresh thread after a cold start and any number of polls, and a worker that serves the table the
  thread left. If the worker answers a read with 200, there is a file that was sealed under the key
  of this process's environment and whose contents hold, at the path of the URI under the configured
  mount, exactly the text in the answer; and when that file has a token key, the presented token
  hashes to a line of it naming a policy that grants reading that path. What is asked of the parser
  is that its maps are ordered and its texts are UTF-8.
\<close>

theorem released_secrets_are_sealed:
  assumes lib: "aead_authentic (rt_aead rt)" "aead_round_trip (rt_aead rt)"
    and parser: "parser_ok (rt_from_slice rt)"
    and started: "run_main m = Some (Inr sv, ns)"
    and refreshed: "refresh_thread rt quoted cs first es (sv_refresher sv) failures = (r, failures', ns')"
    and worker: "rv_slot (as_resolver st) = rf_slot r" "rv_mount (as_resolver st) = cf_mount (sv_config sv)"
    and read: "read_secret rt elapsed st mtd hs u = Some (st', reply)" "valid_utf8 (uri_path u)" and ok: "rs_status reply = 200"
  shows "\<exists>key n ct body v path t loaded_at. main_seal_key m = Inr key
    \<and> seal_append_tag (rt_aead rt) (expose key) n (header_write (v_version v) n) body = Some ct \<and> rt_from_slice rt body = Some v
    \<and> uri_path u = ''/v1/'' @ cf_mount (sv_config sv) @ ''/data/'' @ path \<and> map_of (v_secrets v) path = Some t
    \<and> rs_body reply = kv_data t (unat (v_version v)) loaded_at
    \<and> (v_token_key v \<noteq> None \<longrightarrow>
         file_grants (rt_hmac rt) v (presented_token hs) (cf_mount (sv_config sv) @ ''/data/'' @ path) Read)"
proof -
  obtain key where key: "main_seal_key m = Inr key" and rf: "sv_refresher sv = start_refresher m (sv_config sv) key"
    using started by (rule run_main_Inr)
  obtain ticks where "refresh_ticks rt quoted cs first es (start_refresher m (sv_config sv) key) = (r, ticks)"
    using refreshed rf by (auto simp: refresh_thread_def split: prod.splits)
  then have auth: "served_authentic rt key r" using refresh_ticks_authentic [OF lib(1)] by blast
  obtain sn where sn: "state_snapshot st = Some sn" using read(1) ok by (rule released_loaded)
  with auth worker(1) obtain bs where "authentic rt key bs sn"
    by (auto simp: served_authentic_def state_snapshot_def slot_load_def)
  then obtain n ct body v dr etag where f: "seal_append_tag (rt_aead rt) (expose key) n (header_write (sn_version sn) n) body = Some ct"
    "rt_from_slice rt body = Some v" "snapshot_build rt dr v etag = Inr sn" by (auto simp: authentic_def)
  have loaded: "loaded_from rt v sn" using lib(2) parser f(2,3) by (auto simp: loaded_from_def parser_ok_def)
  from f(1) have "seal_append_tag (rt_aead rt) (expose key) n (header_write (v_version v) n) body = Some ct"
    by (simp only: loaded_version [OF loaded])
  with secret_release [OF loaded sn read(2) read(1) ok] key f(2) worker(2) show ?thesis
    by (simp only:) blast
qed

section \<open>Serving\<close>

text \<open>
  C2. A started server answers. Every worker of a server that started, given any sequence of valid
  requests, with any tables stored in between, answers each of them without a panic, one answer per
  request, in a well-formed state throughout; and each of its outcome counters then reads exactly
  how many of the answers had that outcome, modulo the width of the counter.
\<close>

theorem server_answers_all:
  assumes started: "run_main m = Some (Inr sv, ns)" "cf_workers (sv_config sv) \<le> 2 ^ 64"
    and lib: "aead_lengths (rt_aead rt)" and route: "router_ok route" and rqs: "list_all input_ok rqs"
  shows "\<exists>st' replies. respond_all (worker_step route pkg rt) (worker_state (sv_resolver sv) i) rqs = Some (st', replies)
    \<and> length replies = length rqs \<and> serve_ok st'
    \<and> (\<forall>k. own_counter st' k = word_of_nat (length (filter (\<lambda>r. outcome_of (rs_status r) = k) replies)))"
proof -
  let ?st = "worker_state (sv_resolver sv) i"
  have "serve_ok ?st" using started by (rule started_worker_ok)
  moreover have "own_counter ?st k = 0" for k
    using started_counters [OF started(1)] by (cases k) (simp_all add: own_counter_def worker_state_def worker_metrics_default_def)
  ultimately show ?thesis
    using worker.answers_all [of ?st route rt rqs pkg] lib route rqs by auto
qed

section \<open>From the operator to the client\<close>

lemma sealed_at_output:
  assumes "run_seal lib env a w = Some (Inr u, w')" and "seal_request lib env a (cw_fs w) = Some (path, key, c)"
  obtains bs where "seal (cl_aead lib) (cl_to_vec lib) (ce_nonce env) c key = Inr bs" "cw_fs w' path = Some bs"
  using assms(1)
proof (cases rule: run_seal_request)
  case (requested out_path key' c')
  with assms(2) have same: "out_path = path" "key' = key" "c' = c" by simp_all
  from requested(2) [unfolded same] show thesis
    by (rule seal_and_write_Inr) (use that temporary_is_other [of "ce_pid env" path] in auto)
qed simp

text \<open>
  C3. What the operator seals, clients read. After a successful \<open>kallisto-ctl seal\<close>, a resolver with
  the same key that polls the written file and holds nothing newer loads it under the version asked
  for, and from then on every path of the plaintext renders as its value and every other path as
  absent; authorization is enforced exactly when the plaintext has a token key.
\<close>

theorem sealed_then_served:
  assumes tool: "run_seal lib env a w = Some (Inr u, w')" "seal_request lib env a (cw_fs w) = Some (path, key, c)"
    and libs: "rt_aead rt = cl_aead lib" "rt_from_slice rt = cl_from_slice lib"
    and aead: "aead_round_trip (cl_aead lib)" "aead_total (cl_aead lib)"
    and json: "json_round_trip (cl_to_vec lib) (cl_from_slice lib) raw" "contents_borrowable c" "btree_ok (c_secrets c)"
      "\<forall>(q, j) \<in> set (c_secrets c). valid_utf8 (raw j)"
    and nonce: "\<And>n. ce_nonce env = Some n \<Longrightarrow> length n = NONCE_LEN"
    and tokens: "build_tokens (view_of raw c) = Inr tokens"
    and draw: "d_fill dr = Some k" "length k = KEY_LEN"
    and resolver: "rf_key r = key" "slot_version (rf_slot r) < Some (c_version c)"
  shows "\<exists>r' cached ws sn. poll_once rt quoted dr disk (disk_fetch (read_file (cw_fs w') path)) r
        = (r', Loaded (c_version c) cached (c_token_key c \<noteq> None), ws)
    \<and> rf_slot r' = Some sn
    \<and> (\<forall>p scratch. snd (render_secret (rt_aead rt) sn p scratch) =
        (case map_of (c_secrets c) p of
           None \<Rightarrow> absent
         | Some j \<Rightarrow> json_response 200 (kv_data (raw j) (unat (c_version c)) (sn_loaded_at_rfc3339 sn))))"
proof -
  let ?v = "view_of raw c" and ?held = "slot_version (rf_slot r)"
  obtain bs where bs: "seal (cl_aead lib) (cl_to_vec lib) (ce_nonce env) c key = Inr bs" "cw_fs w' path = Some bs"
    using tool by (rule sealed_at_output)
  have held: "x \<le> c_version c" if "?held = Some x" for x using resolver(2) that by simp
  from sealed_opens [OF aead(1) json(1,2) nonce bs(1) held] obtain body
    where op: "open_file (cl_aead lib) (cl_from_slice lib) bs key ?held = Inr \<lparr>plaintext = body, opened_version = c_version c\<rparr>"
      and view: "opened_view (cl_from_slice lib) \<lparr>plaintext = body, opened_version = c_version c\<rparr> = Inr ?v" by auto
  obtain etag where fetch: "disk_fetch (read_file (cw_fs w') path) (rf_etag r) = Body bs etag"
    using bs(2) by (auto simp: disk_fetch_def read_file_def)
  obtain sn where sn: "snapshot_build rt dr ?v etag = Inr sn"
    using snapshot_build_total [OF _ draw tokens] aead(2) libs(1) by metis
  have peek: "peek_version bs = Inr (c_version c)" using peek_open_agree [OF op] by simp
  have "?held \<noteq> Some (c_version c)" using resolver(2) by auto
  moreover obtain r' cached where wc: "write_cache (r\<lparr>rf_slot := Some sn, rf_etag := etag\<rparr>) bs disk = (r', cached)" by fastforce
  ultimately have p: "poll_once rt quoted dr disk (disk_fetch (read_file (cw_fs w') path)) r
      = (r', Loaded (c_version c) cached (enforces sn), map (unknown_policy_warning quoted) (unknown_policies sn))"
    using fetch peek op view sn libs resolver(1) by (simp add: poll_once_def adopt_def slot_store_def Let_def)
  have slot: "rf_slot r' = Some sn" using write_cache_keeps(1) [of "r\<lparr>rf_slot := Some sn, rf_etag := etag\<rparr>" bs disk] wc by simp
  have "loaded_from rt ?v sn"
    using aead(1) libs(1) json(3,4) sn by (auto simp: loaded_from_def btree_ok_def view_of_def comp_def case_prod_beta)
  note this [THEN render_from_file]
  moreover have "map_of (v_secrets ?v) q = map_option raw (map_of (c_secrets c) q)" for q
    by (simp add: view_of_def map_of_map)
  ultimately show ?thesis
    using p slot enforces_file(1) [OF sn] by (auto simp: view_of_def split: option.splits)
qed

section \<open>Examples\<close>

definition sample_cold :: cold_start where
  "sample_cold = \<lparr>cs_draw = sample_draw, cs_disk = ev_disk sample_event, cs_io_error = None\<rparr>"

lemma sample_contents_ok:
  "contents_borrowable sample_contents" "btree_ok (c_secrets sample_contents)" "(q, j) \<in> set (c_secrets sample_contents) \<Longrightarrow> valid_utf8 j"
  "build_tokens (view_of id sample_contents) = Inr None" "c_version sample_contents = 7" "c_token_key sample_contents = None"
  by (auto simp: contents_borrowable_def sample_contents_def borrowable_def btree_ok_def build_tokens_def view_of_def ord_of_def)

lemma sample_draw_ok: "d_fill sample_draw = Some (replicate 32 9)" "length (replicate 32 (9 :: u8)) = KEY_LEN"
  by (simp_all add: sample_draw_def KEY_LEN_def)

lemma sample_polls:
  assumes "rf_key r = SealKey (replicate 32 9)" and "rf_slot r = None"
  shows "\<exists>r' t ws sn. poll_once sample_runtime id sample_draw disk (\<lambda>_. Body sample_file (Some ''tag'')) r = (r', t, ws)
     \<and> rf_slot r' = Some sn \<and> loaded_from sample_runtime (view_of id sample_contents) sn \<and> \<not> enforces sn"
proof -
  let ?d = "\<lparr>plaintext = [1, 2, 3], opened_version = 7\<rparr> :: opened"
  have op: "open_file clear_aead sample_from_slice sample_file (SealKey (replicate 32 9)) None = Inr ?d"
    using open_file_unheld [OF sample_opens] .
  have view: "opened_view sample_from_slice ?d = Inr (view_of id sample_contents)"
    by (simp add: opened_view_def sample_from_slice_def)
  have rt: "rt_aead sample_runtime = clear_aead" "rt_from_slice sample_runtime = sample_from_slice" by (simp_all add: sample_runtime_def)
  obtain sn where sn: "snapshot_build sample_runtime sample_draw (view_of id sample_contents) (Some ''tag'') = Inr sn"
    using snapshot_build_total [OF _ sample_draw_ok sample_contents_ok(4)] rt clear_aead_ok by metis
  obtain r' cached where wc: "write_cache (r\<lparr>rf_slot := Some sn, rf_etag := Some ''tag''\<rparr>) sample_file disk = (r', cached)" by fastforce
  have "rf_slot r' = Some sn" using write_cache_keeps(1) [of "r\<lparr>rf_slot := Some sn, rf_etag := Some ''tag''\<rparr>" sample_file disk] wc by simp
  moreover have "loaded_from sample_runtime (view_of id sample_contents) sn"
    using sn clear_aead_ok rt sample_contents_ok(2,3)
    by (auto simp: loaded_from_def view_of_def btree_ok_def comp_def case_prod_beta)
  moreover have "\<not> enforces sn" using enforces_file(1) [OF sn] by (simp add: view_of_def sample_contents_ok)
  ultimately show ?thesis
    using assms op view sn rt wc peek_open_agree [OF op]
    by (simp add: poll_once_def adopt_def slot_store_def slot_version_def Let_def)
qed

theorem sealed_then_served_witness:
  "\<exists>w' path r' cached ws. run_seal sample_ctl_lib sample_ctl_env sample_seal_args sample_world = Some (Inr (), w')
     \<and> poll_once sample_runtime id sample_draw (ev_disk sample_event) (disk_fetch (read_file (cw_fs w') path)) sample_refresher
         = (r', Loaded 7 cached False, ws)"
proof -
  obtain w' where run: "run_seal sample_ctl_lib sample_ctl_env sample_seal_args sample_world = Some (Inr (), w')"
    using sample_ctl_seal by blast
  have rq: "seal_request sample_ctl_lib sample_ctl_env sample_seal_args (cw_fs sample_world) = Some (''o'', SealKey (replicate 32 9), sample_contents)"
    by (simp add: seal_request_def sample_seal_key)
      (simp add: sample_seal_args_def arg_required_def arg_value_def arg_number_def sample_world_def ctl_read_to_string_def text_of_def sample_ctl_lib_def)
  have libs: "rt_aead sample_runtime = cl_aead sample_ctl_lib" "rt_from_slice sample_runtime = cl_from_slice sample_ctl_lib"
    "aead_round_trip (cl_aead sample_ctl_lib)" "aead_total (cl_aead sample_ctl_lib)"
    "json_round_trip (cl_to_vec sample_ctl_lib) (cl_from_slice sample_ctl_lib) id"
    by (simp_all add: sample_ctl_lib_def sample_runtime_def clear_aead_ok sample_json)
  have nonce: "length n = NONCE_LEN" if "ce_nonce sample_ctl_env = Some n" for n using that by (auto simp: sample_ctl_env_def)
  have utf8: "\<forall>(q, j) \<in> set (c_secrets sample_contents). valid_utf8 (id j)" using sample_contents_ok(3) by auto
  have r: "rf_key sample_refresher = SealKey (replicate 32 9)" "slot_version (rf_slot sample_refresher) < Some (c_version sample_contents)"
    by (simp_all add: sample_refresher_def refresher_new_def slot_empty_def slot_version_def)
  from sealed_then_served [OF run rq libs sample_contents_ok(1,2) utf8 nonce sample_contents_ok(4) sample_draw_ok r, where quoted = id and disk = "ev_disk sample_event"] run
  show ?thesis by (auto simp: sample_contents_ok)
qed

theorem server_answers_all_witness:
  "\<exists>sv ns st' reply. run_main sample_machine = Some (Inr sv, ns)
     \<and> respond_all (worker_step (\<lambda>_. Call Read_Secret) ''1'' sample_runtime) (worker_state (sv_resolver sv) 0)
         [(sample_moment, sample_rq)] = Some (st', [reply]) \<and> own_counter st' (outcome_of (rs_status reply)) = 1"
proof -
  obtain sv ns where run: "run_main sample_machine = Some (Inr sv, ns)" and w: "cf_workers (sv_config sv) = 2"
    using sample_starts by blast
  have "aead_lengths (rt_aead sample_runtime)" "router_ok (\<lambda>_. Call Read_Secret)" "list_all input_ok [(sample_moment, sample_rq)]"
    "cf_workers (sv_config sv) \<le> 2 ^ 64"
    using w sample_rq_ok by (simp_all add: sample_runtime_def clear_aead_ok router_ok_def input_ok_def slot_ok_def sample_moment_def)
  from server_answers_all [OF run this(4,1,2,3), of "''1''" 0] obtain st' replies where
    a: "respond_all (worker_step (\<lambda>_. Call Read_Secret) ''1'' sample_runtime) (worker_state (sv_resolver sv) 0)
         [(sample_moment, sample_rq)] = Some (st', replies)" "length replies = 1"
    "\<forall>k. own_counter st' k = word_of_nat (length (filter (\<lambda>r. outcome_of (rs_status r) = k) replies))"
    by auto
  then obtain reply where "replies = [reply]" by (cases replies) auto
  with a run show ?thesis by auto
qed

definition app_uri :: uri where
  "app_uri = \<lparr>uri_path = ''/v1/secret/data/app/db'', uri_query = None\<rparr>"

definition app_state :: "snapshot \<Rightarrow> api_state" where
  "app_state sn = (sample_state sn)\<lparr>as_resolver := (as_resolver (sample_state sn))\<lparr>rv_mount := ''secret''\<rparr>\<rparr>"

lemma sample_mount: "main_config sample_machine = Inr cfg \<Longrightarrow> cf_mount cfg = ''secret'' \<and> cf_cache_path cfg = None"
proof -
  assume "main_config sample_machine = Inr cfg"
  moreover have "parse_args id (\<lambda>_. None) overrides_default [''--config'', ''/k''] = Inr (overrides_default\<lparr>ov_config_path := Some ''/k''\<rparr>)"
    by (simp add: split_flag_def apply_flag_def try_result_def flag_value_def)
  moreover have "from_env id (\<lambda>_. None) (main_env sample_machine) = Inr overrides_default"
    by (simp add: from_env_def try_result_def parse_env_def overrides_default_def main_env_def sample_machine_def SEAL_KEY_ENV_def)
  ultimately show ?thesis
    by (auto simp: main_config_def sample_machine_def or_else_def try_result_def from_config_error_def read_config_file_def parse_file_def
        sample_config_file_def resolve_def bind_address_def worker_count_def overlay_def overrides_default_def overrides_from_spec_def
        DEFAULT_ADDRESS_def DEFAULT_WORKERS_def DEFAULT_MOUNT_def Let_def split: sum.splits)
qed

lemma app_read:
  assumes "loaded_from sample_runtime (view_of id sample_contents) sn" and "\<not> enforces sn"
  shows "\<exists>st' reply. read_secret sample_runtime 0 (app_state sn) ''GET'' sample_headers app_uri = Some (st', reply) \<and> rs_status reply = 200"
proof -
  have u: "valid_utf8 (uri_path app_uri)" "version_param app_uri = Some None"
    "extract_mount_and_path (uri_path app_uri) ''data'' = Some (''secret'', ''app/db'')"
    by (simp_all add: app_uri_def version_param_def ord_of_def extract_exact)
  have st: "state_snapshot (app_state sn) = Some sn" "snd (try_acquire (as_limiter (app_state sn)) 0) = Inr ()"
    using sample_request(5,6) [of sn] by (simp_all add: app_state_def state_snapshot_def)
  have "permits clear_hmac sn (presented_token sample_headers) p Read = Some True" for p
    using assms(2) by (simp add: permits_def enforces_def)
  then show ?thesis
    using read_secret_from_file [OF assms(1) st(1) sample_request(4) st(2) u(1,2), of sample_headers] u(3)
    by (auto simp: file_read_def app_state_def view_of_def sample_contents_def sample_runtime_def)
qed

theorem released_secrets_are_sealed_witness:
  "\<exists>sv ns r f ns' sn st' reply. run_main sample_machine = Some (Inr sv, ns)
     \<and> refresh_thread sample_runtime id sample_cold sample_event [] (sv_refresher sv) 0 = (r, f, ns')
     \<and> rf_slot r = Some sn \<and> read_secret sample_runtime 0 (app_state sn) ''GET'' sample_headers app_uri = Some (st', reply)
     \<and> (\<exists>n ct body v t at. seal_append_tag clear_aead (replicate 32 9) n (header_write (v_version v) n) body = Some ct
         \<and> sample_from_slice body = Some v \<and> map_of (v_secrets v) ''app/db'' = Some t \<and> rs_body reply = kv_data t (unat (v_version v)) at)"
proof -
  obtain sv ns where run: "run_main sample_machine = Some (Inr sv, ns)" using sample_starts by blast
  obtain key where cfg: "main_config sample_machine = Inr (sv_config sv)" and key: "main_seal_key sample_machine = Inr key"
    and rf: "sv_refresher sv = start_refresher sample_machine (sv_config sv) key" using run by (rule run_main_Inr)
  have k: "key = SealKey (replicate 32 9)" using key sample_main_key by simp
  note m = sample_mount [OF cfg]
  obtain r' t ws sn where p: "poll_once sample_runtime id sample_draw (ev_disk sample_event) (\<lambda>_. Body sample_file (Some ''tag'')) (sv_refresher sv)
      = (r', t, ws)" "rf_slot r' = Some sn" "loaded_from sample_runtime (view_of id sample_contents) sn" "\<not> enforces sn"
    using sample_polls [of "sv_refresher sv" "ev_disk sample_event"] k
    by (auto simp: rf start_refresher_def every_def refresher_new_def slot_empty_def)
  have "warm_from_cache sample_runtime id sample_draw (ev_disk sample_event) None (sv_refresher sv) = (sv_refresher sv, SourceDown Absent, [])"
    using m by (simp add: warm_from_cache_def rf start_refresher_def every_def refresher_new_def)
  then obtain f ns' where th: "refresh_thread sample_runtime id sample_cold sample_event [] (sv_refresher sv) 0 = (r', f, ns')"
    using p(1) by (cases t) (auto simp: refresh_thread_def refresh_ticks_def sample_cold_def sample_event_def)
  obtain st' reply where rd: "read_secret sample_runtime 0 (app_state sn) ''GET'' sample_headers app_uri = Some (st', reply)" "rs_status reply = 200"
    using app_read [OF p(3,4)] by blast
  have lib: "aead_authentic (rt_aead sample_runtime)" "aead_round_trip (rt_aead sample_runtime)" by (simp_all add: sample_runtime_def clear_aead_ok)
  have parser: "parser_ok (rt_from_slice sample_runtime)"
    using sample_contents_ok(2,3)
    by (auto simp: parser_ok_def sample_runtime_def sample_from_slice_def view_of_def btree_ok_def comp_def case_prod_beta split: if_splits)
  have w: "rv_slot (as_resolver (app_state sn)) = rf_slot r'" "rv_mount (as_resolver (app_state sn)) = cf_mount (sv_config sv)"
    using p(2) m by (simp_all add: app_state_def sample_state_def worker_state_def)
  have "valid_utf8 (uri_path app_uri)" by (simp add: app_uri_def ord_of_def)
  from released_secrets_are_sealed [OF lib parser run th w rd(1) this rd(2)] key k
  obtain n ct body v path t loaded_at where
    "seal_append_tag clear_aead (replicate 32 9) n (header_write (v_version v) n) body = Some ct" "sample_from_slice body = Some v"
    and path: "uri_path app_uri = ''/v1/'' @ cf_mount (sv_config sv) @ ''/data/'' @ path"
    and "map_of (v_secrets v) path = Some t" "rs_body reply = kv_data t (unat (v_version v)) loaded_at"
    by (auto simp: sample_runtime_def)
  moreover have "path = ''app/db''" using path m by (simp add: app_uri_def)
  ultimately show ?thesis using run th p(2) rd(1) by blast
qed

end
